(* ===== verification/Prelude.thy ===== *)
theory Prelude
  imports Main "HOL-Library.Word" "HOL-Library.AList" "HOL-Library.Code_Target_Numeral"
begin

text \<open>
  Shared ground of the development: the machine types of the C++ code, byte order, strings as
  byte sequences, decimal printing, and the finite-map operations of \<^verbatim>\<open>std::unordered_map\<close>.
  The named collections are filled by the component theories and used by their proofs:
  \<^verbatim>\<open>umap_simps\<close> (what a lookup returns after an update or an erase) and
  \<^verbatim>\<open>wire_simps\<close> (encode/decode pairs of the wire format).
\<close>

named_theorems umap_simps
named_theorems wire_simps

section \<open>Machine types\<close>

type_synonym byte = "8 word"
type_synonym u16 = "16 word"
type_synonym u32 = "32 word"
type_synonym u64 = "64 word"

text \<open>The time type of the code, seconds.\<close>

type_synonym time_t = int

section \<open>Parts of byte arrays\<close>

text \<open>\<^verbatim>\<open>sub_list off n xs\<close> is the \<open>n\<close> elements of \<open>xs\<close> from offset \<open>off\<close>.\<close>

definition sub_list :: "nat \<Rightarrow> nat \<Rightarrow> 'a list \<Rightarrow> 'a list" where
  "sub_list off n xs = take n (drop off xs)"

lemma length_sub_list [simp]: "length (sub_list off n xs) = min n (length xs - off)"
  by (simp add: sub_list_def)

lemma sub_list_append_left:
  "off + n \<le> length xs \<Longrightarrow> sub_list off n (xs @ ys) = sub_list off n xs"
  by (simp add: sub_list_def)

lemma sub_list_append_right:
  "length xs \<le> off \<Longrightarrow> sub_list off n (xs @ ys) = sub_list (off - length xs) n ys"
  by (simp add: sub_list_def)

lemma sub_list_append_exact [simp]: "sub_list (length xs) n (xs @ ys) = take n ys"
  by (simp add: sub_list_def)

lemma sub_list_take: "off + n \<le> k \<Longrightarrow> sub_list off n (take k xs) = sub_list off n xs"
  by (simp add: sub_list_def min_def take_drop)

section \<open>Bounds of machine words\<close>

lemma unat_bound: "unat (w :: 'a::len word) < 2 ^ LENGTH('a)"
  by (rule unsigned_less)

section \<open>Network byte order\<close>

text \<open>
  \<^verbatim>\<open>htons\<close>, \<^verbatim>\<open>htonl\<close> and \<^verbatim>\<open>htobe64\<close> followed by a \<^verbatim>\<open>memcpy\<close> of the result leave the value's
  bytes in memory with the most significant byte first, on every host; \<^verbatim>\<open>memcpy\<close> followed by
  \<^verbatim>\<open>ntohs\<close>, \<^verbatim>\<open>ntohl\<close> or \<^verbatim>\<open>be64toh\<close> reads them back. The model keeps the pair as one
  function: \<open>n\<close> bytes of a number, most significant first.
\<close>

fun put_be :: "nat \<Rightarrow> nat \<Rightarrow> byte list" where
  "put_be 0 v = []"
| "put_be (Suc n) v = put_be n (v div 256) @ [word_of_nat v]"

definition get_be :: "byte list \<Rightarrow> nat" where
  "get_be bs = foldl (\<lambda>acc b. acc * 256 + unat b) 0 bs"

lemma length_put_be [simp]: "length (put_be n v) = n"
  by (induction n arbitrary: v) auto

lemma get_be_Nil [simp]: "get_be [] = 0"
  by (simp add: get_be_def)

lemma get_be_snoc [simp]: "get_be (bs @ [b]) = get_be bs * 256 + unat b"
  by (simp add: get_be_def)

lemma unat_byte_of_nat [simp]: "unat (word_of_nat v :: byte) = v mod 256"
  by (simp add: unat_of_nat)

lemma get_be_put_be: "get_be (put_be n v) = v mod 256 ^ n"
proof (induction n arbitrary: v)
  case 0
  then show ?case by simp
next
  case (Suc n)
  have "v mod 256 ^ Suc n = 256 * (v div 256 mod 256 ^ n) + v mod 256"
    by (simp add: mod_mult2_eq)
  with Suc show ?case by simp
qed

lemma get_be_bound: "get_be bs < 256 ^ length bs"
proof (induction bs rule: rev_induct)
  case Nil
  then show ?case by simp
next
  case (snoc b bs)
  have "unat b < 256" using unat_bound [of b] by simp
  with snoc show ?case by simp
qed

lemma put_be_get_be: "put_be (length bs) (get_be bs) = bs"
proof (induction bs rule: rev_induct)
  case Nil
  then show ?case by simp
next
  case (snoc b bs)
  have "unat b < 256" using unat_bound [of b] by simp
  then have "(get_be bs * 256 + unat b) div 256 = get_be bs" by simp
  moreover have "(word_of_nat (get_be bs * 256 + unat b) :: byte) = b"
    unfolding word_unat_eq_iff unat_byte_of_nat using \<open>unat b < 256\<close> by simp
  ultimately show ?case using snoc by simp
qed

definition put16 :: "u16 \<Rightarrow> byte list" where "put16 w = put_be 2 (unat w)"
definition put32 :: "u32 \<Rightarrow> byte list" where "put32 w = put_be 4 (unat w)"
definition put64 :: "u64 \<Rightarrow> byte list" where "put64 w = put_be 8 (unat w)"
definition get16 :: "byte list \<Rightarrow> u16" where "get16 bs = word_of_nat (get_be bs)"
definition get32 :: "byte list \<Rightarrow> u32" where "get32 bs = word_of_nat (get_be bs)"
definition get64 :: "byte list \<Rightarrow> u64" where "get64 bs = word_of_nat (get_be bs)"

lemma length_put [simp]:
  "length (put16 a) = 2" "length (put32 b) = 4" "length (put64 c) = 8"
  by (simp_all add: put16_def put32_def put64_def)

lemma get_put [wire_simps, simp]:
  "get16 (put16 a) = a" "get32 (put32 b) = b" "get64 (put64 c) = c"
  using unat_bound [of a] unat_bound [of b] unat_bound [of c]
  by (simp_all add: get16_def get32_def get64_def put16_def put32_def put64_def get_be_put_be)

lemma unat_get16 [simp]: "length bs = 2 \<Longrightarrow> unat (get16 bs) = get_be bs"
  using get_be_bound [of bs] by (simp add: get16_def unat_of_nat)

lemma put_get16: "length bs = 2 \<Longrightarrow> put16 (get16 bs) = bs"
  using put_be_get_be [of bs] by (simp add: put16_def)

section \<open>Strings\<close>

text \<open>
  \<^verbatim>\<open>std::string\<close> is a sequence of bytes, \<^typ>\<open>string\<close> in the model; the wire carries
  \<^typ>\<open>byte\<close>s. The two functions are the \<^verbatim>\<open>reinterpret_cast\<close>s between them.
\<close>

definition bytes_of :: "string \<Rightarrow> byte list" where
  "bytes_of s = map (\<lambda>c. word_of_nat (of_char c)) s"

definition string_of :: "byte list \<Rightarrow> string" where
  "string_of bs = map (\<lambda>b. char_of (unat b)) bs"

lemma length_bytes_of [simp]: "length (bytes_of s) = length s"
  by (simp add: bytes_of_def)

lemma length_string_of [simp]: "length (string_of bs) = length bs"
  by (simp add: string_of_def)

lemma string_of_bytes_of [wire_simps, simp]: "string_of (bytes_of s) = s"
  by (induction s) (simp_all add: bytes_of_def string_of_def)

lemma bytes_of_string_of [wire_simps, simp]: "bytes_of (string_of bs) = bs"
proof (induction bs)
  case Nil
  then show ?case by (simp add: bytes_of_def string_of_def)
next
  case (Cons b bs)
  have "unat b < 256" using unat_bound [of b] by simp
  with Cons show ?case by (simp add: bytes_of_def string_of_def)
qed

lemma bytes_of_take: "bytes_of (take n s) = take n (bytes_of s)"
  by (simp add: bytes_of_def take_map)

lemma string_of_take: "string_of (take n bs) = take n (string_of bs)"
  by (simp add: string_of_def take_map)

lemma string_of_eq_iff: "string_of a = string_of b \<longleftrightarrow> a = b"
  by (metis bytes_of_string_of)

section \<open>Decimal printing\<close>

text \<open>\<^verbatim>\<open>std::to_string\<close> of an unsigned value, and what a stream prints for it.\<close>

fun show_nat :: "nat \<Rightarrow> string" where
  "show_nat n = (if n < 10 then [char_of (48 + n)]
                 else show_nat (n div 10) @ [char_of (48 + n mod 10)])"

declare show_nat.simps [simp del]

definition digits_val :: "string \<Rightarrow> nat" where
  "digits_val s = foldl (\<lambda>acc c. acc * 10 + (of_char c - 48)) 0 s"

lemma digits_val_snoc: "digits_val (s @ [c]) = digits_val s * 10 + (of_char c - 48)"
  by (simp add: digits_val_def)

lemma digits_val_show_nat: "digits_val (show_nat n) = n"
proof (induction n rule: show_nat.induct)
  case (1 n)
  show ?case
  proof (cases "n < 10")
    case True
    then show ?thesis by (subst show_nat.simps) (simp add: digits_val_def)
  next
    case False
    then show ?thesis
      using 1 by (subst show_nat.simps) (simp add: digits_val_snoc)
  qed
qed

lemma show_nat_inj: "show_nat a = show_nat b \<longleftrightarrow> a = b"
  by (metis digits_val_show_nat)

lemma show_nat_nonempty: "show_nat n \<noteq> []"
  by (subst show_nat.simps) simp

lemma show_nat_length: "n < 10 ^ Suc k \<Longrightarrow> length (show_nat n) \<le> Suc k"
proof (induction n arbitrary: k rule: show_nat.induct)
  case (1 n)
  show ?case
  proof (cases "n < 10")
    case False
    then obtain j where j: "k = Suc j" using "1.prems" by (cases k) simp_all
    then have "n div 10 < 10 ^ Suc j" using "1.prems" by (simp add: less_mult_imp_div_less mult.commute)
    from "1.IH" [OF False this] j show ?thesis by (subst show_nat.simps) simp
  qed (simp add: show_nat.simps)
qed

lemma show_nat_digits: "c \<in> set (show_nat n) \<Longrightarrow> (of_char c :: nat) \<in> {48..57}"
proof (induction n rule: show_nat.induct)
  case (1 n)
  then show ?case
    by (subst (asm) show_nat.simps) (auto split: if_splits)
qed

end
