(* ===== verification/Fp.thy ===== *)
theory Fp
  imports Prelude Complex_Main
begin

text \<open>
  The \<^verbatim>\<open>float\<close> and \<^verbatim>\<open>double\<close> arithmetic the code computes with (IEEE 754, binary32 and
  binary64, round to nearest even, which is what the x86-64 and ARM64 targets do without
  extended precision). A \<^verbatim>\<open>double\<close> is its value: not-a-number, an infinity or a zero with
  its sign, or a non-zero rational number. A \<^verbatim>\<open>float\<close> is carried on the wire and kept in
  the structures as its 32-bit pattern, and is widened where the code converts it. The
  payload and sign of a not-a-number are not kept: narrowing writes the quiet pattern
  \<^verbatim>\<open>0x7fc00000\<close>.
\<close>

datatype fp = NaN | Infty bool | Zero bool | Fin rat

text \<open>The flag of an infinity or a zero is its sign bit, true for negative.\<close>

type_synonym f32 = "32 word"

abbreviation pow2 :: "int \<Rightarrow> rat" where "pow2 e \<equiv> 2 powi e"

section \<open>Powers of two and the binary exponent\<close>

lemma pow2_pos [simp]: "0 < pow2 e"
  by (simp add: zero_less_power_int)

lemma pow2_nonneg [simp]: "0 \<le> pow2 e"
  by (simp add: less_imp_le)

lemma pow2_add: "pow2 (a + b) = pow2 a * pow2 b"
  by (simp add: power_int_add)

lemma pow2_Suc: "pow2 (a + 1) = 2 * pow2 a"
  by (simp add: power_int_add)

lemma pow2_diff: "pow2 (a - b) = pow2 a / pow2 b"
  by (simp add: power_int_diff)

lemma pow2_less_iff [simp]: "pow2 a < pow2 b \<longleftrightarrow> a < b"
  using power_int_strict_increasing [of a b "2 :: rat"] power_int_increasing [of b a "2 :: rat"]
  by (cases "a < b") auto

lemma pow2_le_iff [simp]: "pow2 a \<le> pow2 b \<longleftrightarrow> a \<le> b"
  using pow2_less_iff [of b a] by (simp only: not_less [symmetric])

lemma pow2_nat: "0 \<le> a \<Longrightarrow> pow2 a = of_int (2 ^ nat a)"
  by (simp add: power_int_nonneg_exp)

fun nlog2 :: "nat \<Rightarrow> nat" where
  "nlog2 n = (if n < 2 then 0 else Suc (nlog2 (n div 2)))"

declare nlog2.simps [simp del]

lemma nlog2_bounds: "0 < n \<Longrightarrow> 2 ^ nlog2 n \<le> n \<and> n < 2 ^ Suc (nlog2 n)"
proof (induction n rule: nlog2.induct)
  case (1 n)
  show ?case
  proof (cases "n < 2")
    case True
    with "1.prems" show ?thesis by (simp add: nlog2.simps [of n])
  next
    case False
    with 1 have "2 ^ nlog2 (n div 2) \<le> n div 2 \<and> n div 2 < 2 ^ Suc (nlog2 (n div 2))" by simp
    with False show ?thesis by (simp add: nlog2.simps [of n]) linarith
  qed
qed

text \<open>The binary exponent of a positive rational: \<open>2 ^ e \<le> q < 2 ^ (e + 1)\<close>.\<close>

definition ilog2 :: "rat \<Rightarrow> int" where
  "ilog2 q = (if 1 \<le> q then int (nlog2 (nat \<lfloor>q\<rfloor>))
              else - int (nlog2 (nat (\<lceil>1 / q\<rceil> - 1))) - 1)"

lemma ilog2_bounds:
  assumes "0 < q"
  shows "pow2 (ilog2 q) \<le> q \<and> q < pow2 (ilog2 q + 1)"
proof (cases "1 \<le> q")
  case True
  define k where "k = nlog2 (nat \<lfloor>q\<rfloor>)"
  have "0 < nat \<lfloor>q\<rfloor>" using True by simp
  from nlog2_bounds [OF this] have "int (2 ^ k) \<le> \<lfloor>q\<rfloor>" and "\<lfloor>q\<rfloor> < int (2 ^ Suc k)"
    using True unfolding k_def [symmetric] by (simp_all add: nat_less_iff le_nat_iff)
  then have "of_int (int (2 ^ k)) \<le> q" and "q < of_int (int (2 ^ Suc k))"
    by (simp_all add: le_floor_iff floor_less_iff)
  with True show ?thesis
    by (simp add: ilog2_def k_def power_int_add)
next
  case False
  define k where "k = nlog2 (nat (\<lceil>1 / q\<rceil> - 1))"
  have "1 < 1 / q" using False assms by simp
  then have pos: "0 < nat (\<lceil>1 / q\<rceil> - 1)" by linarith
  from nlog2_bounds [OF pos] have "int (2 ^ k) \<le> int (nat (\<lceil>1 / q\<rceil> - 1))"
    and "int (nat (\<lceil>1 / q\<rceil> - 1)) < int (2 ^ Suc k)"
    unfolding k_def of_nat_le_iff of_nat_less_iff by simp_all
  then have "int (2 ^ k) < \<lceil>1 / q\<rceil>" and "\<lceil>1 / q\<rceil> \<le> int (2 ^ Suc k)"
    using pos assms by simp_all
  then have "of_int (int (2 ^ k)) < 1 / q" and "1 / q \<le> of_int (int (2 ^ Suc k))"
    by (simp_all add: less_ceiling_iff ceiling_le_iff)
  then have "q < 1 / 2 ^ k" and "1 / 2 ^ Suc k \<le> q"
    using assms by (simp_all add: field_simps)
  moreover have "ilog2 q = - int (Suc k)" using False by (simp add: ilog2_def k_def)
  moreover have "pow2 (- int (Suc k)) = 1 / 2 ^ Suc k"
    and "pow2 (- int (Suc k) + 1) = 1 / 2 ^ k"
    by (simp_all only: power_int_minus power_int_of_nat inverse_eq_divide
        pow2_Suc power_Suc)
  ultimately show ?thesis by simp
qed

lemma ilog2_unique: "pow2 e \<le> q \<Longrightarrow> q < pow2 (e + 1) \<Longrightarrow> ilog2 q = e"
proof -
  assume a: "pow2 e \<le> q" and b: "q < pow2 (e + 1)"
  have "0 < q" using a pow2_pos [of e] by linarith
  note c = ilog2_bounds [OF this]
  have "pow2 e < pow2 (ilog2 q + 1)" and "pow2 (ilog2 q) < pow2 (e + 1)"
    using a b c by linarith+
  then show ?thesis by simp
qed

lemma ilog2_mono: "0 < a \<Longrightarrow> a \<le> b \<Longrightarrow> ilog2 a \<le> ilog2 b"
proof -
  assume a: "0 < a" "a \<le> b"
  then have "pow2 (ilog2 a) < pow2 (ilog2 b + 1)"
    using ilog2_bounds [of a] ilog2_bounds [of b] by linarith
  then show ?thesis by simp
qed

section \<open>Rounding to nearest, ties to even\<close>

definition round_even :: "rat \<Rightarrow> int" where
  "round_even x =
     (let f = \<lfloor>x\<rfloor>; d = x - of_int f
      in if d < 1 / 2 then f else if 1 / 2 < d then f + 1 else if even f then f else f + 1)"

lemma round_even_of_int [simp]: "round_even (of_int n) = n"
  by (simp add: round_even_def)

lemma round_even_cases: "round_even x = \<lfloor>x\<rfloor> \<or> round_even x = \<lfloor>x\<rfloor> + 1"
  by (simp add: round_even_def Let_def)

lemma round_even_mono: "x \<le> y \<Longrightarrow> round_even x \<le> round_even y"
proof -
  assume le: "x \<le> y"
  show ?thesis
  proof (cases "\<lfloor>x\<rfloor> = \<lfloor>y\<rfloor>")
    case True
    with le show ?thesis by (auto simp: round_even_def Let_def)
  next
    case False
    then have "\<lfloor>x\<rfloor> + 1 \<le> \<lfloor>y\<rfloor>" using floor_mono [OF le] by linarith
    then show ?thesis using round_even_cases [of x] round_even_cases [of y] by linarith
  qed
qed

lemma round_even_nearest: "\<bar>of_int (round_even x) - x\<bar> \<le> 1 / 2"
proof -
  have "of_int \<lfloor>x\<rfloor> \<le> x" "x < of_int \<lfloor>x\<rfloor> + 1" by linarith+
  then show ?thesis by (auto simp: round_even_def Let_def)
qed

text \<open>
  A format has \<open>p\<close> significant bits and least exponent \<open>emin\<close>. The unit in the last place of
  a positive \<open>q\<close> is \<open>2 ^ ulp_exp p emin q\<close>: it stops shrinking in the subnormal range.
\<close>

definition ulp_exp :: "int \<Rightarrow> int \<Rightarrow> rat \<Rightarrow> int" where
  "ulp_exp p emin q = max (ilog2 q) emin - (p - 1)"

definition round_sig :: "int \<Rightarrow> int \<Rightarrow> rat \<Rightarrow> int" where
  "round_sig p emin q = round_even (q / pow2 (ulp_exp p emin q))"

definition round_mag :: "int \<Rightarrow> int \<Rightarrow> rat \<Rightarrow> rat" where
  "round_mag p emin q = of_int (round_sig p emin q) * pow2 (ulp_exp p emin q)"

lemma ulp_exp_mono: "0 < a \<Longrightarrow> a \<le> b \<Longrightarrow> ulp_exp p emin a \<le> ulp_exp p emin b"
  using ilog2_mono [of a b] by (simp add: ulp_exp_def)

text \<open>A number on the grid of the format is not changed.\<close>

lemma round_sig_grid:
  assumes "q = of_int n * pow2 k" and "ulp_exp p emin q \<le> k"
  shows "round_sig p emin q = n * 2 ^ nat (k - ulp_exp p emin q)"
proof -
  define u where "u = ulp_exp p emin q"
  have "q / pow2 u = of_int n * pow2 (k - u)"
    using assms(1) by (simp add: pow2_diff)
  also have "\<dots> = of_int (n * 2 ^ nat (k - u))"
    using assms(2) by (simp add: pow2_nat u_def)
  finally show ?thesis by (simp add: round_sig_def u_def del: of_int_mult of_int_power)
qed

lemma round_mag_grid:
  assumes "q = of_int n * pow2 k" and "ulp_exp p emin q \<le> k"
  shows "round_mag p emin q = q"
proof -
  have "round_mag p emin q
      = of_int n * (pow2 (k - ulp_exp p emin q) * pow2 (ulp_exp p emin q))"
    unfolding round_mag_def round_sig_grid [OF assms]
    using assms(2) by (simp add: pow2_nat)
  also have "\<dots> = q" by (simp add: assms(1) flip: pow2_add)
  finally show ?thesis .
qed

lemma ulp_exp_le:
  assumes "q = of_int n * pow2 k" and "0 < n" and "n < 2 ^ nat p" and "0 < p"
    and "emin - (p - 1) \<le> k"
  shows "ulp_exp p emin q \<le> k"
proof -
  have "0 < q" using assms by simp
  have "of_int n < pow2 p" using assms(3,4) by (simp add: pow2_nat flip: of_int_less_iff)
  then have "q < pow2 (p + k)" using assms(1) by (simp add: pow2_add)
  then have "pow2 (ilog2 q) < pow2 (p + k)" using ilog2_bounds [OF \<open>0 < q\<close>] by linarith
  then have "ilog2 q < p + k" by simp
  with assms(5) show ?thesis by (simp add: ulp_exp_def)
qed

lemma round_mag_exact:
  assumes "q = of_int n * pow2 k" and "0 < n" and "n < 2 ^ nat p" and "0 < p"
    and "emin - (p - 1) \<le> k"
  shows "round_mag p emin q = q"
  by (rule round_mag_grid [OF assms(1) ulp_exp_le [OF assms]])

text \<open>Rounding is monotone: within a binade by \<open>round_even_mono\<close>, across binades because
  the boundary between them is on both grids.\<close>

lemma round_mag_mono:
  assumes "0 < a" and "a \<le> b" and "0 < p"
  shows "round_mag p emin a \<le> round_mag p emin b"
proof (cases "ulp_exp p emin a = ulp_exp p emin b")
  case True
  then show ?thesis
    using assms by (simp add: round_mag_def round_sig_def round_even_mono divide_right_mono
        mult_right_mono)
next
  case False
  define ua ub where "ua = ulp_exp p emin a" and "ub = ulp_exp p emin b"
  have lt: "ua < ub"
    using False ulp_exp_mono [OF assms(1,2), of p emin] by (simp add: ua_def ub_def)
  then have lb: "ub = ilog2 b - (p - 1)" and la: "ilog2 a < ilog2 b"
    using ilog2_mono [OF assms(1,2)] unfolding ua_def ub_def ulp_exp_def by linarith+
  have "0 < b" using assms by linarith
  define c where "c = pow2 (ilog2 b)"
  have ca: "a < c" using ilog2_bounds [OF assms(1)] la pow2_le_iff [of "ilog2 a + 1" "ilog2 b"]
    unfolding c_def by linarith
  have cb: "c \<le> b" using ilog2_bounds [OF \<open>0 < b\<close>] by (simp add: c_def)
  have grid: "c = of_int (2 ^ nat (ilog2 b - u)) * pow2 u" if "u \<le> ilog2 b" for u
    using that pow2_add [of "ilog2 b - u" u] by (simp add: c_def pow2_nat)
  have "ub \<le> ilog2 b" using lb assms(3) by simp
  have "round_mag p emin a \<le> c"
  proof -
    have "ua \<le> ilog2 b" using lt \<open>ub \<le> ilog2 b\<close> by simp
    have "a / pow2 ua \<le> c / pow2 ua" using ca by (simp add: divide_right_mono)
    also have "\<dots> = of_int (2 ^ nat (ilog2 b - ua))"
      using grid [OF \<open>ua \<le> ilog2 b\<close>] by (simp add: field_simps)
    finally have "round_even (a / pow2 ua) \<le> 2 ^ nat (ilog2 b - ua)"
      using round_even_mono round_even_of_int by metis
    then have "of_int (round_even (a / pow2 ua)) \<le> (of_int (2 ^ nat (ilog2 b - ua)) :: rat)"
      by (simp only: of_int_le_iff)
    then have "of_int (round_even (a / pow2 ua)) * pow2 ua
        \<le> of_int (2 ^ nat (ilog2 b - ua)) * pow2 ua"
      by (rule mult_right_mono) simp
    then show ?thesis
      using grid [OF \<open>ua \<le> ilog2 b\<close>] by (simp add: round_mag_def round_sig_def ua_def)
  qed
  also have "c \<le> round_mag p emin b"
  proof -
    have "of_int (2 ^ nat (ilog2 b - ub)) = c / pow2 ub"
      using grid [OF \<open>ub \<le> ilog2 b\<close>] by (simp add: field_simps)
    also have "\<dots> \<le> b / pow2 ub" using cb by (simp add: divide_right_mono)
    finally have "2 ^ nat (ilog2 b - ub) \<le> round_even (b / pow2 ub)"
      using round_even_mono round_even_of_int by metis
    then have "(of_int (2 ^ nat (ilog2 b - ub)) :: rat) \<le> of_int (round_even (b / pow2 ub))"
      by (simp only: of_int_le_iff)
    then have "of_int (2 ^ nat (ilog2 b - ub)) * pow2 ub
        \<le> of_int (round_even (b / pow2 ub)) * pow2 ub"
      by (rule mult_right_mono) simp
    then show ?thesis
      using grid [OF \<open>ub \<le> ilog2 b\<close>] by (simp add: round_mag_def round_sig_def ub_def)
  qed
  finally show ?thesis .
qed

section \<open>Doubles\<close>

text \<open>The \<^verbatim>\<open>double\<close> nearest to a non-zero number, with overflow to an infinity and underflow
  to a zero of the number's sign.\<close>

definition rnd64 :: "rat \<Rightarrow> fp" where
  "rnd64 q =
     (let m = round_mag 53 (-1022) \<bar>q\<bar>
      in if m = 0 then Zero (q < 0)
         else if pow2 1024 \<le> m then Infty (q < 0)
         else Fin (if q < 0 then - m else m))"

text \<open>The values a \<^verbatim>\<open>double\<close> can hold.\<close>

definition is_f64 :: "fp \<Rightarrow> bool" where
  "is_f64 x = (case x of Fin q \<Rightarrow> q \<noteq> 0 \<and> rnd64 q = Fin q | _ \<Rightarrow> True)"

fun fneg :: "fp \<Rightarrow> fp" where
  "fneg NaN = NaN"
| "fneg (Infty s) = Infty (\<not> s)"
| "fneg (Zero s) = Zero (\<not> s)"
| "fneg (Fin q) = Fin (- q)"

fun fadd :: "fp \<Rightarrow> fp \<Rightarrow> fp" where
  "fadd NaN y = NaN"
| "fadd x NaN = NaN"
| "fadd (Infty s) (Infty t) = (if s = t then Infty s else NaN)"
| "fadd (Infty s) y = Infty s"
| "fadd x (Infty t) = Infty t"
| "fadd (Zero s) (Zero t) = Zero (s \<and> t)"
| "fadd (Zero s) (Fin q) = Fin q"
| "fadd (Fin q) (Zero t) = Fin q"
| "fadd (Fin q) (Fin r) = (if q + r = 0 then Zero False else rnd64 (q + r))"

definition fsub :: "fp \<Rightarrow> fp \<Rightarrow> fp" where
  "fsub x y = fadd x (fneg y)"

text \<open>The sign bit.\<close>

fun fsgn :: "fp \<Rightarrow> bool" where
  "fsgn NaN = False"
| "fsgn (Infty s) = s"
| "fsgn (Zero s) = s"
| "fsgn (Fin q) = (q < 0)"

fun fmul :: "fp \<Rightarrow> fp \<Rightarrow> fp" where
  "fmul NaN y = NaN"
| "fmul x NaN = NaN"
| "fmul (Infty s) (Zero t) = NaN"
| "fmul (Zero s) (Infty t) = NaN"
| "fmul (Infty s) y = Infty (s \<noteq> fsgn y)"
| "fmul x (Infty t) = Infty (fsgn x \<noteq> t)"
| "fmul (Fin q) (Fin r) = rnd64 (q * r)"
| "fmul x y = Zero (fsgn x \<noteq> fsgn y)"

fun fdiv :: "fp \<Rightarrow> fp \<Rightarrow> fp" where
  "fdiv NaN y = NaN"
| "fdiv x NaN = NaN"
| "fdiv (Infty s) (Infty t) = NaN"
| "fdiv (Zero s) (Zero t) = NaN"
| "fdiv (Infty s) y = Infty (s \<noteq> fsgn y)"
| "fdiv x (Zero t) = Infty (fsgn x \<noteq> t)"
| "fdiv (Fin q) (Fin r) = rnd64 (q / r)"
| "fdiv x y = Zero (fsgn x \<noteq> fsgn y)"

text \<open>The integer square root and, from it, the correctly rounded \<^verbatim>\<open>std::sqrt\<close>.\<close>

fun isqrt :: "nat \<Rightarrow> nat" where
  "isqrt n = (if n = 0 then 0
              else let r = 2 * isqrt (n div 4) in if (r + 1)\<^sup>2 \<le> n then r + 1 else r)"

declare isqrt.simps [simp del]

definition sqrt_mag :: "rat \<Rightarrow> rat" where
  "sqrt_mag q =
     (let u = ilog2 q div 2 - 52;
          t = q / pow2 (2 * u);
          f = int (isqrt (nat \<lfloor>t\<rfloor>));
          h = (of_int f + 1 / 2)\<^sup>2;
          n = (if t < h then f else if h < t then f + 1 else if even f then f else f + 1)
      in of_int n * pow2 u)"

fun fsqrt :: "fp \<Rightarrow> fp" where
  "fsqrt NaN = NaN"
| "fsqrt (Zero s) = Zero s"
| "fsqrt (Infty s) = (if s then NaN else Infty False)"
| "fsqrt (Fin q) = (if q < 0 then NaN else Fin (sqrt_mag q))"

text \<open>Comparisons: false when an operand is not a number; the zeros are equal.\<close>

fun fp_rank :: "fp \<Rightarrow> int" where
  "fp_rank (Infty s) = (if s then -1 else 1)"
| "fp_rank _ = 0"

fun fp_val :: "fp \<Rightarrow> rat" where
  "fp_val (Fin q) = q"
| "fp_val _ = 0"

definition flt :: "fp \<Rightarrow> fp \<Rightarrow> bool" where
  "flt x y \<longleftrightarrow> x \<noteq> NaN \<and> y \<noteq> NaN \<and>
     (fp_rank x < fp_rank y \<or> fp_rank x = fp_rank y \<and> fp_val x < fp_val y)"

definition fle :: "fp \<Rightarrow> fp \<Rightarrow> bool" where
  "fle x y \<longleftrightarrow> x \<noteq> NaN \<and> y \<noteq> NaN \<and>
     (fp_rank x < fp_rank y \<or> fp_rank x = fp_rank y \<and> fp_val x \<le> fp_val y)"

abbreviation fgt :: "fp \<Rightarrow> fp \<Rightarrow> bool" where "fgt x y \<equiv> flt y x"
abbreviation fge :: "fp \<Rightarrow> fp \<Rightarrow> bool" where "fge x y \<equiv> fle y x"

text \<open>The C++ operator \<^verbatim>\<open>!=\<close>: true when an operand is not a number.\<close>

definition fne :: "fp \<Rightarrow> fp \<Rightarrow> bool" where
  "fne x y \<longleftrightarrow> x = NaN \<or> y = NaN \<or> fp_rank x \<noteq> fp_rank y \<or> fp_val x \<noteq> fp_val y"

text \<open>\<^verbatim>\<open>std::min\<close> and \<^verbatim>\<open>std::max\<close>: the first argument unless the second compares better.\<close>

definition fmin :: "fp \<Rightarrow> fp \<Rightarrow> fp" where "fmin a b = (if flt b a then b else a)"
definition fmax :: "fp \<Rightarrow> fp \<Rightarrow> fp" where "fmax a b = (if flt a b then b else a)"

text \<open>\<^verbatim>\<open>std::numeric_limits<double>::max()\<close>.\<close>

definition DBL_MAX :: fp where
  "DBL_MAX = Fin (of_int (2 ^ 53 - 1) * pow2 971)"

section \<open>Floats\<close>

definition mag32 :: "nat \<Rightarrow> nat \<Rightarrow> rat" where
  "mag32 e m = (if e = 0 then of_nat m * pow2 (-149)
                else of_nat (2 ^ 23 + m) * pow2 (int e - 150))"

text \<open>The \<^verbatim>\<open>double\<close> a \<^verbatim>\<open>float\<close> converts to (exact).\<close>

definition widen :: "f32 \<Rightarrow> fp" where
  "widen w =
     (let v = unat w; s = (2 ^ 31 \<le> v); e = v div 2 ^ 23 mod 256; m = v mod 2 ^ 23
      in if e = 255 then (if m = 0 then Infty s else NaN)
         else if e = 0 \<and> m = 0 then Zero s
         else Fin (if s then - mag32 e m else mag32 e m))"

text \<open>
  The conversion of a \<^verbatim>\<open>double\<close> to \<^verbatim>\<open>float\<close>. The exponent field and the significand are added
  as numbers: a significand that rounds up to the next power of two carries into the
  exponent, and past the largest exponent the pattern is that of an infinity.
\<close>

definition narrow :: "fp \<Rightarrow> f32" where
  "narrow x =
     (case x of
        NaN \<Rightarrow> 0x7fc00000
      | Infty s \<Rightarrow> (if s then 0xff800000 else 0x7f800000)
      | Zero s \<Rightarrow> (if s then 0x80000000 else 0)
      | Fin q \<Rightarrow>
          (let b = (max (ilog2 \<bar>q\<bar>) (-126) + 126) * 2 ^ 23 + round_sig 24 (-126) \<bar>q\<bar>;
               v = (if 255 * 2 ^ 23 \<le> b then 255 * 2 ^ 23 else b)
           in word_of_int (if q < 0 then v + 2 ^ 31 else v)))"

section \<open>Facts of the operations\<close>

lemma fadd_comm: "fadd x y = fadd y x"
  by (cases x; cases y) (auto simp: add.commute)

lemma fmul_comm: "fmul x y = fmul y x"
  by (cases x; cases y) (auto simp: mult.commute)

lemma fneg_fneg [simp]: "fneg (fneg x) = x"
  by (cases x) auto

lemma rnd64_neg: "q \<noteq> 0 \<Longrightarrow> rnd64 (- q) = fneg (rnd64 q)"
  by (auto simp: rnd64_def Let_def)

text \<open>Swapping the operands of a subtraction changes the sign, except that both differences
  of equal finite numbers are the positive zero.\<close>

lemma fsub_swap:
  "fsub y x = fneg (fsub x y) \<or> (\<exists>s t. fsub y x = Zero s \<and> fsub x y = Zero t)"
proof (cases "\<exists>q r. x = Fin q \<and> y = Fin r")
  case True
  then obtain q r where [simp]: "x = Fin q" "y = Fin r" by blast
  show ?thesis
  proof (cases "q = r")
    case True
    then show ?thesis by (auto simp: fsub_def)
  next
    case False
    then have "rnd64 (r - q) = fneg (rnd64 (q - r))"
      using rnd64_neg [of "q - r"] by simp
    with False show ?thesis by (simp add: fsub_def)
  qed
next
  case False
  then show ?thesis by (cases x; cases y) (auto simp: fsub_def)
qed

text \<open>Squares do not depend on the sign, nor does the square of a product on the sign of a
  factor.\<close>

definition fsquare :: "fp \<Rightarrow> fp" where
  "fsquare x = fmul x x"

lemma fsquare_neg_or_zero:
  assumes "x' = fneg x \<or> (\<exists>s t. x' = Zero s \<and> x = Zero t)"
  shows "fsquare x' = fsquare x"
  using assms by (cases x) (auto simp: fsquare_def)

lemma rnd64_sign: "rnd64 (- q) = fneg (rnd64 q) \<or> q = 0"
  using rnd64_neg by blast

lemma fsquare_fmul_neg_or_zero:
  assumes "x' = fneg x \<or> (\<exists>s t. x' = Zero s \<and> x = Zero t)"
  shows "fsquare (fmul x' y) = fsquare (fmul x y)"
proof (cases "\<exists>q r. x = Fin q \<and> y = Fin r")
  case True
  then obtain q r where xy: "x = Fin q" "y = Fin r" by blast
  with assms have "x' = Fin (- q)" by auto
  then show ?thesis
    using rnd64_sign [of "q * r"] xy by (auto intro: fsquare_neg_or_zero)
next
  case False
  then show ?thesis using assms by (cases x; cases y) (auto simp: fsquare_def)
qed

lemma flt_irrefl [simp]: "\<not> flt x x"
  by (simp add: flt_def)

lemma flt_trans: "flt x y \<Longrightarrow> flt y z \<Longrightarrow> flt x z"
  by (auto simp: flt_def)

lemma fle_trans: "fle x y \<Longrightarrow> fle y z \<Longrightarrow> fle x z"
  by (auto simp: fle_def)

lemma flt_fle_trans: "flt x y \<Longrightarrow> fle y z \<Longrightarrow> flt x z"
  by (auto simp: flt_def fle_def)

lemma fle_flt_trans: "fle x y \<Longrightarrow> flt y z \<Longrightarrow> flt x z"
  by (auto simp: flt_def fle_def)

lemma flt_imp_fle: "flt x y \<Longrightarrow> fle x y"
  by (auto simp: flt_def fle_def)

lemma fle_refl [simp]: "fle x x \<longleftrightarrow> x \<noteq> NaN"
  by (simp add: fle_def)

lemma flt_NaN [simp]: "\<not> flt NaN y" "\<not> flt x NaN"
  by (simp_all add: flt_def)

lemma fle_NaN [simp]: "\<not> fle NaN y" "\<not> fle x NaN"
  by (simp_all add: fle_def)

lemma not_flt_iff: "x \<noteq> NaN \<Longrightarrow> y \<noteq> NaN \<Longrightarrow> \<not> flt x y \<longleftrightarrow> fle y x"
  by (auto simp: flt_def fle_def)

lemma flt_not_sym: "flt x y \<Longrightarrow> \<not> flt y x"
  by (auto simp: flt_def)

lemma fne_NaN [simp]: "fne NaN y" "fne x NaN"
  by (simp_all add: fne_def)

lemma fne_self [simp]: "fne x x \<longleftrightarrow> x = NaN"
  by (auto simp: fne_def)

lemma fmin_fle: "a \<noteq> NaN \<Longrightarrow> fle (fmin a b) a"
  by (auto simp: fmin_def flt_imp_fle)

lemma fmin_fle_right: "a \<noteq> NaN \<Longrightarrow> b \<noteq> NaN \<Longrightarrow> fle (fmin a b) b"
  by (auto simp: fmin_def not_flt_iff)

lemma fmax_fle: "a \<noteq> NaN \<Longrightarrow> fle a (fmax a b)"
  by (auto simp: fmax_def flt_imp_fle)

lemma fmax_fle_right: "a \<noteq> NaN \<Longrightarrow> b \<noteq> NaN \<Longrightarrow> fle b (fmax a b)"
  by (auto simp: fmax_def not_flt_iff)

lemma fmin_NaN [simp]: "fmin a NaN = a" "fmin NaN b = NaN"
  by (simp_all add: fmin_def)

lemma fmax_NaN [simp]: "fmax a NaN = a" "fmax NaN b = NaN"
  by (simp_all add: fmax_def)

lemma fmin_not_NaN: "a \<noteq> NaN \<Longrightarrow> fmin a b \<noteq> NaN"
  by (auto simp: fmin_def)

lemma fmax_not_NaN: "a \<noteq> NaN \<Longrightarrow> fmax a b \<noteq> NaN"
  by (auto simp: fmax_def)

section \<open>Rounding of doubles\<close>

lemma rnd64_grid:
  assumes "\<bar>q\<bar> = of_int n * pow2 k" and "0 < n" and "n < 2 ^ 53" and "-1074 \<le> k"
    and "\<bar>q\<bar> < pow2 1024"
  shows "rnd64 q = Fin q"
proof -
  have "round_mag 53 (-1022) \<bar>q\<bar> = \<bar>q\<bar>"
    by (rule round_mag_exact [OF assms(1,2)]) (use assms in simp_all)
  moreover have "\<bar>q\<bar> > 0" using assms(1,2) by simp
  ultimately show ?thesis using assms(5) by (auto simp: rnd64_def Let_def)
qed

lemma rnd64_of_int:
  assumes "n \<noteq> 0" and "\<bar>n\<bar> < 2 ^ 53"
  shows "rnd64 (of_int n) = Fin (of_int n)"
proof (rule rnd64_grid [where n = "\<bar>n\<bar>" and k = 0])
  have "(of_int \<bar>n\<bar> :: rat) < of_int (2 ^ 53)" using assms(2) by (simp only: of_int_less_iff)
  also have "\<dots> \<le> pow2 1024" by simp
  finally show "\<bar>of_int n :: rat\<bar> < pow2 1024" by simp
qed (use assms in simp_all)

lemma rnd64_numeral:
  "(numeral n :: int) < 2 ^ 53 \<Longrightarrow> rnd64 (numeral n) = Fin (numeral n)"
  "(numeral n :: int) < 2 ^ 53 \<Longrightarrow> rnd64 (- numeral n) = Fin (- numeral n)"
  using rnd64_of_int [of "numeral n"] rnd64_of_int [of "- numeral n"] by simp_all

lemma rnd64_one: "rnd64 1 = Fin 1" "rnd64 (- 1) = Fin (- 1)"
  using rnd64_of_int [of 1] rnd64_of_int [of "- 1"] by simp_all

lemma rnd64_not_NaN [simp]: "rnd64 q \<noteq> NaN"
  by (simp add: rnd64_def Let_def)

lemma round_sig_nonneg: "0 < q \<Longrightarrow> 0 \<le> round_sig p emin q"
  using round_even_mono [of 0 "q / pow2 (ulp_exp p emin q)"] round_even_of_int [of 0]
  by (simp add: round_sig_def)

lemma round_mag_nonneg: "0 < q \<Longrightarrow> 0 \<le> round_mag p emin q"
  using round_sig_nonneg [of q p emin] by (simp add: round_mag_def)

text \<open>Rounding to \<^verbatim>\<open>double\<close> is monotone.\<close>

lemma rnd64_mono:
  assumes "a \<le> b" and "a \<noteq> 0" and "b \<noteq> 0"
  shows "fle (rnd64 a) (rnd64 b)"
proof -
  consider "0 < a" | "b < 0" | "a < 0" "0 < b" using assms by linarith
  then show ?thesis
  proof cases
    case 1
    then have "round_mag 53 (-1022) a \<le> round_mag 53 (-1022) b"
      using assms by (intro round_mag_mono) simp_all
    then show ?thesis
      using 1 assms round_mag_nonneg [of a 53 "-1022"]
      by (auto simp: rnd64_def Let_def fle_def)
  next
    case 2
    then have "round_mag 53 (-1022) (- b) \<le> round_mag 53 (-1022) (- a)"
      using assms by (intro round_mag_mono) simp_all
    then show ?thesis
      using 2 assms round_mag_nonneg [of "- b" 53 "-1022"]
      by (auto simp: rnd64_def Let_def fle_def)
  next
    case 3
    then show ?thesis
      using round_mag_nonneg [of "- a" 53 "-1022"] round_mag_nonneg [of b 53 "-1022"]
      by (auto simp: rnd64_def Let_def fle_def)
  qed
qed

section \<open>Floats and doubles\<close>

text \<open>The fields of a pattern that is not a not-a-number.\<close>

lemma f32_fields:
  fixes w :: f32
  defines "v \<equiv> unat w"
  shows "v = (if 2 ^ 31 \<le> v then 2 ^ 31 else 0) + v div 2 ^ 23 mod 256 * 2 ^ 23 + v mod 2 ^ 23"
proof -
  define k where "k = v div 2 ^ 23"
  have "v < 2 ^ 32" using unat_bound [of w] by (simp add: v_def)
  then have "k < 512" by (simp add: k_def div_less_iff_less_mult)
  then have "k = (if 256 \<le> k then 256 else 0) + k mod 256"
    using mod_less [of "k - 256" 256] le_mod_geq [of 256 k] by auto
  moreover have "2 ^ 31 \<le> v \<longleftrightarrow> 256 \<le> k" by (simp add: k_def less_eq_div_iff_mult_less_eq)
  moreover have "v = k * 2 ^ 23 + v mod 2 ^ 23" by (simp add: k_def)
  ultimately have "v = ((if 2 ^ 31 \<le> v then 256 else 0) + k mod 256) * 2 ^ 23 + v mod 2 ^ 23"
    by presburger
  then show ?thesis by (simp add: k_def add_mult_distrib split: if_splits)
qed

lemma mag32_pos: "0 < e \<or> 0 < m \<Longrightarrow> 0 < mag32 e m"
  by (auto simp: mag32_def)

lemma narrow_mag32:
  assumes "e < 255" and "m < 2 ^ 23" and "0 < e \<or> 0 < m"
  shows "(max (ilog2 (mag32 e m)) (-126) + 126) * 2 ^ 23 + round_sig 24 (-126) (mag32 e m)
    = int (e * 2 ^ 23 + m)"
proof (cases "e = 0")
  case True
  let ?q = "of_nat m * pow2 (-149) :: rat"
  have "0 < ?q" using True assms(3) by simp
  have "(of_nat m :: rat) < of_nat (2 ^ 23)" using assms(2) by (simp only: of_nat_less_iff)
  then have "?q < of_nat (2 ^ 23) * pow2 (-149)" by simp
  also have "\<dots> = pow2 (-126)" by (simp add: power_int_minus)
  finally have "pow2 (ilog2 ?q) < pow2 (-126)" using ilog2_bounds [OF \<open>0 < ?q\<close>] by linarith
  then have "ilog2 ?q < -126" by (simp only: pow2_less_iff)
  then have "max (ilog2 ?q) (-126) = -126" by linarith
  moreover have "round_sig 24 (-126) ?q = int m"
    using calculation round_sig_grid [of ?q "int m" "-149" 24 "-126"]
    by (simp add: ulp_exp_def)
  ultimately show ?thesis using True by (simp add: mag32_def)
next
  case False
  let ?q = "of_nat (2 ^ 23 + m) * pow2 (int e - 150) :: rat"
  have "(of_nat (2 ^ 23) :: rat) \<le> of_nat (2 ^ 23 + m)"
    and "(of_nat (2 ^ 23 + m) :: rat) < of_nat (2 ^ 24)"
    using assms(2) by (simp_all only: of_nat_less_iff of_nat_le_iff) simp_all
  then have "of_nat (2 ^ 23) * pow2 (int e - 150) \<le> ?q" "?q < of_nat (2 ^ 24) * pow2 (int e - 150)"
    by (simp_all only: mult_right_mono mult_strict_right_mono pow2_pos pow2_nonneg)
  then have "pow2 (int e - 127) \<le> ?q" "?q < pow2 (int e - 127 + 1)"
    using pow2_add [of 23 "int e - 150"] pow2_add [of 24 "int e - 150"] by simp_all
  then have il: "ilog2 ?q = int e - 127" by (rule ilog2_unique)
  then have "max (ilog2 ?q) (-126) = int e - 127" using False by simp
  moreover have "round_sig 24 (-126) ?q = 2 ^ 23 + int m"
    using calculation round_sig_grid [of ?q "2 ^ 23 + int m" "int e - 150" 24 "-126"]
    by (simp add: ulp_exp_def)
  ultimately show ?thesis using False by (simp add: mag32_def)
qed

text \<open>Widening and narrowing again gives the same \<^verbatim>\<open>float\<close>.\<close>

lemma narrow_widen: "widen w \<noteq> NaN \<Longrightarrow> narrow (widen w) = w"
proof -
  assume nn: "widen w \<noteq> NaN"
  define v where "v = unat w"
  define s e m where "s = (2 ^ 31 \<le> v)" and "e = v div 2 ^ 23 mod 256" and "m = v mod 2 ^ 23"
  have v: "v = (if s then 2 ^ 31 else 0) + e * 2 ^ 23 + m"
    using f32_fields [of w] by (simp add: v_def s_def e_def m_def)
  have w: "w = word_of_nat v" by (simp add: v_def)
  have m: "m < 2 ^ 23" by (simp add: m_def)
  have wid: "widen w = (if e = 255 then (if m = 0 then Infty s else NaN)
         else if e = 0 \<and> m = 0 then Zero s
         else Fin (if s then - mag32 e m else mag32 e m))"
    by (simp add: widen_def v_def s_def e_def m_def Let_def)
  show ?thesis
  proof (cases "e = 255 \<or> e = 0 \<and> m = 0")
    case True
    then have "narrow (widen w) = word_of_nat v"
      using nn unfolding wid narrow_def by (auto simp: v)
    then show ?thesis by (simp add: w)
  next
    case False
    then have e: "e < 255" and pos: "0 < e \<or> 0 < m" by (auto simp: e_def)
    have "narrow (widen w) = word_of_int (int (e * 2 ^ 23 + m) + (if s then 2 ^ 31 else 0))"
      using False narrow_mag32 [OF e m pos] mag32_pos [OF pos] e m
      by (simp add: wid narrow_def Let_def)
    also have "\<dots> = word_of_nat v" by (simp add: v)
    finally show ?thesis by (simp add: w)
  qed
qed

lemma widen_zero [simp]: "widen 0 = Zero False"
  by (simp add: widen_def)

end
