(* ===== verification/Geo.thy ===== *)
theory Geo
  imports Fp
begin

text \<open>
  \<^verbatim>\<open>src/utils/geo.h\<close>: the equirectangular distance and the two-dimensional regions. The cosine
  is the C library's (its last bits differ between libraries), so it is the parameter
  \<open>C\<close> of the distance; every other operation is the arithmetic of theory \<^verbatim>\<open>Fp\<close>. Then how regions are printed.
\<close>

section \<open>Distance\<close>

text \<open>\<^verbatim>\<open>M_PI\<close>, the \<^verbatim>\<open>double\<close> nearest to pi.\<close>

definition M_PI :: fp where
  "M_PI = Fin (884279719003555 / 281474976710656)"

definition geo_distance :: "(fp \<Rightarrow> fp) \<Rightarrow> fp \<Rightarrow> fp \<Rightarrow> fp \<Rightarrow> fp \<Rightarrow> fp" where
  "geo_distance C lat1 lon1 lat2 lon2 =
     (let dlat = fsub lat1 lat2;
          dlon = fmul (fsub lon1 lon2)
                   (C (fdiv (fmul (fdiv (fadd lat1 lat2) (Fin 2)) M_PI) (Fin 180)))
      in fsqrt (fadd (fmul dlat dlat) (fmul dlon dlon)))"

text \<open>The distance does not depend on the order of the two points, whatever the cosine.\<close>

lemma geo_distance_swap:
  "geo_distance C lat1 lon1 lat2 lon2 = geo_distance C lat2 lon2 lat1 lon1"
proof -
  have lat: "fsquare (fsub lat2 lat1) = fsquare (fsub lat1 lat2)"
    by (rule fsquare_neg_or_zero [OF fsub_swap])
  have lon: "fsquare (fmul (fsub lon2 lon1) c) = fsquare (fmul (fsub lon1 lon2) c)" for c
    by (rule fsquare_fmul_neg_or_zero [OF fsub_swap])
  show ?thesis
    using lat lon by (simp add: geo_distance_def Let_def fsquare_def fadd_comm [of lat1 lat2])
qed

text \<open>A distance is never negative: it is not a number, an infinity or at least zero.\<close>

lemma isqrt_nonneg_sqrt_mag: "0 \<le> sqrt_mag q"
  by (simp add: sqrt_mag_def Let_def)

lemma fsqrt_not_neg: "x = NaN \<or> fle (Zero False) (fsqrt x) \<or> fsqrt x = NaN"
  by (cases x) (auto simp: fle_def isqrt_nonneg_sqrt_mag)

lemma geo_distance_not_neg: "\<not> flt (geo_distance C lat1 lon1 lat2 lon2) (Zero False)"
proof -
  have "\<not> flt (fsqrt x) (Zero False)" for x
    by (cases x) (auto simp: flt_def not_less isqrt_nonneg_sqrt_mag)
  then show ?thesis by (simp add: geo_distance_def Let_def)
qed

text \<open>A coordinate that is not a number makes the distance not a number.\<close>

lemma fadd_NaN [simp]: "fadd x NaN = NaN"
  by (cases x) auto

lemma fmul_NaN [simp]: "fmul x NaN = NaN"
  by (cases x) auto

lemma fsub_NaN [simp]: "fsub NaN y = NaN" "fsub x NaN = NaN"
  by (simp_all add: fsub_def)

lemma geo_distance_NaN:
  assumes "lat1 = NaN \<or> lon1 = NaN \<or> lat2 = NaN \<or> lon2 = NaN"
  shows "geo_distance C lat1 lon1 lat2 lon2 = NaN"
  using assms by (auto simp: geo_distance_def Let_def)

text \<open>The distance of a finite point to itself is zero when the cosine is finite.\<close>

definition fp_finite :: "fp \<Rightarrow> bool" where
  "fp_finite x \<longleftrightarrow> x \<noteq> NaN \<and> (\<forall>s. x \<noteq> Infty s)"

lemma fp_finite_cases: "fp_finite x \<longleftrightarrow> (\<exists>s. x = Zero s) \<or> (\<exists>q. x = Fin q)"
  by (cases x) (auto simp: fp_finite_def)

lemma fsub_self: "fp_finite x \<Longrightarrow> \<exists>s. fsub x x = Zero s"
  by (cases x) (auto simp: fsub_def fp_finite_def)

lemma geo_distance_self:
  assumes "fp_finite lat" and "fp_finite lon" and "\<And>a. fp_finite (C a)"
  shows "geo_distance C lat lon lat lon = Zero False"
proof -
  obtain s t where "fsub lat lat = Zero s" and "fsub lon lon = Zero t"
    using assms(1,2) fsub_self by blast
  moreover have "\<exists>u. fmul (Zero t) (C a) = Zero u" for a
    using assms(3) [of a] by (cases "C a") (auto simp: fp_finite_def)
  then obtain u where
    "fmul (Zero t) (C (fdiv (fmul (fdiv (fadd lat lat) (Fin 2)) M_PI) (Fin 180))) = Zero u"
    by blast
  ultimately show ?thesis by (simp add: geo_distance_def)
qed

section \<open>Regions\<close>

record region =
  min_lat :: fp
  max_lat :: fp
  min_lon :: fp
  max_lon :: fp

definition region_default :: region where
  "region_default = \<lparr>min_lat = Zero False, max_lat = Zero False,
                     min_lon = Zero False, max_lon = Zero False\<rparr>"

definition contains :: "region \<Rightarrow> fp \<Rightarrow> fp \<Rightarrow> bool" where
  "contains r lat lon \<longleftrightarrow>
     fge lat (min_lat r) \<and> fle lat (max_lat r) \<and> fge lon (min_lon r) \<and> fle lon (max_lon r)"

definition overlaps :: "region \<Rightarrow> region \<Rightarrow> bool" where
  "overlaps r r' \<longleftrightarrow>
     \<not> (flt (max_lat r) (min_lat r') \<or> fgt (min_lat r) (max_lat r') \<or>
        flt (max_lon r) (min_lon r') \<or> fgt (min_lon r) (max_lon r'))"

definition merge :: "region \<Rightarrow> region \<Rightarrow> region" where
  "merge a b =
     \<lparr>min_lat = fmin (min_lat a) (min_lat b), max_lat = fmax (max_lat a) (max_lat b),
      min_lon = fmin (min_lon a) (min_lon b), max_lon = fmax (max_lon a) (max_lon b)\<rparr>"

text \<open>The four quadrant centres, south-west, south-east, north-west, north-east.\<close>

definition fhalf :: "fp \<Rightarrow> fp \<Rightarrow> fp" where
  "fhalf a b = fdiv (fadd a b) (Fin 2)"

definition quadrant_centers :: "region \<Rightarrow> (fp \<times> fp) list" where
  "quadrant_centers r =
     (let mid_lat = fhalf (min_lat r) (max_lat r);
          mid_lon = fhalf (min_lon r) (max_lon r)
      in [(fhalf (min_lat r) mid_lat, fhalf (min_lon r) mid_lon),
          (fhalf (min_lat r) mid_lat, fhalf mid_lon (max_lon r)),
          (fhalf mid_lat (max_lat r), fhalf (min_lon r) mid_lon),
          (fhalf mid_lat (max_lat r), fhalf mid_lon (max_lon r))])"

definition quadrant_of :: "region \<Rightarrow> fp \<Rightarrow> fp \<Rightarrow> nat" where
  "quadrant_of r lat lon =
     (let mid_lat = fhalf (min_lat r) (max_lat r);
          mid_lon = fhalf (min_lon r) (max_lon r)
      in (if fge lat mid_lat then 2 else 0) + (if fge lon mid_lon then 1 else 0))"

lemma quadrant_of_bound: "quadrant_of r lat lon < 4"
  by (simp add: quadrant_of_def Let_def)

lemma length_quadrant_centers [simp]: "length (quadrant_centers r) = 4"
  by (simp add: quadrant_centers_def Let_def)

text \<open>A region none of whose bounds is not-a-number.\<close>

definition region_num :: "region \<Rightarrow> bool" where
  "region_num r \<longleftrightarrow> min_lat r \<noteq> NaN \<and> max_lat r \<noteq> NaN \<and> min_lon r \<noteq> NaN \<and> max_lon r \<noteq> NaN"

lemma contains_region_num: "contains r lat lon \<Longrightarrow> region_num r"
  by (auto simp: contains_def region_num_def)

lemma region_num_merge: "region_num a \<Longrightarrow> region_num (merge a b)"
  by (simp add: region_num_def merge_def fmin_not_NaN fmax_not_NaN)

lemma contains_merge_left: "contains a lat lon \<Longrightarrow> contains (merge a b) lat lon"
  using contains_region_num [of a lat lon]
  by (auto simp: contains_def merge_def region_num_def intro: fmin_fle fmax_fle fle_trans)

lemma contains_merge_right:
  "region_num a \<Longrightarrow> contains b lat lon \<Longrightarrow> contains (merge a b) lat lon"
  using contains_region_num [of b lat lon]
  by (auto simp: contains_def merge_def region_num_def
      intro: fmin_fle_right fmax_fle_right fle_trans)

text \<open>The merged region is the least one that contains both.\<close>

definition region_le :: "region \<Rightarrow> region \<Rightarrow> bool" where
  "region_le a b \<longleftrightarrow> fle (min_lat b) (min_lat a) \<and> fle (max_lat a) (max_lat b) \<and>
     fle (min_lon b) (min_lon a) \<and> fle (max_lon a) (max_lon b)"

lemma region_le_contains: "region_le a b \<Longrightarrow> contains a lat lon \<Longrightarrow> contains b lat lon"
  by (auto simp: region_le_def contains_def intro: fle_trans)

lemma region_le_refl: "region_le r r \<longleftrightarrow> region_num r"
  by (auto simp: region_le_def region_num_def)

lemma region_le_trans: "region_le a b \<Longrightarrow> region_le b c \<Longrightarrow> region_le a c"
  by (auto simp: region_le_def intro: fle_trans)

lemma merge_upper_left: "region_num a \<Longrightarrow> region_le a (merge a b)"
  by (simp add: region_le_def merge_def region_num_def fmin_fle fmax_fle)

lemma merge_upper_right: "region_num a \<Longrightarrow> region_num b \<Longrightarrow> region_le b (merge a b)"
  by (simp add: region_le_def merge_def region_num_def fmin_fle_right fmax_fle_right)

lemma merge_least: "region_le a c \<Longrightarrow> region_le b c \<Longrightarrow> region_le (merge a b) c"
  by (simp add: region_le_def merge_def fmin_def fmax_def)

lemma overlaps_sym: "overlaps a b = overlaps b a"
  by (auto simp: overlaps_def)

lemma contains_overlaps:
  assumes "contains a lat lon" and "contains b lat lon"
  shows "overlaps a b"
  using assms unfolding contains_def overlaps_def
  by (meson fle_flt_trans fle_trans flt_not_sym flt_irrefl)

section \<open>Printing\<close>

text \<open>
  \<^verbatim>\<open>std::to_string\<close> of a \<^verbatim>\<open>double\<close> is \<^verbatim>\<open>printf\<close>'s \<^verbatim>\<open>%f\<close>: six decimals, rounded to nearest even. How a
  not-a-number is written is the library's choice, the parameter \<open>nan\<close>.
\<close>

definition pad6 :: "string \<Rightarrow> string" where
  "pad6 s = replicate (6 - length s) CHR ''0'' @ s"

definition micros :: "rat \<Rightarrow> nat" where
  "micros q = nat (round_even (q * 10 ^ 6))"

definition fixed6 :: "rat \<Rightarrow> string" where
  "fixed6 q = show_nat (micros q div 10 ^ 6) @ ''.'' @ pad6 (show_nat (micros q mod 10 ^ 6))"

definition to_string :: "string \<Rightarrow> fp \<Rightarrow> string" where
  "to_string nan x = (if fsgn x then ''-'' else []) @
     (case x of NaN \<Rightarrow> nan | Infty s \<Rightarrow> ''inf'' | Zero s \<Rightarrow> ''0.000000'' | Fin q \<Rightarrow> fixed6 \<bar>q\<bar>)"

definition region_text :: "string \<Rightarrow> region \<Rightarrow> string" where
  "region_text nan r = ''['' @ to_string nan (min_lat r) @ '','' @ to_string nan (max_lat r) @
     '']x['' @ to_string nan (min_lon r) @ '','' @ to_string nan (max_lon r) @ '']''"

lemma pad6_length: "n < 10 ^ 6 \<Longrightarrow> length (pad6 (show_nat n)) = 6"
  using show_nat_length [of n 5] by (simp add: pad6_def)

lemma digits_val_zeros: "digits_val (replicate n CHR ''0'' @ s) = digits_val s"
  by (induction n) (simp_all add: digits_val_def)

text \<open>Six digits follow the point, and what is written is within half a millionth of the value.\<close>

lemma fixed6_value:
  assumes "0 \<le> q"
  obtains whole part where "fixed6 q = whole @ ''.'' @ part" and "length part = 6"
    and "\<bar>of_nat (digits_val whole) + of_nat (digits_val part) / 10 ^ 6 - q\<bar> \<le> 1 / (2 * 10 ^ 6)"
proof
  let ?n = "micros q"
  show "fixed6 q = show_nat (?n div 10 ^ 6) @ ''.'' @ pad6 (show_nat (?n mod 10 ^ 6))" by (simp add: fixed6_def)
  show "length (pad6 (show_nat (?n mod 10 ^ 6))) = 6" by (rule pad6_length) simp
  have val: "digits_val (pad6 (show_nat (?n mod 10 ^ 6))) = ?n mod 10 ^ 6"
    by (simp add: pad6_def digits_val_zeros digits_val_show_nat)
  have "(0::int) \<le> round_even (q * 10 ^ 6)" using round_even_mono [of 0 "q * 10 ^ 6"] round_even_of_int [of 0] assms by simp
  then have n: "(of_nat ?n :: rat) = of_int (round_even (q * 10 ^ 6))" by (simp add: micros_def)
  have "(of_nat ?n :: rat) = of_nat (?n div 10 ^ 6) * of_nat (10 ^ 6) + of_nat (?n mod 10 ^ 6)"
    by (simp only: of_nat_mult [symmetric] of_nat_add [symmetric] div_mult_mod_eq)
  then have sum: "(of_nat ?n :: rat) / 10 ^ 6 = of_nat (?n div 10 ^ 6) + of_nat (?n mod 10 ^ 6) / 10 ^ 6"
    by (simp add: add_divide_distrib)
  have "\<bar>of_nat ?n / 10 ^ 6 - q\<bar> = \<bar>of_int (round_even (q * 10 ^ 6)) - q * 10 ^ 6\<bar> / (10 ^ 6 :: rat)"
    unfolding n by (simp add: abs_if field_simps)
  also have "\<dots> \<le> 1 / 2 / 10 ^ 6" by (rule divide_right_mono [OF round_even_nearest]) simp
  finally show "\<bar>of_nat (digits_val (show_nat (?n div 10 ^ 6))) +
      of_nat (digits_val (pad6 (show_nat (?n mod 10 ^ 6)))) / 10 ^ 6 - q\<bar> \<le> 1 / (2 * 10 ^ 6)"
    unfolding val digits_val_show_nat sum by simp
qed

end
