(* ===== verification/TlvMessage.thy ===== *)
theory TlvMessage
  imports Geo
begin

text \<open>
  The wire format and its parser: \<^verbatim>\<open>src/protocol/TlvMessage.h\<close> and the \<^verbatim>\<open>TlvMessage\<close> half of
  \<^verbatim>\<open>src/protocol/TlvMessage.cpp\<close>. A datagram is a byte list; the parser keeps it together with
  the header fields, as the class does. The \<^verbatim>\<open>_chk\<close> functions are the same code with every
  memory access checked against the buffer, \<open>None\<close> standing for an access out of bounds.
\<close>

section \<open>Message and field types\<close>

text \<open>\<^verbatim>\<open>enum class MsgType : uint16_t\<close>: the cast of a received number may name no enumerator.\<close>

datatype msg_type = SUBSCRIBE | PUBLISH | HEARTBEAT | HELLO | HELLO_ACK | REGION_UPDATE
  | BROKER_FORWARD | STATS_REQUEST | STATS_RESPONSE | MsgOther u16

fun msg_code :: "msg_type \<Rightarrow> u16" where
  "msg_code SUBSCRIBE = 1"
| "msg_code PUBLISH = 2"
| "msg_code HEARTBEAT = 3"
| "msg_code HELLO = 4"
| "msg_code HELLO_ACK = 5"
| "msg_code REGION_UPDATE = 6"
| "msg_code BROKER_FORWARD = 7"
| "msg_code STATS_REQUEST = 8"
| "msg_code STATS_RESPONSE = 9"
| "msg_code (MsgOther w) = w"

definition msg_cast :: "u16 \<Rightarrow> msg_type" where
  "msg_cast w =
     (if w = 1 then SUBSCRIBE else if w = 2 then PUBLISH else if w = 3 then HEARTBEAT
      else if w = 4 then HELLO else if w = 5 then HELLO_ACK else if w = 6 then REGION_UPDATE
      else if w = 7 then BROKER_FORWARD else if w = 8 then STATS_REQUEST
      else if w = 9 then STATS_RESPONSE else MsgOther w)"

lemma msg_code_cast [simp]: "msg_code (msg_cast w) = w"
  by (simp add: msg_cast_def)

text \<open>The enumerators proper: what a program that names its message types uses.\<close>

fun named_msg :: "msg_type \<Rightarrow> bool" where
  "named_msg (MsgOther w) = False"
| "named_msg t = True"

lemma msg_cast_code [simp]: "named_msg t \<Longrightarrow> msg_cast (msg_code t) = t"
  by (cases t) (simp_all add: msg_cast_def)

datatype tlv_type = COORDINATES | FLAGS | SERVICE_NAME | BRAKE_LIMIT | REGION | STATS_DATA
  | STATS_DATA_EXT | BLINDED_VALUE | BLINDED_VALUE_HI | BLINDED_COVER

fun tlv_code :: "tlv_type \<Rightarrow> u16" where
  "tlv_code COORDINATES = 0x0001"
| "tlv_code FLAGS = 0x0002"
| "tlv_code SERVICE_NAME = 0x0003"
| "tlv_code BRAKE_LIMIT = 0x0004"
| "tlv_code REGION = 0x0005"
| "tlv_code STATS_DATA = 0x0006"
| "tlv_code STATS_DATA_EXT = 0x0007"
| "tlv_code BLINDED_VALUE = 0x0010"
| "tlv_code BLINDED_VALUE_HI = 0x0011"
| "tlv_code BLINDED_COVER = 0x0012"

lemma tlv_code_inj [simp]: "tlv_code a = tlv_code b \<longleftrightarrow> a = b"
  by (cases a; cases b) simp_all

definition QUERY_MODE :: u32 where "QUERY_MODE = 1"
definition FROM_CHILD :: u32 where "FROM_CHILD = 2"
definition FROM_PARENT :: u32 where "FROM_PARENT = 4"

section \<open>The parser\<close>

record tlv_msg =
  data :: "byte list"
  valid :: bool
  msg_type :: msg_type
  num_tlvs :: u16
  payload_len :: u32
  payload_offset :: nat

text \<open>
  The validation loop of the constructor: \<open>k\<close> iterations left, the cursor, and the cursor after
  the last field, or \<open>None\<close> at the two early returns. Offsets are \<open>size_t\<close>; a datagram has at
  most 65535 bytes, so the sums stay far below the wrap-around and are kept as \<open>nat\<close>.
\<close>

fun tlv_scan :: "byte list \<Rightarrow> nat \<Rightarrow> nat \<Rightarrow> nat option" where
  "tlv_scan d 0 cursor = Some cursor"
| "tlv_scan d (Suc k) cursor =
     (if cursor + 4 > length d then None
      else let tlv_len = get16 (sub_list (cursor + 2) 2 d);
               cursor' = cursor + (4 + unat tlv_len)
           in if cursor' > length d then None else tlv_scan d k cursor')"

definition tlv_message :: "byte list \<Rightarrow> tlv_msg" where
  "tlv_message d =
     (let m0 = \<lparr>data = d, valid = False, msg_type = SUBSCRIBE, num_tlvs = 0,
                payload_len = 0, payload_offset = 0\<rparr>
      in if length d < 8 then m0
         else let m1 = m0\<lparr>msg_type := msg_cast (get16 (sub_list 0 2 d)),
                          num_tlvs := get16 (sub_list 2 2 d),
                          payload_len := get32 (sub_list 4 4 d)\<rparr>
              in case tlv_scan d (unat (num_tlvs m1)) 8 of
                   None \<Rightarrow> m1
                 | Some cursor \<Rightarrow>
                     let m2 = m1\<lparr>payload_offset := cursor\<rparr>
                     in if payload_offset m2 + unat (payload_len m2) > length d then m2
                        else m2\<lparr>valid := True\<rparr>)"

text \<open>
  \<^verbatim>\<open>findTlv\<close>: the first field of the given type, as the offset of its value (the pointer
  \<^verbatim>\<open>data_ + cursor + 4\<close>) and its length.
\<close>

fun find_from :: "byte list \<Rightarrow> u16 \<Rightarrow> nat \<Rightarrow> nat \<Rightarrow> (nat \<times> u16) option" where
  "find_from d t 0 cursor = None"
| "find_from d t (Suc k) cursor =
     (let ty = get16 (sub_list cursor 2 d);
          tlv_len = get16 (sub_list (cursor + 2) 2 d)
      in if ty = t then Some (cursor + 4, tlv_len)
         else find_from d t k (cursor + (4 + unat tlv_len)))"

definition find_tlv :: "tlv_msg \<Rightarrow> tlv_type \<Rightarrow> (nat \<times> u16) option" where
  "find_tlv m t =
     (if \<not> valid m then None
      else find_from (data m) (tlv_code t) (unat (num_tlvs m)) 8)"

section \<open>The getters\<close>

text \<open>Floating-point fields stay the 32-bit patterns the wire carries.\<close>

definition get_coordinates :: "tlv_msg \<Rightarrow> (f32 \<times> f32) option" where
  "get_coordinates m =
     (case find_tlv m COORDINATES of None \<Rightarrow> None
      | Some (v, len) \<Rightarrow>
          if len < 8 then None
          else Some (get32 (sub_list v 4 (data m)), get32 (sub_list (v + 4) 4 (data m))))"

definition get_flags :: "tlv_msg \<Rightarrow> u32 option" where
  "get_flags m =
     (case find_tlv m FLAGS of None \<Rightarrow> None
      | Some (v, len) \<Rightarrow> if len < 4 then None else Some (get32 (sub_list v 4 (data m))))"

definition get_string :: "tlv_type \<Rightarrow> tlv_msg \<Rightarrow> string option" where
  "get_string t m =
     (case find_tlv m t of None \<Rightarrow> None
      | Some (v, len) \<Rightarrow> Some (string_of (sub_list v (unat len) (data m))))"

definition get_service_name :: "tlv_msg \<Rightarrow> string option" where
  "get_service_name = get_string SERVICE_NAME"

definition get_blinded_value :: "tlv_msg \<Rightarrow> string option" where
  "get_blinded_value = get_string BLINDED_VALUE"

definition get_blinded_value_hi :: "tlv_msg \<Rightarrow> string option" where
  "get_blinded_value_hi = get_string BLINDED_VALUE_HI"

definition get_brake_limit :: "tlv_msg \<Rightarrow> int option" where
  "get_brake_limit m =
     (case find_tlv m BRAKE_LIMIT of None \<Rightarrow> None
      | Some (v, len) \<Rightarrow>
          if len < 4 then None else Some (sint (get32 (sub_list v 4 (data m)))))"

text \<open>The four floats of a region, in wire order, widened into the \<^verbatim>\<open>double\<close> bounds.\<close>

definition get_region :: "tlv_msg \<Rightarrow> region option" where
  "get_region m =
     (case find_tlv m REGION of None \<Rightarrow> None
      | Some (v, len) \<Rightarrow>
          if len < 16 then None
          else Some \<lparr>min_lat = widen (get32 (sub_list v 4 (data m))),
                     max_lat = widen (get32 (sub_list (v + 4) 4 (data m))),
                     min_lon = widen (get32 (sub_list (v + 8) 4 (data m))),
                     max_lon = widen (get32 (sub_list (v + 12) 4 (data m)))\<rparr>)"

text \<open>
  \<^verbatim>\<open>getPayload\<close> is a pointer to \<^verbatim>\<open>getPayloadSize\<close> bytes: \<open>None\<close> is \<^verbatim>\<open>nullptr\<close>.
  \<^verbatim>\<open>getPayloadSize\<close> does not look at validity.
\<close>

definition get_payload_size :: "tlv_msg \<Rightarrow> nat" where
  "get_payload_size m = unat (payload_len m)"

definition get_payload :: "tlv_msg \<Rightarrow> byte list option" where
  "get_payload m =
     (if \<not> valid m \<or> payload_len m = 0 then None
      else Some (sub_list (payload_offset m) (get_payload_size m) (data m)))"

section \<open>The same code with checked memory accesses\<close>

definition read_chk :: "byte list \<Rightarrow> nat \<Rightarrow> nat \<Rightarrow> byte list option" where
  "read_chk d off n = (if off + n \<le> length d then Some (sub_list off n d) else None)"

fun tlv_scan_chk :: "byte list \<Rightarrow> nat \<Rightarrow> nat \<Rightarrow> nat option option" where
  "tlv_scan_chk d 0 cursor = Some (Some cursor)"
| "tlv_scan_chk d (Suc k) cursor =
     (if cursor + 4 > length d then Some None
      else case read_chk d (cursor + 2) 2 of None \<Rightarrow> None
           | Some bs \<Rightarrow>
               let cursor' = cursor + (4 + unat (get16 bs))
               in if cursor' > length d then Some None else tlv_scan_chk d k cursor')"

fun find_from_chk :: "byte list \<Rightarrow> u16 \<Rightarrow> nat \<Rightarrow> nat \<Rightarrow> (nat \<times> u16) option option" where
  "find_from_chk d t 0 cursor = Some None"
| "find_from_chk d t (Suc k) cursor =
     (case (read_chk d cursor 2, read_chk d (cursor + 2) 2) of
        (Some tb, Some lb) \<Rightarrow>
          if get16 tb = t then Some (Some (cursor + 4, get16 lb))
          else find_from_chk d t k (cursor + (4 + unat (get16 lb)))
      | _ \<Rightarrow> None)"

text \<open>The value of the first field of a type, read through its pointer and length.\<close>

definition find_value_chk :: "tlv_msg \<Rightarrow> tlv_type \<Rightarrow> byte list option option" where
  "find_value_chk m t =
     (if \<not> valid m then Some None
      else case find_from_chk (data m) (tlv_code t) (unat (num_tlvs m)) 8 of
             None \<Rightarrow> None
           | Some None \<Rightarrow> Some None
           | Some (Some (v, len)) \<Rightarrow> map_option Some (read_chk (data m) v (unat len)))"

definition get_payload_chk :: "tlv_msg \<Rightarrow> byte list option option" where
  "get_payload_chk m =
     (if \<not> valid m \<or> payload_len m = 0 then Some None
      else map_option Some (read_chk (data m) (payload_offset m) (get_payload_size m)))"

section \<open>What the parser guarantees\<close>

lemma tlv_scan_chk: "tlv_scan_chk d k cursor = Some (tlv_scan d k cursor)"
  by (induction d k cursor rule: tlv_scan.induct) (auto simp: read_chk_def Let_def)

lemma tlv_scan_bounds:
  "tlv_scan d k cursor = Some c \<Longrightarrow> cursor \<le> length d \<Longrightarrow> cursor \<le> c \<and> c \<le> length d"
proof (induction k arbitrary: cursor)
  case 0
  then show ?case by simp
next
  case (Suc k)
  from Suc.prems show ?case
    by (auto simp: Let_def split: if_splits dest: Suc.IH)
qed

text \<open>Once the scan has accepted the fields, the search stays inside them.\<close>

lemma find_from_chk:
  assumes "tlv_scan d k cursor = Some c"
  shows "find_from_chk d t k cursor = Some (find_from d t k cursor)"
  using assms
  by (induction d t k cursor rule: find_from.induct)
     (auto simp: read_chk_def Let_def split: if_splits)

lemma find_from_bounds:
  assumes "tlv_scan d k cursor = Some c" and "find_from d t k cursor = Some (v, len)"
  shows "v + unat len \<le> length d"
  using assms
  by (induction d t k cursor rule: find_from.induct) (auto simp: Let_def split: if_splits)

lemma data_tlv_message [simp]: "data (tlv_message d) = d"
  by (simp add: tlv_message_def Let_def split: option.split)

text \<open>The message a valid object was parsed from.\<close>

lemma tlv_message_valid:
  "valid (tlv_message d) \<longleftrightarrow>
     8 \<le> length d \<and>
     (\<exists>c. tlv_scan d (unat (get16 (sub_list 2 2 d))) 8 = Some c \<and>
          c + unat (get32 (sub_list 4 4 d)) \<le> length d)"
  by (auto simp: tlv_message_def Let_def not_less split: option.splits)

lemma tlv_message_header:
  assumes "8 \<le> length d"
  shows "msg_type (tlv_message d) = msg_cast (get16 (sub_list 0 2 d))"
    and "num_tlvs (tlv_message d) = get16 (sub_list 2 2 d)"
    and "payload_len (tlv_message d) = get32 (sub_list 4 4 d)"
  using assms by (simp_all add: tlv_message_def Let_def split: option.splits)

lemma tlv_message_offset:
  assumes "8 \<le> length d" and "tlv_scan d (unat (get16 (sub_list 2 2 d))) 8 = Some c"
  shows "payload_offset (tlv_message d) = c"
  using assms by (simp add: tlv_message_def Let_def)

section \<open>The fields of a message\<close>

text \<open>
  The abstract view of a parsed message: the list of its fields, type code and value bytes.
  A lookup is a lookup in that list.
\<close>

fun scan_fields :: "byte list \<Rightarrow> nat \<Rightarrow> nat \<Rightarrow> (u16 \<times> byte list) list" where
  "scan_fields d 0 cursor = []"
| "scan_fields d (Suc k) cursor =
     (let tlv_len = unat (get16 (sub_list (cursor + 2) 2 d))
      in (get16 (sub_list cursor 2 d), sub_list (cursor + 4) tlv_len d)
           # scan_fields d k (cursor + (4 + tlv_len)))"

definition msg_fields :: "tlv_msg \<Rightarrow> (u16 \<times> byte list) list" where
  "msg_fields m = (if valid m then scan_fields (data m) (unat (num_tlvs m)) 8 else [])"

definition field_value :: "tlv_msg \<Rightarrow> tlv_type \<Rightarrow> byte list option" where
  "field_value m t = map_of (msg_fields m) (tlv_code t)"

lemma find_from_fields:
  "map_option (\<lambda>(v, len). sub_list v (unat len) d) (find_from d t k cursor)
    = map_of (scan_fields d k cursor) t"
  by (induction d t k cursor rule: find_from.induct) (auto simp: Let_def)

lemma find_tlv_value:
  "map_option (\<lambda>(v, len). sub_list v (unat len) (data m)) (find_tlv m t) = field_value m t"
  by (simp add: find_tlv_def field_value_def msg_fields_def find_from_fields)

text \<open>What a lookup that finds a field knows about its position.\<close>

lemma find_tlv_bounds:
  assumes "find_tlv (tlv_message d) t = Some (v, len)"
  shows "v + unat len \<le> length d"
proof -
  have valid: "valid (tlv_message d)" using assms by (auto simp: find_tlv_def split: if_splits)
  then obtain c where len: "8 \<le> length d"
    and scan: "tlv_scan d (unat (get16 (sub_list 2 2 d))) 8 = Some c"
    by (auto simp: tlv_message_valid)
  show ?thesis
    using assms valid find_from_bounds [OF scan]
    by (simp add: find_tlv_def tlv_message_header [OF len])
qed

lemma find_tlv_cases:
  obtains (none) "find_tlv (tlv_message d) t = None" "field_value (tlv_message d) t = None"
  | (some) v len bs where "find_tlv (tlv_message d) t = Some (v, len)"
      "field_value (tlv_message d) t = Some bs" "bs = sub_list v (unat len) d"
      "length bs = unat len" "v + unat len \<le> length d"
proof (cases "find_tlv (tlv_message d) t")
  case None
  then show ?thesis using none find_tlv_value [of "tlv_message d" t] by simp
next
  case (Some p)
  obtain v len where p: "p = (v, len)" by (cases p)
  show ?thesis
    using some Some p find_tlv_value [of "tlv_message d" t] find_tlv_bounds [of d t v len] by simp
qed

text \<open>Reading inside a field is reading inside its value.\<close>

lemma sub_list_nested: "a + n \<le> m \<Longrightarrow> sub_list (v + a) n d = sub_list a n (sub_list v m d)"
  by (simp add: sub_list_def take_drop drop_drop add.commute min_def)

lemma get_coordinates_value:
  "get_coordinates (tlv_message d) =
     (case field_value (tlv_message d) COORDINATES of None \<Rightarrow> None
      | Some bs \<Rightarrow> if length bs < 8 then None
                    else Some (get32 (sub_list 0 4 bs), get32 (sub_list 4 4 bs)))"
proof (cases rule: find_tlv_cases [of d COORDINATES])
  case none
  then show ?thesis by (simp add: get_coordinates_def)
next
  case (some v len bs)
  have "len < 8 \<longleftrightarrow> length bs < 8" using some(4) by (simp add: word_less_nat_alt)
  then show ?thesis
    using some(1,2,3,5) sub_list_nested [of 0 4 "unat len" v d] sub_list_nested [of 4 4 "unat len" v d]
    by (auto simp: get_coordinates_def not_less)
qed

lemma get_flags_value:
  "get_flags (tlv_message d) =
     (case field_value (tlv_message d) FLAGS of None \<Rightarrow> None
      | Some bs \<Rightarrow> if length bs < 4 then None else Some (get32 (sub_list 0 4 bs)))"
proof (cases rule: find_tlv_cases [of d FLAGS])
  case none
  then show ?thesis by (simp add: get_flags_def)
next
  case (some v len bs)
  have "len < 4 \<longleftrightarrow> length bs < 4" using some(4) by (simp add: word_less_nat_alt)
  then show ?thesis
    using some(1,2,3,5) sub_list_nested [of 0 4 "unat len" v d] by (auto simp: get_flags_def not_less)
qed

lemma get_string_value:
  "get_string t (tlv_message d) = map_option string_of (field_value (tlv_message d) t)"
  by (cases rule: find_tlv_cases [of d t]) (simp_all add: get_string_def)

lemma get_brake_limit_value:
  "get_brake_limit (tlv_message d) =
     (case field_value (tlv_message d) BRAKE_LIMIT of None \<Rightarrow> None
      | Some bs \<Rightarrow> if length bs < 4 then None else Some (sint (get32 (sub_list 0 4 bs))))"
proof (cases rule: find_tlv_cases [of d BRAKE_LIMIT])
  case none
  then show ?thesis by (simp add: get_brake_limit_def)
next
  case (some v len bs)
  have "len < 4 \<longleftrightarrow> length bs < 4" using some(4) by (simp add: word_less_nat_alt)
  then show ?thesis
    using some(1,2,3,5) sub_list_nested [of 0 4 "unat len" v d]
    by (auto simp: get_brake_limit_def not_less)
qed

lemma get_region_value:
  "get_region (tlv_message d) =
     (case field_value (tlv_message d) REGION of None \<Rightarrow> None
      | Some bs \<Rightarrow> if length bs < 16 then None
          else Some \<lparr>min_lat = widen (get32 (sub_list 0 4 bs)), max_lat = widen (get32 (sub_list 4 4 bs)),
                     min_lon = widen (get32 (sub_list 8 4 bs)),
                     max_lon = widen (get32 (sub_list 12 4 bs))\<rparr>)"
proof (cases rule: find_tlv_cases [of d REGION])
  case none
  then show ?thesis by (simp add: get_region_def)
next
  case (some v len bs)
  have "len < 16 \<longleftrightarrow> length bs < 16" using some(4) by (simp add: word_less_nat_alt)
  then show ?thesis
    using some(1,2,3,5) sub_list_nested [of 0 4 "unat len" v d] sub_list_nested [of 4 4 "unat len" v d]
      sub_list_nested [of 8 4 "unat len" v d] sub_list_nested [of 12 4 "unat len" v d]
    by (auto simp: get_region_def not_less)
qed

lemmas getter_values =
  get_coordinates_value get_flags_value get_string_value get_brake_limit_value get_region_value
  get_service_name_def get_blinded_value_def get_blinded_value_hi_def

text \<open>
  Memory safety of the parser: on every input the checked run of the validation loop, of a
  field lookup with a read of the whole value, and of the payload read never leaves the
  buffer, and gives what the unchecked code gives.
\<close>

lemma find_value_chk:
  "find_value_chk (tlv_message d) t = Some (field_value (tlv_message d) t)"
proof (cases "valid (tlv_message d)")
  case False
  then show ?thesis by (simp add: find_value_chk_def field_value_def msg_fields_def)
next
  case True
  then obtain c where len: "8 \<le> length d"
    and scan: "tlv_scan d (unat (get16 (sub_list 2 2 d))) 8 = Some c"
    by (auto simp: tlv_message_valid)
  let ?n = "unat (get16 (sub_list 2 2 d))"
  have find: "find_tlv (tlv_message d) t = find_from d (tlv_code t) ?n 8"
    using True by (simp add: find_tlv_def tlv_message_header [OF len])
  have "find_value_chk (tlv_message d) t =
      (case find_from d (tlv_code t) ?n 8 of None \<Rightarrow> Some None
       | Some (v, len) \<Rightarrow> map_option Some (read_chk d v (unat len)))"
    using True
    by (simp add: find_value_chk_def tlv_message_header [OF len] find_from_chk [OF scan]
        split: option.split)
  then show ?thesis
    unfolding find [symmetric]
    by (cases rule: find_tlv_cases [of d t]) (simp_all add: read_chk_def)
qed

lemma get_payload_chk:
  "get_payload_chk (tlv_message d) = Some (get_payload (tlv_message d))"
proof (cases "valid (tlv_message d)")
  case False
  then show ?thesis by (simp add: get_payload_chk_def get_payload_def)
next
  case True
  then obtain c where len: "8 \<le> length d"
    and scan: "tlv_scan d (unat (get16 (sub_list 2 2 d))) 8 = Some c"
    and fits: "c + unat (get32 (sub_list 4 4 d)) \<le> length d"
    by (auto simp: tlv_message_valid)
  have "read_chk d c (get_payload_size (tlv_message d))
      = Some (sub_list c (get_payload_size (tlv_message d)) d)"
    using fits by (simp add: read_chk_def get_payload_size_def tlv_message_header [OF len])
  then show ?thesis
    by (simp add: get_payload_chk_def get_payload_def tlv_message_offset [OF len scan])
qed

end
