(* ===== verification/TlvBuilder.thy ===== *)
theory TlvBuilder
  imports TlvMessage
begin

text \<open>
  The \<^verbatim>\<open>TlvMessageBuilder\<close> half of \<^verbatim>\<open>src/protocol/TlvMessage.cpp\<close>, and the contract between the
  builder and the parser: what is built is parsed back, field by field, and no proper prefix
  of a built packet is accepted. The locale \<^verbatim>\<open>wire_codec\<close> states the contract; the clients of
  the wire format (the broker's forwarding, the test client) use its lemmas.
\<close>

section \<open>The builder\<close>

record tlv_builder =
  b_type :: msg_type
  tlv_bytes :: "byte list"
  b_payload :: "byte list"

definition builder :: "msg_type \<Rightarrow> tlv_builder" where
  "builder t = \<lparr>b_type = t, tlv_bytes = [], b_payload = []\<rparr>"

text \<open>The caller passes a pointer to at least \<open>len\<close> bytes; the first \<open>len\<close> are copied.\<close>

definition add_tlv :: "tlv_type \<Rightarrow> byte list \<Rightarrow> u16 \<Rightarrow> tlv_builder \<Rightarrow> tlv_builder" where
  "add_tlv t d len b =
     b\<lparr>tlv_bytes := tlv_bytes b @ put16 (tlv_code t) @ put16 len @ take (unat len) d\<rparr>"

definition add_coordinates :: "f32 \<Rightarrow> f32 \<Rightarrow> tlv_builder \<Rightarrow> tlv_builder" where
  "add_coordinates lat lon = add_tlv COORDINATES (put32 lat @ put32 lon) 8"

definition add_flags :: "u32 \<Rightarrow> tlv_builder \<Rightarrow> tlv_builder" where
  "add_flags flags = add_tlv FLAGS (put32 flags) 4"

text \<open>\<^verbatim>\<open>static_cast<uint16_t>(name.size())\<close>: the length wraps, and only that many bytes follow.\<close>

definition add_string :: "tlv_type \<Rightarrow> string \<Rightarrow> tlv_builder \<Rightarrow> tlv_builder" where
  "add_string t s = add_tlv t (bytes_of s) (word_of_nat (length s))"

definition add_service_name :: "string \<Rightarrow> tlv_builder \<Rightarrow> tlv_builder" where
  "add_service_name = add_string SERVICE_NAME"

definition add_blinded_value :: "string \<Rightarrow> tlv_builder \<Rightarrow> tlv_builder" where
  "add_blinded_value = add_string BLINDED_VALUE"

definition add_blinded_value_hi :: "string \<Rightarrow> tlv_builder \<Rightarrow> tlv_builder" where
  "add_blinded_value_hi = add_string BLINDED_VALUE_HI"

definition add_brake_limit :: "int \<Rightarrow> tlv_builder \<Rightarrow> tlv_builder" where
  "add_brake_limit limit = add_tlv BRAKE_LIMIT (put32 (word_of_int limit)) 4"

definition add_region :: "region \<Rightarrow> tlv_builder \<Rightarrow> tlv_builder" where
  "add_region r =
     add_tlv REGION (put32 (narrow (min_lat r)) @ put32 (narrow (max_lat r)) @
                     put32 (narrow (min_lon r)) @ put32 (narrow (max_lon r))) 16"

definition set_payload :: "byte list \<Rightarrow> tlv_builder \<Rightarrow> tlv_builder" where
  "set_payload d b = b\<lparr>b_payload := d\<rparr>"

text \<open>The counting loop of \<^verbatim>\<open>build\<close>: the count is a \<^verbatim>\<open>uint16_t\<close>.\<close>

function count_tlvs :: "byte list \<Rightarrow> nat \<Rightarrow> u16 \<Rightarrow> u16" where
  "count_tlvs bs cursor count =
     (if cursor < length bs
      then count_tlvs bs (cursor + (4 + unat (get16 (sub_list (cursor + 2) 2 bs)))) (count + 1)
      else count)"
  by pat_completeness auto
termination
  by (relation "measure (\<lambda>(bs, cursor, count). length bs - cursor)") auto

declare count_tlvs.simps [simp del]

definition build :: "tlv_builder \<Rightarrow> byte list" where
  "build b =
     put16 (msg_code (b_type b)) @ put16 (count_tlvs (tlv_bytes b) 0 0) @
     put32 (word_of_nat (length (b_payload b))) @ tlv_bytes b @ b_payload b"

text \<open>The second \<^verbatim>\<open>build\<close>: the number of bytes written, zero when the buffer is too small, and
  the buffer's contents.\<close>

definition build_into :: "byte list \<Rightarrow> tlv_builder \<Rightarrow> nat \<times> byte list" where
  "build_into buffer b =
     (let vec = build b
      in if length vec > length buffer then (0, buffer)
         else (length vec, vec @ drop (length vec) buffer))"

section \<open>The fields a builder holds\<close>

definition enc_field :: "u16 \<times> byte list \<Rightarrow> byte list" where
  "enc_field f = put16 (fst f) @ put16 (word_of_nat (length (snd f))) @ snd f"

definition enc_fields :: "(u16 \<times> byte list) list \<Rightarrow> byte list" where
  "enc_fields fs = concat (map enc_field fs)"

definition fields_ok :: "(u16 \<times> byte list) list \<Rightarrow> bool" where
  "fields_ok fs \<longleftrightarrow> (\<forall>f \<in> set fs. length (snd f) < 2 ^ 16)"

lemma length_enc_field [simp]: "length (enc_field f) = 4 + length (snd f)"
  by (simp add: enc_field_def)

lemma enc_fields_simps [simp]:
  "enc_fields [] = []" "enc_fields (f # fs) = enc_field f @ enc_fields fs"
  "enc_fields (fs @ gs) = enc_fields fs @ enc_fields gs"
  by (simp_all add: enc_fields_def)

lemma fields_ok_simps [simp]:
  "fields_ok []" "fields_ok (f # fs) \<longleftrightarrow> length (snd f) < 2 ^ 16 \<and> fields_ok fs"
  "fields_ok (fs @ gs) \<longleftrightarrow> fields_ok fs \<and> fields_ok gs"
  by (auto simp: fields_ok_def)

text \<open>A builder represents a list of fields.\<close>

definition holds :: "tlv_builder \<Rightarrow> (u16 \<times> byte list) list \<Rightarrow> bool" where
  "holds b fs \<longleftrightarrow> fields_ok fs \<and> tlv_bytes b = enc_fields fs"

lemma holds_builder [simp]: "holds (builder t) []"
  by (simp add: holds_def builder_def)

lemma holds_add_tlv:
  assumes "holds b fs" and "unat len \<le> length d"
  shows "holds (add_tlv t d len b) (fs @ [(tlv_code t, take (unat len) d)])"
  using assms unat_bound [of len]
  by (simp add: holds_def add_tlv_def enc_field_def min_absorb2)

lemma holds_set_payload [simp]: "holds (set_payload d b) fs = holds b fs"
  by (simp add: holds_def set_payload_def)

text \<open>The value a string becomes on the wire: cut at the wrapped length.\<close>

definition wire_string :: "string \<Rightarrow> string" where
  "wire_string s = take (length s mod 2 ^ 16) s"

lemma wire_string_short [simp]: "length s < 2 ^ 16 \<Longrightarrow> wire_string s = s"
  by (simp add: wire_string_def)

lemma holds_add_string:
  assumes "holds b fs"
  shows "holds (add_string t s b) (fs @ [(tlv_code t, bytes_of (wire_string s))])"
proof -
  have "unat (word_of_nat (length s) :: u16) = length s mod 2 ^ 16" by (simp add: unat_of_nat)
  then show ?thesis
    using holds_add_tlv [OF assms, of "word_of_nat (length s)" "bytes_of s" t]
    by (simp add: add_string_def wire_string_def bytes_of_take mod_less_eq_dividend)
qed

lemma holds_add_coordinates:
  "holds b fs \<Longrightarrow> holds (add_coordinates lat lon b) (fs @ [(tlv_code COORDINATES, put32 lat @ put32 lon)])"
  using holds_add_tlv [of b fs 8 "put32 lat @ put32 lon" COORDINATES]
  by (simp add: add_coordinates_def)

lemma holds_add_flags:
  "holds b fs \<Longrightarrow> holds (add_flags flags b) (fs @ [(tlv_code FLAGS, put32 flags)])"
  using holds_add_tlv [of b fs 4 "put32 flags" FLAGS] by (simp add: add_flags_def)

lemma holds_add_brake_limit:
  "holds b fs \<Longrightarrow>
   holds (add_brake_limit limit b) (fs @ [(tlv_code BRAKE_LIMIT, put32 (word_of_int limit))])"
  using holds_add_tlv [of b fs 4 "put32 (word_of_int limit)" BRAKE_LIMIT]
  by (simp add: add_brake_limit_def)

definition region_bytes :: "region \<Rightarrow> byte list" where
  "region_bytes r = put32 (narrow (min_lat r)) @ put32 (narrow (max_lat r)) @
                    put32 (narrow (min_lon r)) @ put32 (narrow (max_lon r))"

lemma holds_add_region:
  "holds b fs \<Longrightarrow> holds (add_region r b) (fs @ [(tlv_code REGION, region_bytes r)])"
  using holds_add_tlv [of b fs 16 "region_bytes r" REGION]
  by (simp add: add_region_def region_bytes_def)

text \<open>The type and the payload are not touched by the fields.\<close>

lemma builder_frame [simp]:
  "b_type (builder t) = t" "b_payload (builder t) = []"
  "b_type (add_tlv ty d len b) = b_type b" "b_payload (add_tlv ty d len b) = b_payload b"
  "b_type (set_payload d b) = b_type b" "b_payload (set_payload d b) = d"
  by (simp_all add: builder_def add_tlv_def set_payload_def)

lemmas adders = add_coordinates_def add_flags_def add_string_def add_service_name_def
  add_blinded_value_def add_blinded_value_hi_def add_brake_limit_def add_region_def

section \<open>Scanning what was built\<close>

text \<open>The fields, found at any offset of a larger buffer.\<close>

lemma field_at:
  assumes "length pre = n" and "length (snd f) < 2 ^ 16"
  shows "get16 (sub_list n 2 (pre @ enc_field f @ rest)) = fst f"
    and "unat (get16 (sub_list (n + 2) 2 (pre @ enc_field f @ rest))) = length (snd f)"
    and "sub_list (n + 4) (length (snd f)) (pre @ enc_field f @ rest) = snd f"
proof -
  show "get16 (sub_list n 2 (pre @ enc_field f @ rest)) = fst f"
    using assms(1) by (simp add: sub_list_def enc_field_def)
  have "sub_list (n + 2) 2 (pre @ enc_field f @ rest) = put16 (word_of_nat (length (snd f)))"
    using assms(1) by (simp add: sub_list_def enc_field_def)
  then show "unat (get16 (sub_list (n + 2) 2 (pre @ enc_field f @ rest))) = length (snd f)"
    using assms(2) by (simp add: unat_of_nat)
  show "sub_list (n + 4) (length (snd f)) (pre @ enc_field f @ rest) = snd f"
    using assms(1) by (simp add: sub_list_def enc_field_def)
qed

lemma scan_enc_fields:
  assumes "fields_ok fs" and "length pre = n"
  shows "tlv_scan (pre @ enc_fields fs @ rest) (length fs) n = Some (n + length (enc_fields fs))"
    and "scan_fields (pre @ enc_fields fs @ rest) (length fs) n = fs"
  using assms
proof (induction fs arbitrary: pre n)
  case (Cons f fs)
  {
    case 1
    note at = field_at [of pre n f "enc_fields fs @ rest"]
    have "tlv_scan ((pre @ enc_field f) @ enc_fields fs @ rest) (length fs) (n + (4 + length (snd f)))
        = Some (n + (4 + length (snd f)) + length (enc_fields fs))"
      using 1 by (intro Cons.IH(1)) simp_all
    then show ?case using 1 at by (simp add: Let_def)
  next
    case 2
    note at = field_at [of pre n f "enc_fields fs @ rest"]
    have "scan_fields ((pre @ enc_field f) @ enc_fields fs @ rest) (length fs)
        (n + (4 + length (snd f))) = fs"
      using 2 by (intro Cons.IH(2)) simp_all
    then show ?case using 2 at by (cases f) (simp add: Let_def)
  }
qed simp_all

lemma count_enc_fields:
  assumes "fields_ok fs" and "length pre = n"
  shows "count_tlvs (pre @ enc_fields fs) n c = c + word_of_nat (length fs)"
  using assms
proof (induction fs arbitrary: pre n c)
  case Nil
  then show ?case by (simp add: count_tlvs.simps)
next
  case (Cons f fs)
  note at = field_at [of pre n f "enc_fields fs"]
  have "count_tlvs ((pre @ enc_field f) @ enc_fields fs) (n + (4 + length (snd f))) (c + 1)
      = c + 1 + word_of_nat (length fs)"
    using Cons.prems by (intro Cons.IH) simp_all
  then show ?case
    using Cons.prems at by (subst count_tlvs.simps) simp
qed

text \<open>The counting loop counts modulo 65536.\<close>

lemma count_holds: "holds b fs \<Longrightarrow> count_tlvs (tlv_bytes b) 0 0 = word_of_nat (length fs)"
  using count_enc_fields [of fs "[]" 0 0] by (simp add: holds_def)

lemma length_build:
  "length (build b) = 8 + length (tlv_bytes b) + length (b_payload b)"
  by (simp add: build_def)

lemma build_header:
  shows "sub_list 0 2 (build b) = put16 (msg_code (b_type b))"
    and "sub_list 2 2 (build b) = put16 (count_tlvs (tlv_bytes b) 0 0)"
    and "sub_list 4 4 (build b) = put32 (word_of_nat (length (b_payload b)))"
  by (simp_all add: build_def sub_list_def)

definition packet_ok :: "tlv_builder \<Rightarrow> (u16 \<times> byte list) list \<Rightarrow> bool" where
  "packet_ok b fs \<longleftrightarrow> holds b fs \<and> length fs < 2 ^ 16 \<and> length (b_payload b) < 2 ^ 32"

text \<open>The view of a packet that was built.\<close>

lemma parse_build:
  assumes "packet_ok b fs"
  shows "valid (tlv_message (build b))"
    and "msg_fields (tlv_message (build b)) = fs"
    and "payload_offset (tlv_message (build b)) = 8 + length (tlv_bytes b)"
    and "get_payload_size (tlv_message (build b)) = length (b_payload b)"
proof -
  let ?d = "build b" and ?hd = "put16 (msg_code (b_type b)) @ put16 (count_tlvs (tlv_bytes b) 0 0) @
     put32 (word_of_nat (length (b_payload b)))"
  have h: "holds b fs" and nf: "length fs < 2 ^ 16" and np: "length (b_payload b) < 2 ^ 32"
    using assms by (simp_all add: packet_ok_def)
  have d: "?d = ?hd @ enc_fields fs @ b_payload b" and len: "8 \<le> length ?d"
    using h by (simp_all add: build_def holds_def)
  have n: "unat (get16 (sub_list 2 2 ?d)) = length fs"
    using nf by (simp add: build_header count_holds [OF h] unat_of_nat)
  have p: "unat (get32 (sub_list 4 4 ?d)) = length (b_payload b)"
    using np by (simp add: build_header unat_of_nat)
  have scan: "tlv_scan ?d (length fs) 8 = Some (8 + length (enc_fields fs))"
    and flds: "scan_fields ?d (length fs) 8 = fs"
    using h scan_enc_fields [of fs ?hd 8 "b_payload b"] by (simp_all add: d holds_def)
  show v: "valid (tlv_message ?d)"
    using h scan n p len by (simp add: tlv_message_valid length_build holds_def)
  show "msg_fields (tlv_message ?d) = fs"
    using v flds n by (simp add: msg_fields_def tlv_message_header [OF len])
  show "payload_offset (tlv_message ?d) = 8 + length (tlv_bytes b)"
    using tlv_message_offset [OF len] scan n h by (simp add: holds_def)
  show "get_payload_size (tlv_message ?d) = length (b_payload b)"
    using p by (simp add: get_payload_size_def tlv_message_header [OF len])
qed

lemma parse_build_type:
  "msg_type (tlv_message (build b)) = msg_cast (msg_code (b_type b))"
  by (simp add: tlv_message_header length_build build_header)

lemma parse_build_payload:
  assumes "packet_ok b fs"
  shows "get_payload (tlv_message (build b)) = (if b_payload b = [] then None else Some (b_payload b))"
proof -
  have "payload_len (tlv_message (build b)) = 0 \<longleftrightarrow> get_payload_size (tlv_message (build b)) = 0"
    by (simp add: get_payload_size_def unat_eq_0)
  moreover have "sub_list (8 + length (tlv_bytes b)) (length (b_payload b)) (build b) = b_payload b"
    by (simp add: build_def sub_list_def)
  ultimately show ?thesis
    using parse_build [OF assms] by (simp add: get_payload_def)
qed

section \<open>Truncated datagrams\<close>

text \<open>Scanning a prefix gives the same cursor, or runs out of bytes.\<close>

lemma tlv_scan_take:
  "tlv_scan (take n d) k cursor = Some c \<Longrightarrow> tlv_scan d k cursor = Some c"
proof (induction k arbitrary: cursor)
  case 0
  then show ?case by simp
next
  case (Suc k)
  have "sub_list (cursor + 2) 2 (take n d) = sub_list (cursor + 2) 2 d" if "\<not> min (length d) n < cursor + 4"
    using that by (intro sub_list_take) simp
  with Suc show ?case by (auto simp: Let_def split: if_splits)
qed

text \<open>A packet accepted from a prefix announces no more bytes than the prefix has.\<close>

lemma valid_take:
  assumes "valid (tlv_message (take n d))"
  shows "payload_offset (tlv_message d) + get_payload_size (tlv_message d) \<le> n"
proof -
  let ?t = "take n d"
  from assms obtain c where len: "8 \<le> length ?t"
    and scan: "tlv_scan ?t (unat (get16 (sub_list 2 2 ?t))) 8 = Some c"
    and fits: "c + unat (get32 (sub_list 4 4 ?t)) \<le> length ?t"
    by (auto simp: tlv_message_valid)
  have "8 \<le> n" "8 \<le> length d" using len by simp_all
  then have hd: "sub_list 2 2 ?t = sub_list 2 2 d" "sub_list 4 4 ?t = sub_list 4 4 d"
    by (simp_all add: sub_list_take)
  have "payload_offset (tlv_message d) = c"
    using tlv_scan_take [OF scan] hd by (intro tlv_message_offset) (simp_all add: \<open>8 \<le> length d\<close>)
  then show ?thesis
    using fits hd \<open>8 \<le> length d\<close> by (simp add: get_payload_size_def tlv_message_header)
qed

lemma truncated_invalid:
  assumes "packet_ok b fs" and "n < length (build b)"
  shows "\<not> valid (tlv_message (take n (build b)))"
  using assms valid_take [of n "build b"] parse_build [OF assms(1)]
  by (auto simp: length_build)

section \<open>The contract of the wire format\<close>

locale wire_codec =
  fixes encode :: "'b \<Rightarrow> byte list"
    and decode :: "byte list \<Rightarrow> 'm"
    and ok :: "'b \<Rightarrow> (u16 \<times> byte list) list \<Rightarrow> bool"
    and accepted :: "'m \<Rightarrow> bool"
    and fields :: "'m \<Rightarrow> (u16 \<times> byte list) list"
    and body :: "'m \<Rightarrow> byte list option"
    and content :: "'b \<Rightarrow> byte list"
  assumes accepts: "ok b fs \<Longrightarrow> accepted (decode (encode b))"
    and keeps_fields: "ok b fs \<Longrightarrow> fields (decode (encode b)) = fs"
    and keeps_body: "ok b fs \<Longrightarrow>
          body (decode (encode b)) = (if content b = [] then None else Some (content b))"
    and rejects_prefix: "ok b fs \<Longrightarrow> n < length (encode b) \<Longrightarrow>
          \<not> accepted (decode (take n (encode b)))"
begin

text \<open>A receive buffer either holds the whole packet or the packet is dropped.\<close>

lemma recv_all_or_nothing:
  assumes "ok b fs"
  shows "accepted (decode (take n (encode b))) \<longleftrightarrow> length (encode b) \<le> n"
proof (cases "n < length (encode b)")
  case True
  then show ?thesis using rejects_prefix [OF assms True] by simp
next
  case False
  then show ?thesis using accepts [OF assms] by simp
qed

text \<open>Two well-formed builders with the same bytes hold the same fields and payload.\<close>

lemma encode_unambiguous:
  assumes "ok b fs" and "ok b' fs'" and "encode b = encode b'"
  shows "fs = fs' \<and> content b = content b'"
proof
  show "fs = fs'"
    using keeps_fields [OF assms(1)] keeps_fields [OF assms(2)] assms(3) by simp
  show "content b = content b'"
    using keeps_body [OF assms(1)] keeps_body [OF assms(2)] assms(3)
    by (simp split: if_splits)
qed

end

interpretation tlv: wire_codec build tlv_message packet_ok valid msg_fields get_payload b_payload
  by unfold_locales (simp_all add: parse_build parse_build_payload truncated_invalid)

end
