(* ===== verification/Umap.thy ===== *)
theory Umap
  imports Prelude
begin

text \<open>
  \<^verbatim>\<open>std::unordered_map\<close> and \<^verbatim>\<open>std::unordered_set\<close>. A map is an association list with distinct
  keys: the list order stands for the (unspecified) iteration order of the C++ container,
  so a loop over the container is a fold over the list. The interface \<^verbatim>\<open>unordered_map\<close> states
  what the broker's code relies on; the association lists of this theory provide it.
\<close>

type_synonym ('k, 'v) umap = "('k \<times> 'v) list"

definition um_find :: "('k, 'v) umap \<Rightarrow> 'k \<Rightarrow> 'v option" where
  "um_find m k = map_of m k"

definition um_put :: "'k \<Rightarrow> 'v \<Rightarrow> ('k, 'v) umap \<Rightarrow> ('k, 'v) umap" where
  "um_put k v m = AList.update k v m"

definition um_erase :: "'k \<Rightarrow> ('k, 'v) umap \<Rightarrow> ('k, 'v) umap" where
  "um_erase k m = AList.delete k m"

text \<open>The value \<^verbatim>\<open>m[k]\<close> of a C++ map: a missing key gets a default-constructed value \<open>d\<close>.\<close>

definition um_at :: "'v \<Rightarrow> ('k, 'v) umap \<Rightarrow> 'k \<Rightarrow> 'v" where
  "um_at d m k = (case um_find m k of None \<Rightarrow> d | Some v \<Rightarrow> v)"

definition um_inv :: "('k, 'v) umap \<Rightarrow> bool" where
  "um_inv m \<longleftrightarrow> distinct (map fst m)"

definition um_keys :: "('k, 'v) umap \<Rightarrow> 'k set" where
  "um_keys m = fst ` set m"

section \<open>The interface\<close>

locale unordered_map =
  fixes find :: "'m \<Rightarrow> 'k \<Rightarrow> 'v option"
    and put :: "'k \<Rightarrow> 'v \<Rightarrow> 'm \<Rightarrow> 'm"
    and erase :: "'k \<Rightarrow> 'm \<Rightarrow> 'm"
    and size :: "'m \<Rightarrow> nat"
    and inv :: "'m \<Rightarrow> bool"
  assumes find_put: "find (put k v m) = (find m)(k \<mapsto> v)"
    and find_erase: "find (erase k m) = (find m)(k := None)"
    and inv_put: "inv m \<Longrightarrow> inv (put k v m)"
    and inv_erase: "inv m \<Longrightarrow> inv (erase k m)"
    and size_dom: "inv m \<Longrightarrow> size m = card (dom (find m))"
    and finite_dom: "finite (dom (find m))"
begin

lemma find_put_same: "find (put k v m) k = Some v"
  by (simp add: find_put)

lemma find_put_other: "k' \<noteq> k \<Longrightarrow> find (put k v m) k' = find m k'"
  by (simp add: find_put)

lemma size_put_new: "inv m \<Longrightarrow> find m k = None \<Longrightarrow> size (put k v m) = Suc (size m)"
  by (simp add: size_dom inv_put find_put finite_dom domIff)

lemma size_put_old: "inv m \<Longrightarrow> find m k \<noteq> None \<Longrightarrow> size (put k v m) = size m"
  by (simp add: size_dom inv_put find_put insert_absorb domIff)

lemma size_erase: "inv m \<Longrightarrow> find m k \<noteq> None \<Longrightarrow> Suc (size (erase k m)) = size m"
proof -
  assume "inv m" and "find m k \<noteq> None"
  then have "size (erase k m) = card (dom (find m) - {k})" and "k \<in> dom (find m)"
    by (simp_all add: size_dom inv_erase find_erase domIff)
  then show ?thesis
    using \<open>inv m\<close> by (simp add: size_dom card_Suc_Diff1 finite_dom del: card_Diff_insert)
qed

text \<open>Folding a pointwise update over keys that are visited once changes exactly those keys.\<close>

lemma find_fold_erase: "find (fold erase ks m) = (\<lambda>k. if k \<in> set ks then None else find m k)"
  by (induction ks arbitrary: m) (auto simp: find_erase)

lemma inv_fold_erase: "inv m \<Longrightarrow> inv (fold erase ks m)"
  by (induction ks arbitrary: m) (auto simp: inv_erase)

end

interpretation um: unordered_map um_find um_put um_erase length um_inv
proof
  show "um_find (um_put k v m) = (um_find m)(k \<mapsto> v)" for k :: 'a and v :: 'b and m
    by (simp add: um_find_def um_put_def AList.update_conv' fun_eq_iff)
  show "um_find (um_erase k m) = (um_find m)(k := None)" for k :: 'a and m :: "('a, 'b) umap"
    by (simp add: um_find_def um_erase_def AList.delete_conv' fun_eq_iff)
  show "um_inv (um_put k v m)" if "um_inv m" for k :: 'a and v :: 'b and m
    using that by (simp add: um_inv_def um_put_def AList.distinct_update)
  show "um_inv (um_erase k m)" if "um_inv m" for k :: 'a and m :: "('a, 'b) umap"
    using that by (simp add: um_inv_def um_erase_def AList.distinct_delete)
  show "length m = card (dom (um_find m))" if "um_inv m" for m :: "('a, 'b) umap"
  proof -
    have "dom (um_find m) = fst ` set m"
      using dom_map_of_conv_image_fst [of m] by (simp add: um_find_def [abs_def])
    moreover have "card (fst ` set m) = length m"
      using that distinct_card [of "map fst m"] by (simp add: um_inv_def)
    ultimately show ?thesis by simp
  qed
  show "finite (dom (um_find m))" for m :: "('a, 'b) umap"
    using finite_dom_map_of [of m] by (simp add: um_find_def [abs_def])
qed

section \<open>Rewriting\<close>

lemma um_find_Nil [umap_simps, simp]: "um_find [] k = None"
  by (simp add: um_find_def)

lemma um_find_put [umap_simps, simp]:
  "um_find (um_put k v m) k' = (if k' = k then Some v else um_find m k')"
  by (simp add: um.find_put)

lemma um_find_erase [umap_simps, simp]:
  "um_find (um_erase k m) k' = (if k' = k then None else um_find m k')"
  by (simp add: um.find_erase)

lemma um_at_put [umap_simps, simp]:
  "um_at d (um_put k v m) k' = (if k' = k then v else um_at d m k')"
  by (simp add: um_at_def)

lemma um_inv_Nil [simp]: "um_inv []"
  by (simp add: um_inv_def)

lemma um_keys_find: "k \<in> um_keys m \<longleftrightarrow> um_find m k \<noteq> None"
  by (simp add: um_keys_def um_find_def map_of_eq_None_iff)

lemma um_find_in_set: "um_find m k = Some v \<Longrightarrow> (k, v) \<in> set m"
  by (simp add: um_find_def map_of_SomeD)

lemma um_in_set_find: "um_inv m \<Longrightarrow> (k, v) \<in> set m \<Longrightarrow> um_find m k = Some v"
  by (simp add: um_find_def um_inv_def)

lemma um_set_find: "um_inv m \<Longrightarrow> (k, v) \<in> set m \<longleftrightarrow> um_find m k = Some v"
  by (auto intro: um_in_set_find um_find_in_set)

lemma um_put_subset: "set (um_put k v m) \<subseteq> insert (k, v) (set m)"
proof -
  have "set (AList.update k v m) \<subseteq> insert (k, v) (set m)" for m
    by (induction m) auto
  then show ?thesis by (simp add: um_put_def)
qed

lemmas um_invs = um.inv_put um.inv_erase um_inv_Nil

end
