(* ===== verification/Brake.thy ===== *)
theory Brake
  imports Fp Umap
begin

text \<open>
  The brake of \<^verbatim>\<open>src/broker/broker.cpp\<close> (\<^verbatim>\<open>getQuadrant\<close>, \<^verbatim>\<open>brakeAllows\<close>): for each service and
  each of the four quadrants of the globe a queue of the times of admitted publications, from
  which a call first drops what has left the window. The interface \<^verbatim>\<open>rate_limiter\<close> is what
  the broker relies on: no more than \<open>limit\<close> admissions in one window, and no publication
  refused while the window has room.
\<close>

section \<open>The code\<close>

definition get_quadrant :: "f32 \<Rightarrow> f32 \<Rightarrow> nat" where
  "get_quadrant lat lon =
     (if fge (widen lat) (widen 0) then (if fge (widen lon) (widen 0) then 0 else 1)
      else (if fge (widen lon) (widen 0) then 2 else 3))"

text \<open>The queue of one window, oldest first; the loop that pops what is older than the window.\<close>

type_synonym window = "time_t list"

fun pop_expired :: "time_t \<Rightarrow> time_t \<Rightarrow> window \<Rightarrow> window" where
  "pop_expired win now [] = []"
| "pop_expired win now (t # ts) = (if now - t > win then pop_expired win now ts else t # ts)"

text \<open>\<^verbatim>\<open>static_cast<int>(queue.size()) >= brake_limit\<close>: the size is narrowed to 32 bits.\<close>

definition window_full :: "32 word \<Rightarrow> window \<Rightarrow> bool" where
  "window_full limit q \<longleftrightarrow> sint (word_of_nat (length q) :: 32 word) \<ge> sint limit"

definition window_step :: "32 word \<Rightarrow> time_t \<Rightarrow> time_t \<Rightarrow> window \<Rightarrow> bool \<times> window" where
  "window_step limit win now q =
     (let q' = pop_expired win now q
      in if window_full limit q' then (False, q') else (True, q' @ [now]))"

type_synonym windows = "(string, (nat, window) umap) umap"

definition window_at :: "windows \<Rightarrow> string \<Rightarrow> nat \<Rightarrow> window" where
  "window_at ws service q = um_at [] (um_at [] ws service) q"

definition set_window :: "string \<Rightarrow> nat \<Rightarrow> window \<Rightarrow> windows \<Rightarrow> windows" where
  "set_window service q w ws = um_put service (um_put q w (um_at [] ws service)) ws"

lemma window_at_set [simp]:
  "window_at (set_window s q w ws) s' q' = (if s' = s \<and> q' = q then w else window_at ws s' q')"
  by (simp add: window_at_def set_window_def)

lemma window_at_Nil [simp]: "window_at [] s q = []"
  by (simp add: window_at_def um_at_def)

lemma window_at_erase [simp]:
  "window_at (um_erase s ws) s' q = (if s' = s then [] else window_at ws s' q)"
  by (simp add: window_at_def um_at_def)

lemma get_quadrant_bound: "get_quadrant lat lon < 4"
  by (simp add: get_quadrant_def)

section \<open>The interface: a sliding-window rate limiter\<close>

text \<open>
  A limiter keeps the recent admissions. A call forgets some of the oldest, each of them older
  than the window, and admits exactly when fewer than \<open>limit\<close> are left.
\<close>

locale rate_limiter =
  fixes step :: "time_t \<Rightarrow> 'w \<Rightarrow> bool \<times> 'w"
    and recent :: "'w \<Rightarrow> time_t list"
    and limit :: nat
    and win :: time_t
    and inv :: "'w \<Rightarrow> bool"
  assumes inv_step: "inv w \<Longrightarrow> inv (snd (step now w))"
    and step_forgets: "inv w \<Longrightarrow> \<exists>k. recent (snd (step now w))
            = drop k (recent w) @ (if fst (step now w) then [now] else []) \<and>
          (\<forall>a \<in> set (take k (recent w)). now - a > win) \<and>
          (drop k (recent w) \<noteq> [] \<longrightarrow> now - hd (drop k (recent w)) \<le> win) \<and>
          (fst (step now w) \<longleftrightarrow> length (drop k (recent w)) < limit)"
begin

text \<open>A run of calls at given times: the times of the admitted ones, and the state at the end.\<close>

primrec admitted :: "time_t list \<Rightarrow> 'w \<Rightarrow> time_t list" where
  "admitted [] w = []"
| "admitted (t # ts) w = (if fst (step t w) then [t] else []) @ admitted ts (snd (step t w))"

primrec after :: "time_t list \<Rightarrow> 'w \<Rightarrow> 'w" where
  "after [] w = w"
| "after (t # ts) w = after ts (snd (step t w))"

text \<open>
  The history invariant: the admissions so far end in the remembered ones, those forgotten
  have left the window, and every admission is more than a window later than the one
  \<open>limit\<close> places before it.
\<close>

definition spaced :: "time_t list \<Rightarrow> bool" where
  "spaced h \<longleftrightarrow> (\<forall>i. i + limit < length h \<longrightarrow> h ! (i + limit) - h ! i > win)"

definition history :: "time_t \<Rightarrow> time_t list \<Rightarrow> 'w \<Rightarrow> bool" where
  "history now h w \<longleftrightarrow> (\<exists>old. h = old @ recent w \<and> (\<forall>a \<in> set old. now - a > win)) \<and> spaced h"

lemma history_step:
  assumes "inv w" and "history t0 h w" and "t0 \<le> now"
  shows "history now (h @ (if fst (step now w) then [now] else [])) (snd (step now w))"
proof -
  obtain old where old: "h = old @ recent w" "\<forall>a \<in> set old. t0 - a > win" and sp: "spaced h"
    using assms(2) by (auto simp: history_def)
  obtain k where k: "recent (snd (step now w))
        = drop k (recent w) @ (if fst (step now w) then [now] else [])"
      "\<forall>a \<in> set (take k (recent w)). now - a > win"
      "fst (step now w) \<longleftrightarrow> length (drop k (recent w)) < limit"
    using step_forgets [OF assms(1)] by blast
  let ?old = "old @ take k (recent w)"
  have split: "h = ?old @ drop k (recent w)" using old(1) by simp
  have gone: "\<forall>a \<in> set ?old. now - a > win" using old(2) k(2) assms(3) by fastforce
  have "spaced (h @ [now])" if ok: "fst (step now w)"
    unfolding spaced_def
  proof (intro allI impI)
    fix i assume i: "i + limit < length (h @ [now])"
    show "(h @ [now]) ! (i + limit) - (h @ [now]) ! i > win"
    proof (cases "i + limit < length h")
      case True
      then show ?thesis using sp by (simp add: spaced_def nth_append)
    next
      case False
      then have last: "i + limit = length h" using i by simp
      have len: "length h = length ?old + length (drop k (recent w))"
        by (subst split) (simp only: length_append)
      then have i_old: "i < length ?old" using ok k(3) last by linarith
      have "h ! i = ?old ! i" by (subst split) (simp only: nth_append i_old if_True)
      then have "now - h ! i > win" using gone nth_mem [OF i_old] by simp
      then show ?thesis using i_old len last by (simp add: nth_append)
    qed
  qed
  then have "spaced (h @ (if fst (step now w) then [now] else []))" using sp by simp
  moreover have "h @ (if fst (step now w) then [now] else []) = ?old @ recent (snd (step now w))"
    using split k(1) by simp
  ultimately show ?thesis using gone unfolding history_def by blast
qed

lemma admitted_spaced:
  assumes "inv w" and "history t0 h w" and "sorted (t0 # ts)"
  shows "spaced (h @ admitted ts w)"
  using assms
proof (induction ts arbitrary: w t0 h)
  case Nil
  then show ?case by (simp add: history_def)
next
  case (Cons t ts)
  have "history t (h @ (if fst (step t w) then [t] else [])) (snd (step t w))"
    using history_step [OF Cons.prems(1,2)] Cons.prems(3) by simp
  from Cons.IH [OF inv_step [OF Cons.prems(1)] this] Cons.prems(3) show ?case by simp
qed

theorem at_most_limit:
  assumes "inv w" and "recent w = []" and "sorted ts"
  shows "spaced (admitted ts w)"
proof (cases ts)
  case (Cons t us)
  have "history t [] w" using assms(2) by (simp add: history_def spaced_def)
  from admitted_spaced [OF assms(1) this, of ts] Cons assms(3) show ?thesis by simp
qed (simp add: spaced_def)

text \<open>A refusal means the window holds \<open>limit\<close> admissions, none of which has left it.\<close>

theorem refused_full:
  assumes "inv w" and "\<not> fst (step now w)" and "sorted (recent w)"
  shows "limit \<le> length (filter (\<lambda>a. now - a \<le> win) (recent w))"
proof -
  obtain k where k: "drop k (recent w) \<noteq> [] \<longrightarrow> now - hd (drop k (recent w)) \<le> win"
      "limit \<le> length (drop k (recent w))"
    using step_forgets [OF assms(1), of now] assms(2) by (auto simp: not_less)
  have "now - a \<le> win" if "a \<in> set (drop k (recent w))" for a
  proof -
    have "sorted (drop k (recent w))" using assms(3) by simp
    then have "hd (drop k (recent w)) \<le> a"
      using that by (cases "drop k (recent w)") auto
    moreover have "drop k (recent w) \<noteq> []" using that by auto
    ultimately show ?thesis using k(1) by force
  qed
  then have "filter (\<lambda>a. now - a \<le> win) (drop k (recent w)) = drop k (recent w)" by simp
  moreover have "filter (\<lambda>a. now - a \<le> win) (recent w)
      = filter (\<lambda>a. now - a \<le> win) (take k (recent w)) @ filter (\<lambda>a. now - a \<le> win) (drop k (recent w))"
    by (metis append_take_drop_id filter_append)
  ultimately show ?thesis using k(2) by simp
qed

end

section \<open>The windows of the code are such limiters\<close>

lemma pop_expired_drop:
  "\<exists>k. pop_expired win now q = drop k q \<and> (\<forall>a \<in> set (take k q). now - a > win) \<and>
       (drop k q \<noteq> [] \<longrightarrow> now - hd (drop k q) \<le> win)"
proof (induction q)
  case Nil
  then show ?case by simp
next
  case (Cons t q)
  show ?case
  proof (cases "now - t > win")
    case True
    from Cons obtain k where "pop_expired win now q = drop k q"
      "\<forall>a \<in> set (take k q). now - a > win" "drop k q \<noteq> [] \<longrightarrow> now - hd (drop k q) \<le> win" by blast
    with True show ?thesis by (intro exI [of _ "Suc k"]) simp
  next
    case False
    then show ?thesis by (intro exI [of _ 0]) simp
  qed
qed

lemma length_pop_expired: "length (pop_expired win now q) \<le> length q"
  by (induction q) auto

definition window_inv :: "32 word \<Rightarrow> window \<Rightarrow> bool" where
  "window_inv limit q \<longleftrightarrow> length q \<le> nat (sint limit)"

lemma window_full_inv:
  assumes "window_inv limit q"
  shows "window_full limit q \<longleftrightarrow> \<not> length q < nat (sint limit)"
proof -
  have "sint limit < 2 ^ 31" using sint_lt [of limit] by simp
  then have small: "length q < 2 ^ 31" using assms by (simp add: window_inv_def)
  then have "sint (word_of_nat (length q) :: 32 word) = int (length q)"
    by (simp add: signed_of_nat signed_take_bit_int_eq_self)
  then show ?thesis by (auto simp: window_full_def)
qed

interpretation brake_window:
  rate_limiter "window_step limit win" "\<lambda>q. q" "nat (sint limit)" win "window_inv limit"
  for limit :: "32 word" and win :: time_t
proof
  fix q now assume inv: "window_inv limit q"
  let ?q = "pop_expired win now q"
  have popped: "window_inv limit ?q"
    using inv length_pop_expired [of win now q] by (simp add: window_inv_def)
  note full = window_full_inv [OF popped]
  show "window_inv limit (snd (window_step limit win now q))"
    using popped full by (auto simp: window_step_def window_inv_def Let_def)
  obtain k where "?q = drop k q" "\<forall>a \<in> set (take k q). now - a > win"
    "drop k q \<noteq> [] \<longrightarrow> now - hd (drop k q) \<le> win"
    using pop_expired_drop by blast
  with full show "\<exists>k. snd (window_step limit win now q)
        = drop k q @ (if fst (window_step limit win now q) then [now] else []) \<and>
      (\<forall>a \<in> set (take k q). now - a > win) \<and>
      (drop k q \<noteq> [] \<longrightarrow> now - hd (drop k q) \<le> win) \<and>
      (fst (window_step limit win now q) \<longleftrightarrow> length (drop k q) < nat (sint limit))"
    by (intro exI [of _ k]) (simp add: window_step_def Let_def)
qed

end
