(* ===== verification/Gmp.thy ===== *)
theory Gmp
  imports Complex_Main Prelude "HOL-Library.Signed_Division"
begin

text \<open>
  The interface of the GMP library the cryptography is written against, and the number theory
  its correctness rests on. GMP is not part of the repository: its number-theoretic
  functions are the fields of a record the definitions take as an argument, and the locale
  \<^verbatim>\<open>gmp_spec\<close> states what the GMP manual documents of them. The operators of \<^verbatim>\<open>mpz_class\<close> are
  integer arithmetic; its division truncates, which is \<open>sdiv\<close> and \<open>smod\<close>.
\<close>

section \<open>Primes and Fermat's theorem\<close>

definition is_prime :: "int \<Rightarrow> bool" where
  "is_prime p \<longleftrightarrow> 1 < p \<and> (\<forall>d. 0 < d \<longrightarrow> d dvd p \<longrightarrow> d = 1 \<or> d = p)"

lemma prime_coprime:
  assumes "is_prime p" and "\<not> p dvd a"
  shows "coprime p a"
proof -
  have "gcd p a dvd p" and "0 < gcd p a"
    using assms(1) by (simp_all add: is_prime_def)
  with assms(1) have "gcd p a = 1 \<or> gcd p a = p" by (simp add: is_prime_def)
  then show ?thesis
    using assms(2) by (metis coprime_iff_gcd_eq_1 gcd_dvd2)
qed

lemma prime_dvd_mult: "is_prime p \<Longrightarrow> p dvd a * b \<Longrightarrow> p dvd a \<or> p dvd b"
  using prime_coprime coprime_dvd_mult_right_iff by blast

lemma distinct_primes_coprime:
  assumes "is_prime p" and "is_prime q" and "p \<noteq> q"
  shows "coprime p q"
proof (rule prime_coprime [OF assms(1)])
  have "1 < p" using assms(1) by (simp add: is_prime_def)
  then show "\<not> p dvd q" using assms(2,3) by (auto simp: is_prime_def dest: spec [of _ p])
qed

lemma prime_dvd_choose:
  assumes "is_prime (int p)" and "0 < k" and "k < p"
  shows "p dvd (p choose k)"
proof -
  have "k * (p choose k) = p * ((p - 1) choose (k - 1))"
    using assms(2) times_binomial_minus1_eq by blast
  then have "int p dvd int k * int (p choose k)"
    by (metis dvd_triv_left of_nat_dvd_iff of_nat_mult)
  moreover have "\<not> int p dvd int k"
    using assms(2,3) by (auto dest: zdvd_imp_le)
  ultimately have "int p dvd int (p choose k)" using prime_dvd_mult [OF assms(1)] by blast
  then show ?thesis by (simp only: of_nat_dvd_iff)
qed

lemma fermat_nat:
  assumes "is_prime (int p)"
  shows "a ^ p mod p = a mod p"
proof (induction a)
  case 0
  have "0 < p" using assms by (simp add: is_prime_def)
  then show ?case by (simp add: zero_power)
next
  case (Suc a)
  have "1 < p" using assms by (simp add: is_prime_def)
  have split: "{..p} = insert 0 (insert p {0<..<p})" using \<open>1 < p\<close> by auto
  have "(a + 1) ^ p = (\<Sum>k\<le>p. (p choose k) * a ^ k)"
    using binomial_ring [of a 1 p] by simp
  also have "\<dots> = 1 + (a ^ p + (\<Sum>k\<in>{0<..<p}. (p choose k) * a ^ k))"
    using \<open>1 < p\<close> by (simp add: split)
  finally have eq: "(a + 1) ^ p = 1 + (a ^ p + (\<Sum>k\<in>{0<..<p}. (p choose k) * a ^ k))" .
  have "p dvd (\<Sum>k\<in>{0<..<p}. (p choose k) * a ^ k)"
    using prime_dvd_choose [OF assms] by (intro dvd_sum) simp
  then obtain m where m: "(\<Sum>k\<in>{0<..<p}. (p choose k) * a ^ k) = p * m" by (elim dvdE)
  have "(a + 1) ^ p mod p = (1 + a ^ p) mod p"
    unfolding eq m by (simp flip: add.assoc)
  also have "\<dots> = (1 + a) mod p" using Suc by (metis mod_add_right_eq)
  finally show ?case by simp
qed

lemma fermat_int:
  assumes "is_prime p" and "\<not> p dvd a" and "0 \<le> a"
  shows "a ^ nat (p - 1) mod p = 1"
proof -
  have "1 < p" using assms(1) by (simp add: is_prime_def)
  have "is_prime (int (nat p))" using assms(1) \<open>1 < p\<close> by simp
  from fermat_nat [OF this, of "nat a"] have "int (nat a ^ nat p mod nat p) = int (nat a mod nat p)"
    by simp
  then have "a ^ nat p mod p = a mod p"
    using assms(3) \<open>1 < p\<close> by (simp add: zmod_int)
  then have "p dvd a ^ nat p - a" by (simp add: mod_eq_dvd_iff)
  moreover have "a ^ nat p = a * a ^ nat (p - 1)"
    using \<open>1 < p\<close> by (metis Suc_diff_1 nat_diff_distrib nat_one_as_int numeral_One power_Suc
        zero_le_one zero_less_nat_eq less_imp_le less_trans zero_less_one)
  ultimately have "p dvd a * (a ^ nat (p - 1) - 1)" by (simp add: algebra_simps)
  then have "p dvd a ^ nat (p - 1) - 1"
    using prime_dvd_mult [OF assms(1)] assms(2) by blast
  then have "a ^ nat (p - 1) mod p = 1 mod p" by (simp add: mod_eq_dvd_iff)
  then show ?thesis using \<open>1 < p\<close> by simp
qed

text \<open>A power whose exponent is a multiple of \<open>p - 1\<close>.\<close>

lemma fermat_multiple:
  assumes "is_prime p" and "\<not> p dvd a" and "0 \<le> a" and "0 \<le> l" and "p - 1 dvd l"
  shows "p dvd a ^ nat l - 1"
proof -
  have "1 < p" using assms(1) by (simp add: is_prime_def)
  obtain k where k: "l = (p - 1) * k" using assms(5) by (elim dvdE)
  have "0 \<le> k" using assms(4) \<open>1 < p\<close> k by (simp add: zero_le_mult_iff)
  then have "a ^ nat l = (a ^ nat (p - 1)) ^ nat k"
    using \<open>1 < p\<close> by (simp add: k nat_mult_distrib power_mult)
  moreover have "(a ^ nat (p - 1)) ^ nat k mod p = 1 mod p"
    using fermat_int [OF assms(1-3)] \<open>1 < p\<close> by (metis power_mod power_one)
  ultimately show ?thesis by (simp add: mod_eq_dvd_iff)
qed

section \<open>Arithmetic modulo a square\<close>

text \<open>\<open>(1 + k n)\<close> behaves linearly modulo \<open>n\<^sup>2\<close>.\<close>

lemma one_plus_power_mod_square:
  fixes n k :: int
  shows "(n * n) dvd (1 + k * n) ^ m - (1 + int m * k * n)"
proof (induction m)
  case 0
  then show ?case by simp
next
  case (Suc m)
  then obtain c where c: "(1 + k * n) ^ m = 1 + int m * k * n + n * n * c"
    by (metis add.commute diff_add_cancel dvdE)
  have "(1 + k * n) ^ Suc m - (1 + int (Suc m) * k * n)
      = n * n * (c + k * n * c + int m * k * k)"
    unfolding power_Suc c by (simp add: algebra_simps)
  then show ?case by simp
qed

lemma mod_square_eqI: "(n * n :: int) dvd a - b \<Longrightarrow> a mod (n * n) = b mod (n * n)"
  by (simp add: mod_eq_dvd_iff)

lemma one_plus_power_mod:
  fixes n k :: int
  shows "(1 + k * n) ^ m mod (n * n) = (1 + int m * k * n) mod (n * n)"
  by (rule mod_square_eqI [OF one_plus_power_mod_square])

text \<open>A number that is one modulo \<open>n\<close> is one modulo \<open>n\<^sup>2\<close> after raising it to \<open>n\<close>.\<close>

lemma power_n_mod_square:
  fixes n x :: int
  assumes "n dvd x - 1" and "0 \<le> n"
  shows "x ^ nat n mod (n * n) = 1 mod (n * n)"
proof -
  obtain k where k: "x = 1 + k * n" using assms(1) by (metis dvdE add.commute diff_add_cancel mult.commute)
  have "(1 + k * n) ^ nat n mod (n * n) = (1 + int (nat n) * k * n) mod (n * n)"
    by (rule one_plus_power_mod)
  also have "\<dots> = (1 + k * (n * n)) mod (n * n)" using assms(2) by (simp add: ac_simps)
  finally show ?thesis by (simp add: k)
qed

lemma one_plus_mult_mod_square:
  fixes n a b :: int
  shows "((1 + a * n) * (1 + b * n)) mod (n * n) = (1 + (a + b) * n) mod (n * n)"
proof (rule mod_square_eqI)
  have "(1 + a * n) * (1 + b * n) - (1 + (a + b) * n) = n * n * (a * b)"
    by (simp add: algebra_simps)
  then show "n * n dvd (1 + a * n) * (1 + b * n) - (1 + (a + b) * n)" by simp
qed

text \<open>The value of \<open>1 + a n\<close> modulo \<open>n\<^sup>2\<close>, and what Paillier's \<open>L\<close> reads from it.\<close>

lemma one_plus_mod_square:
  fixes n a :: int
  assumes "1 < n"
  shows "(1 + a * n) mod (n * n) = 1 + (a mod n) * n"
proof -
  have "1 + a * n = 1 + (a mod n) * n + (n * n) * (a div n)"
    using div_mult_mod_eq [of a n] by (metis (no_types, lifting) add.assoc add.commute
        distrib_right mult.assoc mult.commute)
  then have "(1 + a * n) mod (n * n) = (1 + (a mod n) * n) mod (n * n)"
    by (metis mod_mult_self2)
  also have "\<dots> = 1 + (a mod n) * n"
  proof (rule mod_pos_pos_trivial)
    have "a mod n \<le> n - 1" using assms pos_mod_bound [of n a] by linarith
    then have "(a mod n) * n \<le> (n - 1) * n" using assms by (intro mult_right_mono) simp_all
    then show "1 + (a mod n) * n < n * n" using assms by (simp add: algebra_simps)
    show "0 \<le> 1 + (a mod n) * n" using assms by simp
  qed
  finally show ?thesis .
qed

section \<open>Truncating division\<close>

lemma sdiv_nonneg: "0 \<le> a \<Longrightarrow> 0 < b \<Longrightarrow> a sdiv b = (a div b :: int)"
  by (simp add: signed_divide_int_def sgn_if)

lemma smod_nonneg: "0 \<le> a \<Longrightarrow> 0 < b \<Longrightarrow> a smod b = (a mod b :: int)"
  by (rule smod_mod_positive) simp_all

section \<open>The library\<close>

text \<open>
  The functions of \<^verbatim>\<open>gmp.h\<close> the code calls. \<^verbatim>\<open>mpz_invert\<close> returns whether the inverse exists and
  the value left in its result; \<^verbatim>\<open>mpz_set_str16\<close> is the value a fresh integer holds after
  \<^verbatim>\<open>mpz_set_str\<close> in base 16, whose return code the code ignores; \<^verbatim>\<open>mpz_get_str16\<close> is
  \<^verbatim>\<open>mpz_get_str\<close> in base 16.
\<close>

record gmp =
  mpz_powm :: "int \<Rightarrow> int \<Rightarrow> int \<Rightarrow> int"
  mpz_invert :: "int \<Rightarrow> int \<Rightarrow> bool \<times> int"
  mpz_lcm :: "int \<Rightarrow> int \<Rightarrow> int"
  mpz_nextprime :: "int \<Rightarrow> int"
  mpz_setbit :: "int \<Rightarrow> nat \<Rightarrow> int"
  mpz_sizeinbase2 :: "int \<Rightarrow> nat"
  mpz_congruent_p :: "int \<Rightarrow> int \<Rightarrow> int \<Rightarrow> bool"
  mpz_get_str16 :: "int \<Rightarrow> string"
  mpz_set_str16 :: "string \<Rightarrow> int"

text \<open>
  \<^verbatim>\<open>gmp_randclass\<close>: a generator state \<open>'r\<close>, \<^verbatim>\<open>get_z_range(n)\<close> and \<^verbatim>\<open>get_z_bits(b)\<close>, each with
  the next state.
\<close>

record 'r rng =
  get_z_range :: "'r \<Rightarrow> int \<Rightarrow> int \<times> 'r"
  get_z_bits :: "'r \<Rightarrow> nat \<Rightarrow> int \<times> 'r"

definition hex_digits :: string where
  "hex_digits = ''0123456789abcdef''"

locale gmp_spec =
  fixes G :: gmp
  assumes powm: "0 \<le> e \<Longrightarrow> 0 < m \<Longrightarrow> mpz_powm G b e m = b ^ nat e mod m"
    and invert: "0 < m \<Longrightarrow> coprime a m \<Longrightarrow>
          fst (mpz_invert G a m) \<and> 0 \<le> snd (mpz_invert G a m) \<and> snd (mpz_invert G a m) < m \<and>
          (a * snd (mpz_invert G a m)) mod m = 1 mod m"
    and invert_none: "0 < m \<Longrightarrow> \<not> coprime a m \<Longrightarrow> \<not> fst (mpz_invert G a m)"
    and lcm_eq: "mpz_lcm G a b = lcm a b"
    and nextprime: "is_prime (mpz_nextprime G x) \<and> x < mpz_nextprime G x"
    and nextprime_least: "is_prime p \<Longrightarrow> x < p \<Longrightarrow> mpz_nextprime G x \<le> p"
    and setbit: "0 \<le> x \<Longrightarrow> mpz_setbit G x i = or x (2 ^ i)"
    and sizeinbase2: "0 < x \<Longrightarrow>
          2 ^ (mpz_sizeinbase2 G x - 1) \<le> x \<and> x < 2 ^ mpz_sizeinbase2 G x"
    and congruent_p: "mpz_congruent_p G x c m \<longleftrightarrow> m dvd x - c"
    and set_get_str: "mpz_set_str16 G (mpz_get_str16 G x) = x"
    and get_str_nonempty: "mpz_get_str16 G x \<noteq> []"
    and get_str_chars: "0 \<le> x \<Longrightarrow> set (mpz_get_str16 G x) \<subseteq> set hex_digits"
    and get_str_length: "0 \<le> x \<Longrightarrow> x < 16 ^ Suc k \<Longrightarrow> length (mpz_get_str16 G x) \<le> Suc k"
begin

lemma sizeinbase2_unique:
  assumes "2 ^ (k - 1) \<le> x" and "x < 2 ^ k"
  shows "mpz_sizeinbase2 G x = k"
proof -
  define j where "j = mpz_sizeinbase2 G x"
  have "0 < x" using assms(1) by (meson less_le_trans zero_less_numeral zero_less_power)
  from sizeinbase2 [OF this] have j: "2 ^ (j - 1) \<le> x" "x < 2 ^ j" by (simp_all add: j_def)
  have "(2::int) ^ (j - 1) < 2 ^ k" and "(2::int) ^ (k - 1) < 2 ^ j"
    using j assms by linarith+
  then have "j - 1 < k" and "k - 1 < j" by simp_all
  moreover have "k \<noteq> 0" and "j \<noteq> 0"
    using assms j \<open>0 < x\<close> by (auto intro: ccontr)
  ultimately show ?thesis by (simp add: j_def [symmetric])
qed

lemma get_str_inj: "mpz_get_str16 G x = mpz_get_str16 G y \<longleftrightarrow> x = y"
  using set_get_str by metis

text \<open>A key line holds no line break, so lines survive a text file.\<close>

lemma get_str_no_newline: "0 \<le> x \<Longrightarrow> CHR 0x0A \<notin> set (mpz_get_str16 G x)"
  using get_str_chars [of x] by (auto simp: hex_digits_def)

lemma get_str_no_nul: "0 \<le> x \<Longrightarrow> takeWhile (\<lambda>c. c \<noteq> CHR 0x00) (mpz_get_str16 G x) = mpz_get_str16 G x"
  using get_str_chars [of x] by (auto simp: hex_digits_def takeWhile_eq_all_conv)

end

locale rng_spec =
  fixes R :: "'r rng"
  assumes range: "0 < n \<Longrightarrow> 0 \<le> fst (get_z_range R s n) \<and> fst (get_z_range R s n) < n"
    and bits: "0 \<le> fst (get_z_bits R s b) \<and> fst (get_z_bits R s b) < 2 ^ b"

section \<open>A reference implementation\<close>

text \<open>
  Executable functions that meet the specification, so that it is known to be satisfiable
  and closed examples can be computed. The generator replays a list of numbers.
\<close>

definition hex_char :: "nat \<Rightarrow> char" where
  "hex_char d = (if d < 10 then char_of (48 + d) else char_of (87 + d))"

definition hex_digit_val :: "char \<Rightarrow> nat" where
  "hex_digit_val c = (if (of_char c :: nat) < 58 then of_char c - 48 else of_char c - 87)"

fun hex_of_nat :: "nat \<Rightarrow> string" where
  "hex_of_nat n = (if n < 16 then [hex_char n] else hex_of_nat (n div 16) @ [hex_char (n mod 16)])"

declare hex_of_nat.simps [simp del]

definition nat_of_hex :: "string \<Rightarrow> nat" where
  "nat_of_hex s = foldl (\<lambda>acc c. acc * 16 + hex_digit_val c) 0 s"

lemma hex_digit_val_char: "d < 16 \<Longrightarrow> hex_digit_val (hex_char d) = d"
  by (auto simp: hex_digit_val_def hex_char_def)

lemma hex_char_digits: "d < 16 \<Longrightarrow> hex_char d \<in> set hex_digits"
proof -
  assume "d < 16"
  moreover have "\<forall>d \<in> set [0..<16]. hex_char d \<in> set hex_digits" by code_simp
  ultimately show ?thesis by simp
qed

lemma nat_of_hex_of_nat: "nat_of_hex (hex_of_nat n) = n"
proof (induction n rule: hex_of_nat.induct)
  case (1 n)
  show ?case
  proof (cases "n < 16")
    case True
    then show ?thesis by (subst hex_of_nat.simps) (simp add: nat_of_hex_def hex_digit_val_char)
  next
    case False
    with 1 have "nat_of_hex (hex_of_nat (n div 16)) = n div 16" by simp
    with False show ?thesis
      by (subst hex_of_nat.simps) (simp add: nat_of_hex_def hex_digit_val_char)
  qed
qed

lemma hex_of_nat_chars: "hex_of_nat n \<noteq> [] \<and> set (hex_of_nat n) \<subseteq> set hex_digits"
proof (induction n rule: hex_of_nat.induct)
  case (1 n)
  then show ?case
    by (subst (1 2) hex_of_nat.simps) (auto simp: hex_char_digits)
qed

lemma length_hex_of_nat: "n < 16 ^ Suc k \<Longrightarrow> length (hex_of_nat n) \<le> Suc k"
proof (induction k arbitrary: n)
  case 0
  then show ?case by (subst hex_of_nat.simps) simp
next
  case (Suc k)
  then have "n div 16 < 16 ^ Suc k" by (simp add: less_mult_imp_div_less)
  with Suc.IH [of "n div 16"] show ?case by (subst hex_of_nat.simps) simp
qed

definition ref_get_str :: "int \<Rightarrow> string" where
  "ref_get_str x = (if x < 0 then CHR ''-'' # hex_of_nat (nat (- x)) else hex_of_nat (nat x))"

definition ref_set_str :: "string \<Rightarrow> int" where
  "ref_set_str s = (case s of [] \<Rightarrow> 0
     | c # cs \<Rightarrow> if c = CHR ''-'' then - int (nat_of_hex cs) else int (nat_of_hex s))"

lemma ref_set_get_str: "ref_set_str (ref_get_str x) = x"
proof (cases "x < 0")
  case True
  then show ?thesis by (simp add: ref_get_str_def ref_set_str_def nat_of_hex_of_nat)
next
  case False
  obtain c cs where h: "hex_of_nat (nat x) = c # cs" and c: "c \<in> set hex_digits"
    using hex_of_nat_chars [of "nat x"] by (cases "hex_of_nat (nat x)") auto
  have "c \<noteq> CHR ''-''" using c by (auto simp: hex_digits_def)
  moreover have "nat_of_hex (c # cs) = nat x" using nat_of_hex_of_nat [of "nat x"] h by simp
  ultimately show ?thesis using False by (simp add: ref_get_str_def ref_set_str_def h)
qed

definition ref_invert :: "int \<Rightarrow> int \<Rightarrow> bool \<times> int" where
  "ref_invert a m =
     (case find (\<lambda>r. (a * r) mod m = 1 mod m) [0..m - 1] of None \<Rightarrow> (False, 0) | Some r \<Rightarrow> (True, r))"

definition ref_nextprime :: "int \<Rightarrow> int" where
  "ref_nextprime x = int (LEAST p. is_prime (int p) \<and> x < int p)"

fun ref_size :: "nat \<Rightarrow> nat" where
  "ref_size n = (if n < 2 then 1 else Suc (ref_size (n div 2)))"

declare ref_size.simps [simp del]

definition gmp_ref :: gmp where
  "gmp_ref = \<lparr>mpz_powm = (\<lambda>b e m. b ^ nat e mod m), mpz_invert = ref_invert, mpz_lcm = lcm,
     mpz_nextprime = ref_nextprime, mpz_setbit = (\<lambda>x i. or x (2 ^ i)),
     mpz_sizeinbase2 = (\<lambda>x. ref_size (nat x)), mpz_congruent_p = (\<lambda>x c m. m dvd x - c),
     mpz_get_str16 = ref_get_str, mpz_set_str16 = ref_set_str\<rparr>"

definition rng_ref :: "int list rng" where
  "rng_ref = \<lparr>get_z_range = (\<lambda>s n. case s of [] \<Rightarrow> (0, []) | x # xs \<Rightarrow> (x mod n, xs)),
              get_z_bits = (\<lambda>s b. case s of [] \<Rightarrow> (0, []) | x # xs \<Rightarrow> (x mod 2 ^ b, xs))\<rparr>"

lemma ref_size_bounds: "0 < n \<Longrightarrow> 2 ^ (ref_size n - 1) \<le> n \<and> n < 2 ^ ref_size n"
proof (induction n rule: ref_size.induct)
  case (1 n)
  show ?case
  proof (cases "n < 2")
    case True
    with "1.prems" show ?thesis by (simp add: ref_size.simps [of n])
  next
    case False
    with 1 have "2 ^ (ref_size (n div 2) - 1) \<le> n div 2 \<and> n div 2 < 2 ^ ref_size (n div 2)" by simp
    moreover have "ref_size (n div 2) \<noteq> 0" by (simp add: ref_size.simps [of "n div 2"])
    ultimately show ?thesis
      using False by (cases "ref_size (n div 2)") (auto simp: ref_size.simps [of n])
  qed
qed

lemma inverse_mod_exists:
  fixes a m :: int
  assumes "0 < m" and "coprime a m"
  shows "\<exists>r. 0 \<le> r \<and> r < m \<and> (a * r) mod m = 1 mod m"
proof -
  obtain u v where "u * a + v * m = gcd a m" using bezout_int by blast
  then have uv: "u * a + v * m = 1" using assms(2) by (simp add: coprime_iff_gcd_eq_1)
  have "(a * (u mod m)) mod m = (u * a + v * m) mod m"
    by (simp add: mod_mult_right_eq mult.commute)
  with uv have "(a * (u mod m)) mod m = 1 mod m" by simp
  then show ?thesis using assms(1) by (intro exI [of _ "u mod m"]) simp
qed

lemma inverse_mod_coprime:
  fixes a m r :: int
  assumes "0 < m" and "(a * r) mod m = 1 mod m"
  shows "coprime a m"
proof (rule coprimeI)
  fix d assume d: "d dvd a" "d dvd m"
  have "m dvd a * r - 1" using assms(2) by (simp add: mod_eq_dvd_iff)
  then have "d dvd a * r - 1" using d(2) by (rule dvd_trans [rotated])
  moreover have "d dvd a * r" using d(1) by simp
  ultimately have "d dvd a * r - (a * r - 1)" by (rule dvd_diff [rotated])
  then show "is_unit d" by simp
qed

lemma prime_divisor_exists: "1 < n \<Longrightarrow> \<exists>p. is_prime (int p) \<and> p dvd n"
proof (induction n rule: less_induct)
  case (less n)
  show ?case
  proof (cases "is_prime (int n)")
    case True
    then show ?thesis by (intro exI [of _ n]) simp
  next
    case False
    then obtain d where d: "0 < d" "d dvd int n" "d \<noteq> 1" "d \<noteq> int n"
      using less.prems by (auto simp: is_prime_def)
    then have "nat d dvd n" and "1 < nat d" and "nat d < n"
      using less.prems by (auto simp: nat_dvd_iff dest!: zdvd_imp_le)
    with less.IH show ?thesis by (meson dvd_trans)
  qed
qed

lemma prime_above_exists: "\<exists>p. is_prime (int p) \<and> x < int p"
proof -
  define k where "k = nat x"
  obtain p where p: "is_prime (int p)" "p dvd fact k + 1"
    using prime_divisor_exists [of "fact k + 1"] fact_gt_zero [of k] by (metis add.commute less_add_same_cancel1)
  have "k < p"
  proof (rule ccontr)
    assume "\<not> k < p"
    moreover have "1 \<le> p" using p(1) by (simp add: is_prime_def)
    ultimately have "p dvd fact k" by (intro dvd_fact) simp_all
    then have "p dvd 1" using p(2) by (metis dvd_add_right_iff)
    with p(1) show False by (simp add: is_prime_def)
  qed
  then show ?thesis using p(1) by (auto simp: k_def)
qed

interpretation ref_gmp: gmp_spec gmp_ref
proof
  show "mpz_powm gmp_ref b e m = b ^ nat e mod m" for b e m
    by (simp add: gmp_ref_def)
  show "fst (mpz_invert gmp_ref a m) \<and> 0 \<le> snd (mpz_invert gmp_ref a m) \<and>
        snd (mpz_invert gmp_ref a m) < m \<and> (a * snd (mpz_invert gmp_ref a m)) mod m = 1 mod m"
    if m: "0 < m" and cop: "coprime a m" for a m
  proof -
    obtain r where "0 \<le> r" "r < m" "(a * r) mod m = 1 mod m"
      using inverse_mod_exists [OF m cop] by blast
    then have "find (\<lambda>r. (a * r) mod m = 1 mod m) [0..m - 1] \<noteq> None"
      by (auto simp: find_None_iff)
    then obtain q where q: "find (\<lambda>r. (a * r) mod m = 1 mod m) [0..m - 1] = Some q" by blast
    then have "(a * q) mod m = 1 mod m \<and> 0 \<le> q \<and> q < m"
      by (auto simp: find_Some_iff)
    then show ?thesis by (simp add: gmp_ref_def ref_invert_def q)
  qed
  show "\<not> fst (mpz_invert gmp_ref a m)" if "0 < m" "\<not> coprime a m" for a m
  proof -
    have "find (\<lambda>r. (a * r) mod m = 1 mod m) [0..m - 1] = None"
      using that inverse_mod_coprime by (auto simp: find_None_iff)
    then show ?thesis by (simp add: gmp_ref_def ref_invert_def)
  qed
  show "mpz_lcm gmp_ref a b = lcm a b" for a b by (simp add: gmp_ref_def)
  show "is_prime (mpz_nextprime gmp_ref x) \<and> x < mpz_nextprime gmp_ref x" for x
    using LeastI_ex [OF prime_above_exists [of x]] by (simp add: gmp_ref_def ref_nextprime_def)
  show "mpz_nextprime gmp_ref x \<le> p" if "is_prime p" "x < p" for x p
  proof -
    have "1 < p" using that(1) by (simp add: is_prime_def)
    then have "(LEAST p. is_prime (int p) \<and> x < int p) \<le> nat p"
      using that by (intro Least_le) simp
    then show ?thesis using \<open>1 < p\<close> by (simp add: gmp_ref_def ref_nextprime_def)
  qed
  show "mpz_setbit gmp_ref x i = or x (2 ^ i)" for x i by (simp add: gmp_ref_def)
  show "2 ^ (mpz_sizeinbase2 gmp_ref x - 1) \<le> x \<and> x < 2 ^ mpz_sizeinbase2 gmp_ref x"
    if "0 < x" for x
  proof -
    have "int (2 ^ (ref_size (nat x) - 1)) \<le> int (nat x) \<and> int (nat x) < int (2 ^ ref_size (nat x))"
      using ref_size_bounds [of "nat x"] that by (simp only: of_nat_le_iff of_nat_less_iff)
    then show ?thesis using that by (simp add: gmp_ref_def)
  qed
  show "mpz_congruent_p gmp_ref x c m = (m dvd x - c)" for x c m by (simp add: gmp_ref_def)
  show "mpz_set_str16 gmp_ref (mpz_get_str16 gmp_ref x) = x" for x
    by (simp add: gmp_ref_def ref_set_get_str)
  show "mpz_get_str16 gmp_ref x \<noteq> []" for x
    using hex_of_nat_chars by (simp add: gmp_ref_def ref_get_str_def)
  show "set (mpz_get_str16 gmp_ref x) \<subseteq> set hex_digits" if "0 \<le> x" for x
    using hex_of_nat_chars that by (simp add: gmp_ref_def ref_get_str_def)
  show "length (mpz_get_str16 gmp_ref x) \<le> Suc k" if "0 \<le> x" "x < 16 ^ Suc k" for x k
  proof -
    have "int (nat x) < int (16 ^ Suc k)" using that by simp
    then have "nat x < 16 ^ Suc k" by (simp only: of_nat_less_iff)
    then show ?thesis using that(1) by (simp add: gmp_ref_def ref_get_str_def length_hex_of_nat)
  qed
qed

interpretation ref_rng: rng_spec rng_ref
  by unfold_locales (auto simp: rng_ref_def split: list.splits)

text \<open>Primality of small numbers, by trial division.\<close>

lemma is_prime_code:
  "is_prime p \<longleftrightarrow> 1 < p \<and> list_all (\<lambda>d. \<not> d dvd p) [2..p - 1]"
proof -
  have "d = 1 \<or> d = p" if "1 < p" "list_all (\<lambda>d. \<not> d dvd p) [2..p - 1]" "0 < d" "d dvd p" for d
  proof (rule ccontr)
    assume "\<not> (d = 1 \<or> d = p)"
    moreover have "d \<le> p" using that(1,4) by (intro zdvd_imp_le) simp_all
    ultimately have "d \<in> set [2..p - 1]" using that(3) by simp
    then show False using that(2,4) by (auto simp: list_all_iff)
  qed
  then have "1 < p \<and> list_all (\<lambda>d. \<not> d dvd p) [2..p - 1] \<Longrightarrow> is_prime p"
    by (simp add: is_prime_def)
  moreover have "is_prime p \<Longrightarrow> 1 < p \<and> list_all (\<lambda>d. \<not> d dvd p) [2..p - 1]"
    by (auto simp: is_prime_def list_all_iff dest!: spec)
  ultimately show ?thesis by blast
qed

lemma ref_nextprime_eqI:
  assumes "is_prime p" and "x < p" and "\<And>q. is_prime q \<Longrightarrow> x < q \<Longrightarrow> p \<le> q"
  shows "ref_nextprime x = p"
proof -
  have "1 < p" using assms(1) by (simp add: is_prime_def)
  have "(LEAST p. is_prime (int p) \<and> x < int p) = nat p"
  proof (rule Least_equality)
    show "is_prime (int (nat p)) \<and> x < int (nat p)" using assms(1,2) \<open>1 < p\<close> by simp
    show "nat p \<le> q" if "is_prime (int q) \<and> x < int q" for q
      using assms(3) [of "int q"] that by simp
  qed
  then show ?thesis using \<open>1 < p\<close> by (simp add: ref_nextprime_def)
qed

end
