(* ===== verification/Paillier.thy ===== *)
theory Paillier
  imports Gmp
begin

text \<open>
  \<^verbatim>\<open>src/crypto/Paillier.h\<close> and \<^verbatim>\<open>src/crypto/Paillier.cpp\<close>: key generation, the original
  Paillier scheme, and the blinded comparison of the modified one. GMP and the random
  generator are arguments; the lemmas hold for every library that meets \<^verbatim>\<open>gmp_spec\<close>.
  Errors are values: the two exceptions of key generation, the failed \<^verbatim>\<open>assert\<close> of \<^verbatim>\<open>L\<close>
  (active unless \<^verbatim>\<open>NDEBUG\<close> is defined), and the signal GMP raises on a zero divisor.
\<close>

section \<open>The code\<close>

datatype crypto_error = GenPrimeExhausted | KeyGenExhausted | AssertionFailed | DivisionByZero

record paillier =
  kp :: int
  kq :: int
  kn :: int
  kn_sq :: int
  klambda :: int
  kg :: int
  kmu :: int
  ke_m :: int
  kd_m :: int
  kr_m :: int

text \<open>A default-constructed object: every \<^verbatim>\<open>mpz_class\<close> is zero.\<close>

definition paillier_default :: paillier where
  "paillier_default = \<lparr>kp = 0, kq = 0, kn = 0, kn_sq = 0, klambda = 0, kg = 0, kmu = 0,
                       ke_m = 0, kd_m = 0, kr_m = 0\<rparr>"

text \<open>
  The constructor seeds the generator with two readings of \<^verbatim>\<open>std::random_device\<close>, 32 bits each,
  in one \<^verbatim>\<open>unsigned long\<close>. What GMP makes of a seed is the argument \<open>seed\<close>.
\<close>

definition seed_of :: "u32 \<Rightarrow> u32 \<Rightarrow> u64" where
  "seed_of r1 r2 = xor (push_bit 32 (ucast r1)) (ucast r2)"

definition paillier_new :: "(u64 \<Rightarrow> 'r) \<Rightarrow> u32 \<Rightarrow> u32 \<Rightarrow> paillier \<times> 'r" where
  "paillier_new seed r1 r2 = (paillier_default, seed (seed_of r1 r2))"

fun gen_prime_loop :: "gmp \<Rightarrow> 'r rng \<Rightarrow> nat \<Rightarrow> nat \<Rightarrow> 'r \<Rightarrow> crypto_error + int \<times> 'r" where
  "gen_prime_loop G R bits 0 s = Inl GenPrimeExhausted"
| "gen_prime_loop G R bits (Suc attempts) s =
     (let (p0, s') = get_z_bits R s bits;
          p1 = mpz_setbit G p0 (bits - 1);
          p2 = mpz_setbit G p1 (bits - 2);
          p = mpz_nextprime G p2
      in if mpz_sizeinbase2 G p = bits then Inr (p, s')
         else gen_prime_loop G R bits attempts s')"

definition gen_prime :: "gmp \<Rightarrow> 'r rng \<Rightarrow> nat \<Rightarrow> 'r \<Rightarrow> crypto_error + int \<times> 'r" where
  "gen_prime G R bits s = gen_prime_loop G R bits 32 s"

text \<open>The loop of \<^verbatim>\<open>keyGen\<close>: both primes, drawn again until their product has \<open>bits\<close> bits.\<close>

fun key_loop :: "gmp \<Rightarrow> 'r rng \<Rightarrow> nat \<Rightarrow> nat \<Rightarrow> 'r \<Rightarrow> crypto_error + (int \<times> int) \<times> 'r" where
  "key_loop G R bits 0 s = Inl KeyGenExhausted"
| "key_loop G R bits (Suc attempts) s =
     (case gen_prime G R (bits div 2) s of Inl e \<Rightarrow> Inl e
      | Inr (p, s1) \<Rightarrow>
          (case gen_prime G R (bits div 2) s1 of Inl e \<Rightarrow> Inl e
           | Inr (q, s2) \<Rightarrow>
               if mpz_sizeinbase2 G (p * q) = bits then Inr ((p, q), s2)
               else key_loop G R bits attempts s2))"

definition paillier_L :: "gmp \<Rightarrow> int \<Rightarrow> int \<Rightarrow> crypto_error + int" where
  "paillier_L G n x =
     (if \<not> mpz_congruent_p G x 1 n then Inl AssertionFailed
      else if n = 0 then Inl DivisionByZero
      else Inr ((x - 1) sdiv n))"

text \<open>A failed inversion is only reported on \<^verbatim>\<open>cerr\<close>; \<open>mu\<close> is then whatever GMP left.\<close>

definition key_gen :: "gmp \<Rightarrow> 'r rng \<Rightarrow> nat \<Rightarrow> 'r \<Rightarrow> crypto_error + paillier \<times> 'r" where
  "key_gen G R bits s =
     (case key_loop G R bits 8 s of Inl e \<Rightarrow> Inl e
      | Inr ((p, q), s2) \<Rightarrow>
          let n = p * q;
              n_sq = n * n;
              lambda = mpz_lcm G (p - 1) (q - 1);
              g = n + 1;
              g_lambda = mpz_powm G g lambda n_sq
          in (case paillier_L G n g_lambda of Inl e \<Rightarrow> Inl e
              | Inr l \<Rightarrow>
                  let mu = snd (mpz_invert G l n);
                      (e_m, s3) = get_z_range R s2 n;
                      d_m = n - e_m;
                      (r, s4) = get_z_bits R s3 992;
                      r_m = (if r = 0 then 1 else r)
                  in Inr (\<lparr>kp = p, kq = q, kn = n, kn_sq = n_sq, klambda = lambda, kg = g,
                           kmu = mu, ke_m = e_m, kd_m = d_m, kr_m = r_m\<rparr>, s4)))"

text \<open>\<^verbatim>\<open>encrypt\<close> draws until it gets a non-zero number; a generator stuck at zero never returns.\<close>

partial_function (option) pick_nonzero :: "'r rng \<Rightarrow> int \<Rightarrow> 'r \<Rightarrow> (int \<times> 'r) option" where
  "pick_nonzero R n s =
     (if fst (get_z_range R s n) = 0 then pick_nonzero R n (snd (get_z_range R s n))
      else Some (get_z_range R s n))"

definition encrypt_with :: "gmp \<Rightarrow> paillier \<Rightarrow> int \<Rightarrow> int \<Rightarrow> int" where
  "encrypt_with G k m r =
     (let term1 = (1 + m * kn k) smod kn_sq k;
          term2 = mpz_powm G r (kn k) (kn_sq k)
      in (term1 * term2) smod kn_sq k)"

definition encrypt ::
    "gmp \<Rightarrow> 'r rng \<Rightarrow> paillier \<Rightarrow> int \<Rightarrow> 'r \<Rightarrow> (crypto_error + int \<times> 'r) option" where
  "encrypt G R k m s =
     (if kn k = 0 \<or> kn_sq k = 0 then Some (Inl DivisionByZero)
      else map_option (\<lambda>(r, s'). Inr (encrypt_with G k m r, s')) (pick_nonzero R (kn k) s))"

definition decrypt :: "gmp \<Rightarrow> paillier \<Rightarrow> int \<Rightarrow> crypto_error + int" where
  "decrypt G k c =
     (if kn_sq k = 0 then Inl DivisionByZero
      else case paillier_L G (kn k) (mpz_powm G c (klambda k) (kn_sq k)) of
             Inl e \<Rightarrow> Inl e
           | Inr l \<Rightarrow> Inr ((l * kmu k) smod kn k))"

definition paillier_add :: "paillier \<Rightarrow> int \<Rightarrow> int \<Rightarrow> crypto_error + int" where
  "paillier_add k c1 c2 =
     (if kn_sq k = 0 then Inl DivisionByZero else Inr ((c1 * c2) smod kn_sq k))"

definition blind_notification_with :: "gmp \<Rightarrow> paillier \<Rightarrow> int \<Rightarrow> int \<Rightarrow> int" where
  "blind_notification_with G k x r_rand =
     (let e = (kr_m k * x + r_rand) * klambda k;
          term1 = mpz_powm G (kg k) (ke_m k) (kn_sq k);
          term2 = mpz_powm G (kg k) e (kn_sq k)
      in (term1 * term2) smod kn_sq k)"

definition blind_notification ::
    "gmp \<Rightarrow> 'r rng \<Rightarrow> paillier \<Rightarrow> int \<Rightarrow> 'r \<Rightarrow> crypto_error + int \<times> 'r" where
  "blind_notification G R k x s =
     (if kr_m k = 0 \<or> kn_sq k = 0 then Inl DivisionByZero
      else let (r, s') = get_z_range R s (kr_m k);
               r_rand = (if r = 0 then 1 else r)
           in Inr (blind_notification_with G k x r_rand, s'))"

definition blind_subscription_with :: "gmp \<Rightarrow> paillier \<Rightarrow> int \<Rightarrow> int" where
  "blind_subscription_with G k E_neg_v =
     (let e = kr_m k * klambda k;
          term1 = mpz_powm G (kg k) (kd_m k) (kn_sq k);
          term2 = mpz_powm G E_neg_v e (kn_sq k)
      in (term1 * term2) smod kn_sq k)"

definition blind_subscription :: "gmp \<Rightarrow> paillier \<Rightarrow> int \<Rightarrow> crypto_error + int" where
  "blind_subscription G k E_neg_v =
     (if kn_sq k = 0 then Inl DivisionByZero else Inr (blind_subscription_with G k E_neg_v))"

definition paillier_match :: "gmp \<Rightarrow> paillier \<Rightarrow> int \<Rightarrow> int \<Rightarrow> crypto_error + int" where
  "paillier_match G k bval_n bval_m =
     (if kn_sq k = 0 then Inl DivisionByZero
      else case paillier_L G (kn k) ((bval_n * bval_m) smod kn_sq k) of
             Inl e \<Rightarrow> Inl e
           | Inr l \<Rightarrow> Inr ((l * kmu k) smod kn k))"

definition set_params ::
    "int \<Rightarrow> int \<Rightarrow> int \<Rightarrow> int \<Rightarrow> int \<Rightarrow> int \<Rightarrow> int \<Rightarrow> paillier \<Rightarrow> paillier" where
  "set_params n g mu lambda e_m d_m r_m k =
     k\<lparr>kn := n, kg := g, kmu := mu, klambda := lambda, kn_sq := n * n,
       ke_m := e_m, kd_m := d_m, kr_m := r_m\<rparr>"

section \<open>Well-formed keys\<close>

definition key_params :: "int \<Rightarrow> int \<Rightarrow> paillier \<Rightarrow> bool" where
  "key_params p q k \<longleftrightarrow>
     is_prime p \<and> is_prime q \<and> p \<noteq> q \<and> kn k = p * q \<and> kn_sq k = kn k * kn k \<and>
     klambda k = lcm (p - 1) (q - 1) \<and> kg k = kn k + 1 \<and>
     (klambda k * kmu k) mod kn k = 1 \<and> 0 \<le> kmu k \<and>
     0 \<le> ke_m k \<and> ke_m k < kn k \<and> kd_m k = kn k - ke_m k \<and> 1 \<le> kr_m k"

lemma key_params_pos:
  assumes "key_params p q k"
  shows "1 < p" "1 < q" "1 < kn k" "0 < kn_sq k" "0 < klambda k" "0 \<le> kmu k"
    "0 \<le> ke_m k" "0 \<le> kd_m k" "1 \<le> kr_m k" "kn k \<noteq> 0" "kn_sq k \<noteq> 0"
proof -
  show p: "1 < p" and q: "1 < q" using assms by (simp_all add: key_params_def is_prime_def)
  have "1 * 1 < p * q" using p q by (intro mult_strict_mono) simp_all
  then show n: "1 < kn k" using assms by (simp add: key_params_def)
  then show "0 < kn_sq k" using assms by (simp add: key_params_def)
  have "lcm (p - 1) (q - 1) \<noteq> 0" using p q by (simp add: lcm_eq_0_iff)
  moreover have "0 \<le> lcm (p - 1) (q - 1)" by simp
  ultimately have "0 < lcm (p - 1) (q - 1)" by linarith
  then show "0 < klambda k" using assms by (simp add: key_params_def)
  show "0 \<le> kmu k" "0 \<le> ke_m k" "0 \<le> kd_m k" "1 \<le> kr_m k" "kn k \<noteq> 0"
    using assms n by (auto simp: key_params_def)
  show "kn_sq k \<noteq> 0" using \<open>0 < kn_sq k\<close> by simp
qed

lemma key_params_unit: "key_params p q k \<Longrightarrow> (klambda k * kmu k) mod kn k = 1"
  unfolding key_params_def by blast

lemma key_params_sq: "key_params p q k \<Longrightarrow> kn_sq k = kn k * kn k"
  by (simp only: key_params_def)

lemma key_params_g: "key_params p q k \<Longrightarrow> kg k = 1 + 1 * kn k"
  by (simp add: key_params_def)

lemma key_params_sum: "key_params p q k \<Longrightarrow> kd_m k = kn k - ke_m k"
  by (simp only: key_params_def)

text \<open>Every unit modulo \<open>n\<close> has an order that divides \<open>lambda\<close>.\<close>

lemma unit_power_lambda:
  assumes key: "key_params p q k" and cop: "coprime r (kn k)" and "0 \<le> r"
  shows "kn k dvd r ^ nat (klambda k) - 1"
proof -
  have pq: "is_prime p" "is_prime q" "p \<noteq> q" "kn k = p * q"
    and lam: "klambda k = lcm (p - 1) (q - 1)" using key by (simp_all add: key_params_def)
  have "\<not> p dvd r" "\<not> q dvd r"
    using cop key_params_pos(1,2) [OF key] pq(4)
    by (auto dest!: coprime_common_divisor)
  then have "p dvd r ^ nat (klambda k) - 1" "q dvd r ^ nat (klambda k) - 1"
    using pq assms(3) key_params_pos(5) [OF key] lam
    by (auto intro!: fermat_multiple)
  then show ?thesis
    using divides_mult distinct_primes_coprime [OF pq(1-3)] pq(4) by simp
qed

context gmp_spec
begin

lemma key_powm:
  assumes "key_params p q k" and "0 \<le> e"
  shows "mpz_powm G b e (kn_sq k) = b ^ nat e mod (kn k * kn k)"
  using assms powm [OF assms(2) key_params_pos(4) [OF assms(1)]] by (simp add: key_params_def)

lemma encrypt_with_mod:
  assumes key: "key_params p q k" and "0 \<le> m"
  shows "encrypt_with G k m r = ((1 + m * kn k) * r ^ nat (kn k)) mod (kn k * kn k)"
proof -
  note pos = key_params_pos [OF key]
  note sq = key_params_sq [OF key]
  have "mpz_powm G r (kn k) (kn_sq k) = r ^ nat (kn k) mod (kn k * kn k)"
    using pos by (intro key_powm [OF key]) simp
  moreover have "(1 + m * kn k) smod kn_sq k = (1 + m * kn k) mod (kn k * kn k)"
    using pos assms(2) sq by (simp add: smod_nonneg)
  ultimately show ?thesis
    using pos sq by (simp add: encrypt_with_def smod_nonneg mod_mult_eq)
qed

text \<open>Raising a ciphertext to a multiple of \<open>lambda\<close> removes its randomness.\<close>

lemma encrypt_with_power:
  assumes key: "key_params p q k" and "0 \<le> m" and "0 \<le> c" and "coprime r (kn k)" and "0 \<le> r"
  shows "encrypt_with G k m r ^ nat (c * klambda k) mod (kn k * kn k)
       = (1 + c * klambda k * m * kn k) mod (kn k * kn k)"
proof -
  note pos = key_params_pos [OF key]
  let ?n = "kn k" and ?l = "klambda k" and ?e = "nat (c * klambda k)"
  have "0 \<le> c * ?l" using assms(3) pos(5) by simp
  then have e: "int ?e = c * ?l" by (rule nat_0_le)
  have "encrypt_with G k m r ^ ?e mod (?n * ?n)
      = ((1 + m * ?n) * r ^ nat ?n) ^ ?e mod (?n * ?n)"
    by (simp add: encrypt_with_mod [OF key assms(2)] power_mod)
  also have "\<dots> = (((1 + m * ?n) ^ ?e mod (?n * ?n)) * ((r ^ nat ?n) ^ ?e mod (?n * ?n))) mod (?n * ?n)"
    by (simp add: power_mult_distrib mod_mult_eq)
  also have "(1 + m * ?n) ^ ?e mod (?n * ?n) = (1 + c * ?l * m * ?n) mod (?n * ?n)"
    using one_plus_power_mod [of m ?n ?e] by (simp only: e)
  also have "(r ^ nat ?n) ^ ?e mod (?n * ?n) = 1 mod (?n * ?n)"
  proof -
    have "(r ^ nat ?n) ^ ?e = ((r ^ nat ?l) ^ nat ?n) ^ nat c"
      using assms(3) pos(5) by (simp add: nat_mult_distrib flip: power_mult) (simp add: ac_simps)
    moreover have "(r ^ nat ?l) ^ nat ?n mod (?n * ?n) = 1 mod (?n * ?n)"
      using unit_power_lambda [OF key assms(4,5)] pos(3) by (intro power_n_mod_square) simp_all
    ultimately show ?thesis by (metis power_mod power_one)
  qed
  finally show ?thesis by (simp add: mod_mult_eq mod_mult_left_eq mod_mult_right_eq)
qed

text \<open>\<open>L\<close> reads the coefficient of \<open>n\<close>; the assertion holds.\<close>

lemma paillier_L_linear:
  assumes "1 < n"
  shows "paillier_L G n ((1 + t * n) mod (n * n)) = Inr (t mod n)"
proof -
  have "(1 + t * n) mod (n * n) = 1 + (t mod n) * n" by (rule one_plus_mod_square [OF assms])
  then show ?thesis
    using assms by (simp add: paillier_L_def congruent_p sdiv_nonneg)
qed

text \<open>The scale \<open>lambda\<close> is taken off by \<open>mu\<close>.\<close>

lemma unscale:
  assumes key: "key_params p q k"
  shows "((klambda k * t) mod kn k * kmu k) smod kn k = t mod kn k"
proof -
  note pos = key_params_pos [OF key]
  have "((klambda k * t) mod kn k * kmu k) smod kn k = (klambda k * t) mod kn k * kmu k mod kn k"
    using pos by (simp add: smod_nonneg)
  also have "\<dots> = (t * ((klambda k * kmu k) mod kn k)) mod kn k"
    by (simp add: mod_mult_left_eq mod_mult_right_eq ac_simps)
  also have "\<dots> = t mod kn k" using key_params_unit [OF key] by simp
  finally show ?thesis .
qed

lemma decrypt_encrypt_with:
  assumes key: "key_params p q k" and "0 \<le> m" and "coprime r (kn k)" and "0 \<le> r"
  shows "decrypt G k (encrypt_with G k m r) = Inr (m mod kn k)"
proof -
  note pos = key_params_pos [OF key]
  have "mpz_powm G (encrypt_with G k m r) (klambda k) (kn_sq k)
      = (1 + klambda k * m * kn k) mod (kn k * kn k)"
    using encrypt_with_power [OF key assms(2) _ assms(3,4), of 1] pos
    by (simp add: key_powm [OF key])
  then show ?thesis
    using pos paillier_L_linear [OF pos(3), of "klambda k * m"] unscale [OF key]
    by (simp add: decrypt_def mult.assoc)
qed

text \<open>The product of two ciphertexts is a ciphertext of the sum.\<close>

lemma add_encrypt_with:
  assumes key: "key_params p q k" and "0 \<le> m1" and "0 \<le> m2"
  shows "paillier_add k (encrypt_with G k m1 r1) (encrypt_with G k m2 r2)
       = Inr (encrypt_with G k (m1 + m2) (r1 * r2))"
proof -
  note pos = key_params_pos [OF key]
  let ?n = "kn k" and ?c1 = "encrypt_with G k m1 r1" and ?c2 = "encrypt_with G k m2 r2"
  have c: "?c1 = ((1 + m1 * ?n) * r1 ^ nat ?n) mod (?n * ?n)" "?c2 = ((1 + m2 * ?n) * r2 ^ nat ?n) mod (?n * ?n)"
    "encrypt_with G k (m1 + m2) (r1 * r2) = ((1 + (m1 + m2) * ?n) * (r1 * r2) ^ nat ?n) mod (?n * ?n)"
    using assms(2,3) by (simp_all add: encrypt_with_mod [OF key])
  have "0 \<le> ?c1 * ?c2" using pos by (simp add: c)
  then have "(?c1 * ?c2) smod kn_sq k = (?c1 * ?c2) mod (?n * ?n)"
    using pos(4) key_params_sq [OF key] by (simp add: smod_nonneg)
  also have "\<dots> = (((1 + m1 * ?n) * (1 + m2 * ?n)) * (r1 * r2) ^ nat ?n) mod (?n * ?n)"
    by (simp add: c mod_mult_eq power_mult_distrib ac_simps)
  also have "\<dots> = ((1 + (m1 + m2) * ?n) * (r1 * r2) ^ nat ?n) mod (?n * ?n)"
    using one_plus_mult_mod_square [of m1 ?n m2] by (metis mod_mult_left_eq)
  finally show ?thesis using pos(11) c(3) by (simp add: paillier_add_def)
qed

text \<open>The blinded values are powers of \<open>g\<close>; together their blinding exponents sum to \<open>n\<close>.\<close>

lemma blind_notification_mod:
  assumes key: "key_params p q k" and "0 \<le> x" and "0 \<le> r"
  shows "blind_notification_with G k x r
       = (1 + (ke_m k + (kr_m k * x + r) * klambda k) * kn k) mod (kn k * kn k)"
proof -
  note pos = key_params_pos [OF key]
  let ?n = "kn k" and ?e = "(kr_m k * x + r) * klambda k"
  note g = key_params_g [OF key] and sq = key_params_sq [OF key]
  have e: "0 \<le> ?e" using pos assms by simp
  have pw: "mpz_powm G (kg k) a (kn_sq k) = (1 + a * ?n) mod (?n * ?n)" if "0 \<le> a" for a
    using that one_plus_power_mod [of 1 ?n "nat a"] by (simp add: key_powm [OF key that] g)
  have "blind_notification_with G k x r
      = ((1 + ke_m k * ?n) mod (?n * ?n) * ((1 + ?e * ?n) mod (?n * ?n))) mod (?n * ?n)"
    using pos e sq by (simp add: blind_notification_with_def pw [unfolded sq] smod_nonneg)
  then show ?thesis
    using one_plus_mult_mod_square [of "ke_m k" ?n ?e] by (simp add: mod_mult_eq)
qed

lemma blind_subscription_mod:
  assumes key: "key_params p q k" and "0 \<le> m" and "coprime r (kn k)" and "0 \<le> r"
  shows "blind_subscription_with G k (encrypt_with G k m r)
       = (1 + (kd_m k + kr_m k * klambda k * m) * kn k) mod (kn k * kn k)"
proof -
  note pos = key_params_pos [OF key]
  let ?n = "kn k"
  note g = key_params_g [OF key] and sq = key_params_sq [OF key]
  have "mpz_powm G (kg k) (kd_m k) (kn_sq k) = (1 + kd_m k * ?n) mod (?n * ?n)"
    using pos one_plus_power_mod [of 1 ?n "nat (kd_m k)"] by (simp add: key_powm [OF key] g)
  moreover have "mpz_powm G (encrypt_with G k m r) (kr_m k * klambda k) (kn_sq k)
      = (1 + kr_m k * klambda k * m * ?n) mod (?n * ?n)"
    using pos encrypt_with_power [OF key assms(2) _ assms(3,4), of "kr_m k"]
    by (simp add: key_powm [OF key])
  ultimately have "blind_subscription_with G k (encrypt_with G k m r)
      = ((1 + kd_m k * ?n) mod (?n * ?n) * ((1 + kr_m k * klambda k * m * ?n) mod (?n * ?n)))
          mod (?n * ?n)"
    using pos sq by (simp add: blind_subscription_with_def smod_nonneg)
  then show ?thesis
    using one_plus_mult_mod_square [of "kd_m k" ?n "kr_m k * klambda k * m"]
    by (simp add: mod_mult_eq)
qed

text \<open>The product of the two blinded values, and the plain number the comparison reads.\<close>

lemma blinded_product:
  assumes key: "key_params p q k" and "0 \<le> x" and "0 \<le> r" and "0 \<le> m"
    and "coprime r' (kn k)" and "0 \<le> r'"
  shows "(blind_notification_with G k x r
            * blind_subscription_with G k (encrypt_with G k m r')) mod (kn k * kn k)
       = (1 + klambda k * (kr_m k * (x + m) + r) * kn k) mod (kn k * kn k)"
proof -
  let ?n = "kn k" and ?a = "ke_m k + (kr_m k * x + r) * klambda k"
    and ?b = "kd_m k + kr_m k * klambda k * m" and ?t = "klambda k * (kr_m k * (x + m) + r)"
  have "?a + ?b = ?n + ?t" using key_params_sum [OF key] by (simp add: algebra_simps)
  then have "1 + (?a + ?b) * ?n = 1 + ?t * ?n + ?n * ?n" by (simp add: distrib_right)
  then have "(1 + (?a + ?b) * ?n) mod (?n * ?n) = (1 + ?t * ?n + ?n * ?n) mod (?n * ?n)"
    by (rule arg_cong)
  also have "\<dots> = (1 + ?t * ?n) mod (?n * ?n)" by simp
  finally show ?thesis
    using one_plus_mult_mod_square [of ?a ?n ?b]
    by (simp add: blind_notification_mod [OF key assms(2,3)]
        blind_subscription_mod [OF key assms(4-6)] mod_mult_eq)
qed

lemma paillier_match_value:
  assumes key: "key_params p q k" and "0 \<le> x" and "0 \<le> r" and "0 \<le> m"
    and "coprime r' (kn k)" and "0 \<le> r'"
  shows "paillier_match G k (blind_notification_with G k x r)
           (blind_subscription_with G k (encrypt_with G k m r'))
       = Inr ((kr_m k * (x + m) + r) mod kn k)"
proof -
  note pos = key_params_pos [OF key]
  let ?y = "blind_notification_with G k x r * blind_subscription_with G k (encrypt_with G k m r')"
  have "0 \<le> blind_notification_with G k x r"
    "0 \<le> blind_subscription_with G k (encrypt_with G k m r')"
    using pos by (simp_all add: blind_notification_mod [OF key assms(2,3)]
        blind_subscription_mod [OF key assms(4-6)])
  then have "?y smod kn_sq k = ?y mod (kn k * kn k)"
    using pos key_params_sq [OF key] by (simp add: smod_nonneg)
  then show ?thesis
    using blinded_product [OF assms] pos paillier_L_linear [OF pos(3)] unscale [OF key]
    by (simp add: paillier_match_def)
qed

end

end
