(* ===== verification/KeyGen.thy ===== *)
theory KeyGen
  imports Paillier
begin

text \<open>
  What \<^verbatim>\<open>Paillier::keyGen\<close> and the random draws of \<^verbatim>\<open>encrypt\<close> deliver
  (\<^verbatim>\<open>src/crypto/Paillier.cpp\<close>): both primes have their two top bits set, so the modulus has
  exactly the requested length at the first attempt; primes of one length never divide each
  other's predecessor, so the inverse \<open>mu\<close> exists and the assertion of \<open>L\<close> holds. The seed of the
  constructor bounds the number of keys.
\<close>

section \<open>Arithmetic of two primes of one length\<close>

lemma top_bits:
  fixes x :: int
  assumes "0 \<le> x" and "2 \<le> b"
  shows "3 * 2 ^ (b - 2) \<le> or (or x (2 ^ (b - 1))) (2 ^ (b - 2))"
proof -
  have b: "b - 1 = Suc (b - 2)" using assms(2) by simp
  have "bit (2 ^ (b - 1) :: int) i \<Longrightarrow> \<not> bit (2 ^ (b - 2) :: int) i" for i
    using assms(2) by (auto simp: bit_simps)
  then have "or (2 ^ (b - 1)) (2 ^ (b - 2)) = (2 ^ (b - 1) + 2 ^ (b - 2) :: int)"
    by (intro disjunctive_add [symmetric]) blast
  also have "\<dots> = 3 * 2 ^ (b - 2)" unfolding b by simp
  finally have "or (or x (2 ^ (b - 1))) (2 ^ (b - 2)) = or (3 * 2 ^ (b - 2)) x"
    by (simp add: or.assoc or.commute or.left_commute)
  then show ?thesis using or_greater_eq [OF assms(1), of "3 * 2 ^ (b - 2)"] by simp
qed

lemma product_bits:
  fixes p q :: int
  assumes "2 \<le> h" and "3 * 2 ^ (h - 2) \<le> p" and "3 * 2 ^ (h - 2) \<le> q"
    and "p < 2 ^ h" and "q < 2 ^ h"
  shows "2 ^ (2 * h - 1) \<le> p * q" and "p * q < 2 ^ (2 * h)"
proof -
  let ?u = "2 ^ (h - 2) :: int"
  have "h = h - 2 + 2" using assms(1) by simp
  then have h: "(2 ^ h :: int) = 4 * ?u" by (metis mult.commute power2_eq_square power_add numeral_Bit0 mult_2_right)
  have "2 * h - 1 = (h - 2) + (h - 2) + 3" using assms(1) by simp
  then have e: "(2 ^ (2 * h - 1) :: int) = 8 * (?u * ?u)" by (simp only: power_add) simp
  have "0 < ?u" by simp
  then have "0 \<le> p" "0 \<le> q" using assms(2,3) by linarith+
  then have "(3 * ?u) * (3 * ?u) \<le> p * q" using assms by (intro mult_mono) simp_all
  moreover have "8 * (?u * ?u) \<le> (3 * ?u) * (3 * ?u)" by simp
  ultimately show "2 ^ (2 * h - 1) \<le> p * q" using e by linarith
  have "p * q < 2 ^ h * 2 ^ h" using \<open>0 \<le> p\<close> \<open>0 \<le> q\<close> assms(4,5) by (intro mult_strict_mono') simp_all
  then show "p * q < 2 ^ (2 * h)" by (simp add: mult_2 power_add)
qed

lemma prime_even: "is_prime p \<Longrightarrow> 2 dvd p \<Longrightarrow> p = 2"
  by (auto simp: is_prime_def dest!: spec [of _ 2])

lemma same_length_not_dvd:
  assumes "is_prime p" and "is_prime q" and "2 \<le> h" and "3 * 2 ^ (h - 2) < p" and "3 * 2 ^ (h - 2) < q"
    and "q < 2 ^ h"
  shows "\<not> p dvd q - 1"
proof
  assume "p dvd q - 1"
  then obtain c where c: "q - 1 = p * c" by (elim dvdE)
  let ?u = "2 ^ (h - 2) :: int"
  have "h = h - 2 + 2" using assms(3) by simp
  then have h: "(2 ^ h :: int) = 4 * ?u" by (metis mult.commute power2_eq_square power_add numeral_Bit0 mult_2_right)
  have u: "1 \<le> ?u" by simp
  then have p: "3 < p" and q: "3 < q" using assms(4,5) by linarith+
  have "c \<noteq> 1"
  proof
    assume "c = 1"
    then have "2 dvd p \<or> 2 dvd q" using c by presburger
    then show False using prime_even assms(1,2) p q by fastforce
  qed
  moreover have "0 < p * c" using c q by linarith
  then have "0 < c" using p by (simp add: zero_less_mult_iff)
  ultimately have "p * 2 \<le> p * c" using p by (intro mult_left_mono) linarith+
  then show False using c h assms(4,6) u by linarith
qed

lemma prime_pred_coprime: "is_prime p \<Longrightarrow> coprime p (p - 1)"
  by (rule prime_coprime) (auto simp: is_prime_def dest: zdvd_imp_le)

lemma lcm_coprime_prime:
  assumes "is_prime p" and "\<not> p dvd a" and "\<not> p dvd b"
  shows "coprime p (lcm a b)"
proof -
  have "lcm a b dvd a * b" by (simp add: lcm_least)
  moreover have "coprime p (a * b)"
    using prime_coprime [OF assms(1,2)] prime_coprime [OF assms(1,3)] by simp
  ultimately show ?thesis by (meson coprime_divisors dvd_refl)
qed

lemma lambda_coprime:
  assumes "is_prime p" and "is_prime q" and "\<not> p dvd q - 1" and "\<not> q dvd p - 1"
  shows "coprime (lcm (p - 1) (q - 1)) (p * q)"
proof -
  have "\<not> p dvd p - 1" "\<not> q dvd q - 1"
    using assms(1,2) by (auto simp: is_prime_def dest: zdvd_imp_le)
  then have "coprime p (lcm (p - 1) (q - 1))" "coprime q (lcm (p - 1) (q - 1))"
    using assms by (auto intro!: lcm_coprime_prime)
  then show ?thesis by (simp add: coprime_commute)
qed

section \<open>The draws of encrypt\<close>

text \<open>The draw loop returns exactly when some draw is not zero, and then what it drew is not.\<close>

fun redraw :: "'r rng \<Rightarrow> int \<Rightarrow> nat \<Rightarrow> 'r \<Rightarrow> 'r" where
  "redraw R n 0 s = s"
| "redraw R n (Suc i) s = redraw R n i (snd (get_z_range R s n))"

lemma pick_nonzero_result:
  assumes "pick_nonzero R n s = Some rs"
  shows "fst rs \<noteq> 0 \<and> (\<exists>i. rs = get_z_range R (redraw R n i s) n)"
proof (rule pick_nonzero.raw_induct [OF _ assms])
  fix pick R n s rs
  assume IH: "\<And>R n s rs. pick R n s = Some rs \<Longrightarrow>
      fst rs \<noteq> (0::int) \<and> (\<exists>i. rs = get_z_range R (redraw R n i s) n)"
    and step: "(if fst (get_z_range R s n) = 0 then pick R n (snd (get_z_range R s n))
                else Some (get_z_range R s n)) = Some rs"
  show "fst rs \<noteq> 0 \<and> (\<exists>i. rs = get_z_range R (redraw R n i s) n)"
  proof (cases "fst (get_z_range R s n) = 0")
    case True
    with step IH obtain i where "fst rs \<noteq> 0" "rs = get_z_range R (redraw R n i (snd (get_z_range R s n))) n"
      by fastforce
    then have "fst rs \<noteq> 0 \<and> rs = get_z_range R (redraw R n (Suc i) s) n" by simp
    then show ?thesis by blast
  next
    case False
    with step have "rs = get_z_range R s n" by simp
    with False show ?thesis by (auto intro!: exI [of _ 0])
  qed
qed

lemma pick_nonzero_returns:
  "fst (get_z_range R (redraw R n i s) n) \<noteq> 0 \<Longrightarrow> \<exists>rs. pick_nonzero R n s = Some rs"
proof (induction i arbitrary: s)
  case 0
  then show ?case by (subst pick_nonzero.simps) simp
next
  case (Suc i)
  then show ?case
    by (subst pick_nonzero.simps) simp
qed

lemma pick_nonzero_range:
  assumes "rng_spec R" and "0 < n" and "pick_nonzero R n s = Some (r, s')"
  shows "0 < r \<and> r < n"
  using pick_nonzero_result [OF assms(3)] rng_spec.range [OF assms(1,2)]
  by (metis fst_conv order_le_less)

section \<open>Key generation\<close>

locale crypto_lib = gmp_spec G + rng_spec R for G :: gmp and R :: "'r rng"
begin

lemma gen_prime_loop_range:
  assumes "2 \<le> b" and "gen_prime_loop G R b a s = Inr (p, s')"
  shows "is_prime p \<and> 3 * 2 ^ (b - 2) < p \<and> p < 2 ^ b"
  using assms(2)
proof (induction a arbitrary: s)
  case 0
  then show ?case by simp
next
  case (Suc a)
  obtain p0 t where d: "get_z_bits R s b = (p0, t)" by (metis surj_pair)
  have p0: "0 \<le> p0" using bits [of s b] d by simp
  let ?p2 = "or (or p0 (2 ^ (b - 1))) (2 ^ (b - 2))"
  have set2: "mpz_setbit G (mpz_setbit G p0 (b - 1)) (b - 2) = ?p2"
    using p0 by (simp add: setbit or_nonnegative_int_iff)
  show ?case
  proof (cases "mpz_sizeinbase2 G (mpz_nextprime G ?p2) = b")
    case True
    then have p: "p = mpz_nextprime G ?p2" using Suc.prems by (simp add: d set2 del: One_nat_def)
    then have "is_prime p" "?p2 < p" using nextprime by simp_all
    moreover from this have "p < 2 ^ b"
      using sizeinbase2 [of p] True p by (simp add: is_prime_def)
    ultimately show ?thesis using top_bits [OF p0 assms(1)] by auto
  next
    case False
    then show ?thesis using Suc by (simp add: d set2 del: One_nat_def)
  qed
qed

lemmas gen_prime_range = gen_prime_loop_range [where a = 32, folded gen_prime_def]

lemma gen_prime_error: "gen_prime_loop G R b a s = Inl e \<Longrightarrow> e = GenPrimeExhausted"
  by (induction a arbitrary: s) (auto simp: Let_def split: prod.splits if_splits)

text \<open>One round of the key loop is enough for an even length of at least four bits.\<close>

lemma key_loop_first:
  assumes "2 \<le> h"
  shows "key_loop G R (2 * h) (Suc a) s =
    (case gen_prime G R h s of Inl e \<Rightarrow> Inl e
     | Inr (p, s1) \<Rightarrow> (case gen_prime G R h s1 of Inl e \<Rightarrow> Inl e
                       | Inr (q, s2) \<Rightarrow> Inr ((p, q), s2)))"
proof -
  have "mpz_sizeinbase2 G (p * q) = 2 * h"
    if "gen_prime G R h s = Inr (p, s1)" "gen_prime G R h s1 = Inr (q, s2)" for p q s1 s2
    using gen_prime_range [OF assms that(1)] gen_prime_range [OF assms that(2)]
      product_bits [OF assms, of p q]
    by (intro sizeinbase2_unique) simp_all
  then show ?thesis by (auto split: sum.splits)
qed

lemma key_loop_result:
  assumes "2 \<le> h" and "key_loop G R (2 * h) (Suc a) s = Inr ((p, q), s')"
  shows "is_prime p \<and> is_prime q \<and> 3 * 2 ^ (h - 2) < p \<and> 3 * 2 ^ (h - 2) < q \<and> p < 2 ^ h \<and> q < 2 ^ h"
  using assms(2) gen_prime_range [OF assms(1)]
  by (auto simp: key_loop_first [OF assms(1)] simp del: key_loop.simps
      split: sum.splits prod.splits)

lemma key_loop_error:
  assumes "2 \<le> h" and "key_loop G R (2 * h) (Suc a) s = Inl e"
  shows "e = GenPrimeExhausted"
  using assms(2) gen_prime_error
  by (auto simp: key_loop_first [OF assms(1)] gen_prime_def simp del: key_loop.simps
      split: sum.splits prod.splits)

text \<open>The inverse exists, and \<open>L(g\<^sup>\<lambda>)\<close> passes its assertion.\<close>

lemma mu_step:
  assumes "1 < n" and "0 \<le> l" and "coprime l n"
  shows "paillier_L G n (mpz_powm G (n + 1) l (n * n)) = Inr (l mod n)"
    and "(l * snd (mpz_invert G (l mod n) n)) mod n = 1"
    and "0 \<le> snd (mpz_invert G (l mod n) n)"
proof -
  have "mpz_powm G (n + 1) l (n * n) = (1 + l * n) mod (n * n)"
    using assms one_plus_power_mod [of 1 n "nat l"] powm [of l "n * n" "n + 1"]
    by (simp add: add.commute)
  then show "paillier_L G n (mpz_powm G (n + 1) l (n * n)) = Inr (l mod n)"
    using paillier_L_linear [OF assms(1)] by simp
  have "coprime (l mod n) n" using assms(1,3) by simp
  from invert [OF _ this] assms(1)
  show "(l * snd (mpz_invert G (l mod n) n)) mod n = 1" and "0 \<le> snd (mpz_invert G (l mod n) n)"
    by (simp_all add: mod_mult_left_eq)
qed

lemma key_gen_cases:
  assumes "2 \<le> h"
  shows "key_gen G R (2 * h) s = Inl GenPrimeExhausted \<or>
    (\<exists>k s'. key_gen G R (2 * h) s = Inr (k, s') \<and> kn k = kp k * kq k \<and>
       is_prime (kp k) \<and> is_prime (kq k) \<and> 2 ^ (2 * h - 1) \<le> kn k \<and> kn k < 2 ^ (2 * h) \<and>
       1 \<le> kr_m k \<and> kr_m k < 2 ^ 992 \<and> kn_sq k = kn k * kn k \<and> kg k = kn k + 1 \<and>
       0 \<le> klambda k \<and> 0 \<le> kmu k \<and> 0 \<le> ke_m k \<and> 0 \<le> kd_m k \<and>
       (kp k \<noteq> kq k \<longrightarrow> key_params (kp k) (kq k) k))"
proof (cases "key_loop G R (2 * h) 8 s")
  case (Inl e)
  then have "e = GenPrimeExhausted" using key_loop_error [OF assms, of 7] by (simp add: eval_nat_numeral)
  with Inl show ?thesis by (simp add: key_gen_def)
next
  case (Inr pqs)
  obtain p q s2 where pqs: "pqs = ((p, q), s2)" by (metis surj_pair)
  have P: "is_prime p" "is_prime q" "3 * 2 ^ (h - 2) < p" "3 * 2 ^ (h - 2) < q" "p < 2 ^ h" "q < 2 ^ h"
    using key_loop_result [OF assms, of 7] Inr pqs by (simp_all add: eval_nat_numeral)
  let ?n = "p * q" and ?l = "lcm (p - 1) (q - 1)"
  have big: "2 ^ (2 * h - 1) \<le> ?n" "?n < 2 ^ (2 * h)"
    using product_bits [OF assms] P by simp_all
  have pq: "1 < p" "1 < q" using P(1,2) by (simp_all add: is_prime_def)
  have "1 * 1 < p * q" using pq by (intro mult_strict_mono) simp_all
  then have n1: "1 < ?n" by simp
  have cop: "coprime ?l ?n"
    using P same_length_not_dvd [OF P(1,2) assms] same_length_not_dvd [OF P(2,1) assms]
    by (intro lambda_coprime) simp_all
  note mu = mu_step [OF n1 _ cop]
  obtain e_m s3 where e: "get_z_range R s2 ?n = (e_m, s3)" by (metis surj_pair)
  obtain r s4 where r: "get_z_bits R s3 992 = (r, s4)" by (metis surj_pair)
  have e_m: "0 \<le> e_m" "e_m < ?n" using range [of ?n s2] n1 e by simp_all
  have r_m: "0 \<le> r" "r < 2 ^ 992" using bits [of s3 992] r by simp_all
  define k where "k = \<lparr>kp = p, kq = q, kn = ?n, kn_sq = ?n * ?n, klambda = ?l, kg = ?n + 1,
      kmu = snd (mpz_invert G (?l mod ?n) ?n), ke_m = e_m, kd_m = ?n - e_m,
      kr_m = (if r = 0 then 1 else r)\<rparr>"
  have "key_gen G R (2 * h) s = Inr (k, s4)"
    using mu(1) by (simp add: key_gen_def Inr pqs lcm_eq e r k_def Let_def)
  moreover have "key_params p q k" if "p \<noteq> q"
    unfolding key_params_def using that P(1,2) mu(2,3) e_m r_m by (simp add: k_def)
  moreover have "1 \<le> kr_m k \<and> kr_m k < 2 ^ 992" using r_m by (simp add: k_def)
  moreover have "0 \<le> kmu k \<and> 0 \<le> ke_m k \<and> 0 \<le> kd_m k" using mu(3) e_m by (simp add: k_def)
  ultimately show ?thesis using P(1,2) big by (simp add: k_def)
qed

end

section \<open>The seed\<close>

text \<open>Both readings count: every 64-bit seed comes from exactly one pair of them.\<close>

lemma seed_of_bits:
  "ucast (seed_of r1 r2) = r2" "ucast (drop_bit 32 (seed_of r1 r2)) = r1"
proof -
  have "bit (ucast (seed_of r1 r2) :: u32) i = bit r2 i" if "i < 32" for i
    using that by (simp add: seed_of_def bit_simps)
  then show "ucast (seed_of r1 r2) = r2" by (intro bit_word_eqI) simp
  have "bit (ucast (drop_bit 32 (seed_of r1 r2)) :: u32) i = bit r1 i" if "i < 32" for i
    using that by (auto simp: seed_of_def bit_simps dest: bit_imp_le_length)
  then show "ucast (drop_bit 32 (seed_of r1 r2)) = r1" by (intro bit_word_eqI) simp
qed

lemma seed_of_inj: "inj (\<lambda>(r1, r2). seed_of r1 r2)"
proof (rule injI)
  fix x y :: "u32 \<times> u32"
  assume "(case x of (r1, r2) \<Rightarrow> seed_of r1 r2) = (case y of (r1, r2) \<Rightarrow> seed_of r1 r2)"
  then show "x = y" using seed_of_bits by (cases x; cases y) (metis case_prod_conv)
qed

lemma seed_of_surj: "surj (\<lambda>(r1, r2). seed_of r1 r2)"
proof -
  have "card (range (\<lambda>(r1 :: u32, r2 :: u32). seed_of r1 r2)) = card (UNIV :: (u32 \<times> u32) set)"
    by (rule card_image [OF seed_of_inj])
  also have "\<dots> = card (UNIV :: u64 set)"
    by (simp add: card_cartesian_product card_word flip: UNIV_Times_UNIV)
  finally show ?thesis by (intro card_subset_eq) simp_all
qed

text \<open>So a process has at most \<open>2 ^ 64\<close> keys to choose from, whatever their length.\<close>

lemma generated_keys:
  "finite {key_gen G R n (snd (paillier_new seed r1 r2)) | r1 r2. True}"
  "card {key_gen G R n (snd (paillier_new seed r1 r2)) | r1 r2. True} \<le> 2 ^ 64"
proof -
  let ?K = "{key_gen G R n (snd (paillier_new seed r1 r2)) | r1 r2. True}"
  have K: "?K \<subseteq> (\<lambda>w. key_gen G R n (seed w)) ` UNIV" by (auto simp: paillier_new_def)
  then show "finite ?K" by (rule finite_subset) simp
  have "card ?K \<le> card ((\<lambda>w. key_gen G R n (seed w)) ` (UNIV :: u64 set))" by (rule card_mono [OF _ K]) simp
  also have "\<dots> \<le> card (UNIV :: u64 set)" by (rule card_image_le) simp
  finally show "card ?K \<le> 2 ^ 64" by (simp add: card_word)
qed

interpretation ref_crypto: crypto_lib gmp_ref rng_ref
  by unfold_locales

end
