(* ===== verification/Stdlib.thy ===== *)
theory Stdlib
  imports Prelude
begin

text \<open>
  The pieces of the C++ and POSIX libraries the program parses its text with: \<^verbatim>\<open>std::getline\<close>,
  \<^verbatim>\<open>std::stoi\<close>, \<^verbatim>\<open>std::string::find\<close>, \<^verbatim>\<open>inet_pton\<close> and \<^verbatim>\<open>inet_ntoa\<close>. Exceptions are values of
  \<^verbatim>\<open>std_error\<close>.
\<close>

datatype std_error = InvalidArgument | OutOfRange

section \<open>Lines of a text file\<close>

text \<open>\<^verbatim>\<open>getline\<close> fails at the end of the input and otherwise takes the characters up to a line break.\<close>

definition newline :: char where "newline = CHR 0x0A"

definition get_line :: "string \<Rightarrow> (string \<times> string) option" where
  "get_line s =
     (if s = [] then None
      else Some (takeWhile (\<lambda>c. c \<noteq> newline) s, drop 1 (dropWhile (\<lambda>c. c \<noteq> newline) s)))"

lemma get_line_shorter: "get_line s = Some (l, r) \<Longrightarrow> length r < length s"
  using length_dropWhile_le [of "\<lambda>c. c \<noteq> newline" s]
  by (cases s) (auto simp: get_line_def)

lemma get_line_written:
  "newline \<notin> set l \<Longrightarrow> get_line (l @ newline # r) = Some (l, r)"
proof -
  assume l: "newline \<notin> set l"
  then have "takeWhile (\<lambda>c. c \<noteq> newline) (l @ newline # r) = l"
    "dropWhile (\<lambda>c. c \<noteq> newline) (l @ newline # r) = newline # r"
    by (induction l) auto
  then show ?thesis by (simp add: get_line_def)
qed

text \<open>All lines of a file.\<close>

function lines_of :: "string \<Rightarrow> string list" where
  "lines_of s = (case get_line s of None \<Rightarrow> [] | Some (l, r) \<Rightarrow> l # lines_of r)"
  by auto

termination by (relation "measure length") (auto dest: get_line_shorter)

declare lines_of.simps [simp del]

lemma lines_of_Nil [simp]: "lines_of [] = []"
  by (simp add: lines_of.simps get_line_def)

lemma lines_of_written:
  "newline \<notin> set l \<Longrightarrow> lines_of (l @ newline # r) = l # lines_of r"
  by (simp add: lines_of.simps [of "l @ newline # r"] get_line_written)

text \<open>The text that writing lines one by one produces, and reading it back.\<close>

definition write_lines :: "string list \<Rightarrow> string" where
  "write_lines ls = concat (map (\<lambda>l. l @ [newline]) ls)"

lemma lines_of_write_lines:
  "\<forall>l \<in> set ls. newline \<notin> set l \<Longrightarrow> lines_of (write_lines ls) = ls"
proof (induction ls)
  case Nil
  then show ?case by (simp add: write_lines_def)
next
  case (Cons l ls)
  have "write_lines (l # ls) = l @ newline # write_lines ls" by (simp add: write_lines_def)
  with Cons show ?case by (simp add: lines_of_written)
qed

section \<open>Searching a string\<close>

text \<open>\<^verbatim>\<open>find(c)\<close>: the first position, or \<^verbatim>\<open>npos\<close>, here \<open>None\<close>.\<close>

definition find_char :: "char \<Rightarrow> string \<Rightarrow> nat option" where
  "find_char c s =
     (let n = length (takeWhile (\<lambda>x. x \<noteq> c) s) in if n = length s then None else Some n)"

lemma takeWhile_full: "length (takeWhile P s) = length s \<longleftrightarrow> (\<forall>x \<in> set s. P x)"
  by (induction s) auto

lemma find_char_None: "find_char c s = None \<longleftrightarrow> c \<notin> set s"
  using takeWhile_full [of "\<lambda>x. x \<noteq> c" s] by (auto simp: find_char_def Let_def)

lemma find_char_Some:
  assumes "find_char c s = Some n"
  shows "s = take n s @ c # drop (n + 1) s" and "c \<notin> set (take n s)"
proof -
  let ?w = "takeWhile (\<lambda>x. x \<noteq> c) s"
  have n: "n = length ?w" "length ?w \<noteq> length s"
    using assms by (auto simp: find_char_def Let_def split: if_splits)
  have w: "take n s = ?w" unfolding n(1) by (rule takeWhile_eq_take [symmetric])
  then show "c \<notin> set (take n s)" by (auto dest: set_takeWhileD)
  have lt: "length ?w < length s" using n(2) length_takeWhile_le [of "\<lambda>x. x \<noteq> c" s] by linarith
  have "\<not> s ! length ?w \<noteq> c" using nth_length_takeWhile [OF lt] .
  then have "s ! n = c" using n(1) by simp
  moreover have "n < length s" using lt n(1) by simp
  ultimately show "s = take n s @ c # drop (n + 1) s" using id_take_nth_drop [of n s] by simp
qed

section \<open>Integers\<close>

definition is_space :: "char \<Rightarrow> bool" where
  "is_space c \<longleftrightarrow> (of_char c :: nat) = 32 \<or> (9 \<le> (of_char c :: nat) \<and> (of_char c :: nat) \<le> 13)"

definition is_digit :: "char \<Rightarrow> bool" where
  "is_digit c \<longleftrightarrow> 48 \<le> (of_char c :: nat) \<and> (of_char c :: nat) \<le> 57"

text \<open>
  \<^verbatim>\<open>std::stoi(s, &pos)\<close>: white space, a sign, decimal digits; the value and the position after
  it. No digit is \<^verbatim>\<open>invalid_argument\<close>, a value that does not fit \<^verbatim>\<open>int\<close> is \<^verbatim>\<open>out_of_range\<close>.
\<close>

definition stoi :: "string \<Rightarrow> std_error + int \<times> nat" where
  "stoi s =
     (let ws = length (takeWhile is_space s);
          s1 = drop ws s;
          sign = (case s1 of c # _ \<Rightarrow> c = CHR ''-'' \<or> c = CHR ''+'' | [] \<Rightarrow> False);
          neg = (case s1 of c # _ \<Rightarrow> c = CHR ''-'' | [] \<Rightarrow> False);
          s2 = (if sign then drop 1 s1 else s1);
          ds = takeWhile is_digit s2;
          v = (if neg then - int (digits_val ds) else int (digits_val ds))
      in if ds = [] then Inl InvalidArgument
         else if v < - (2 ^ 31) \<or> 2 ^ 31 \<le> v then Inl OutOfRange
         else Inr (v, ws + (if sign then 1 else 0) + length ds))"

lemma stoi_range: "stoi s = Inr (v, pos) \<Longrightarrow> - (2 ^ 31) \<le> v \<and> v < 2 ^ 31 \<and> pos \<le> length s"
proof -
  assume a: "stoi s = Inr (v, pos)"
  define ws where "ws = length (takeWhile is_space s)"
  define s1 where "s1 = drop ws s"
  define sign where "sign = (case s1 of c # _ \<Rightarrow> c = CHR ''-'' \<or> c = CHR ''+'' | [] \<Rightarrow> False)"
  define s2 where "s2 = (if sign then drop 1 s1 else s1)"
  have "length (takeWhile is_digit s2) \<le> length s2" by (rule length_takeWhile_le)
  moreover have "length s2 + (if sign then 1 else 0) = length s1"
    by (auto simp: s2_def sign_def split: list.splits)
  moreover have "length s1 + ws = length s"
    using length_takeWhile_le [of is_space s] by (simp add: s1_def ws_def)
  ultimately have "ws + (if sign then 1 else 0) + length (takeWhile is_digit s2) \<le> length s" by linarith
  with a show ?thesis
    by (auto simp: stoi_def Let_def ws_def s1_def sign_def s2_def split: if_splits)
qed

text \<open>A printed number is read back completely.\<close>

lemma show_nat_is_digit: "c \<in> set (show_nat n) \<Longrightarrow> is_digit c"
  using show_nat_digits [of c n] by (simp add: is_digit_def)

lemma stoi_show_nat:
  assumes "n < 2 ^ 31"
  shows "stoi (show_nat n) = Inr (int n, length (show_nat n))"
proof -
  obtain c cs where s: "show_nat n = c # cs" using show_nat_nonempty by (cases "show_nat n") auto
  have all: "\<forall>c \<in> set (show_nat n). is_digit c" using show_nat_is_digit by blast
  then have c: "\<not> is_space c" "c \<noteq> CHR ''-''" "c \<noteq> CHR ''+''"
    by (auto simp: s is_digit_def is_space_def)
  have "takeWhile is_digit (show_nat n) = show_nat n" using all by (simp add: takeWhile_eq_all_conv)
  then show ?thesis
    using assms c digits_val_show_nat [of n] by (simp add: stoi_def s)
qed

section \<open>Addresses\<close>

text \<open>\<^verbatim>\<open>struct sockaddr_in\<close>: the address and the port, in host order.\<close>

record sockaddr =
  sin_addr :: u32
  sin_port :: u16

definition octet :: "u32 \<Rightarrow> nat \<Rightarrow> nat" where
  "octet a i = unat a div 256 ^ (3 - i) mod 256"

definition inet_ntoa :: "u32 \<Rightarrow> string" where
  "inet_ntoa a = show_nat (octet a 0) @ ''.'' @ show_nat (octet a 1) @ ''.'' @
     show_nat (octet a 2) @ ''.'' @ show_nat (octet a 3)"

text \<open>\<^verbatim>\<open>inet_pton(AF_INET, ...)\<close>: four decimal octets without leading zeros.\<close>

fun split_on :: "char \<Rightarrow> string \<Rightarrow> string list" where
  "split_on c [] = [[]]"
| "split_on c (x # xs) =
     (if x = c then [] # split_on c xs
      else case split_on c xs of [] \<Rightarrow> [[x]] | w # ws \<Rightarrow> (x # w) # ws)"

definition read_octet :: "string \<Rightarrow> nat option" where
  "read_octet s =
     (if s = [] \<or> \<not> list_all is_digit s \<or> (1 < length s \<and> hd s = CHR ''0'') \<or> 255 < digits_val s
      then None else Some (digits_val s))"

definition inet_pton :: "string \<Rightarrow> u32 option" where
  "inet_pton s =
     (case map read_octet (split_on CHR ''.'' (takeWhile (\<lambda>c. c \<noteq> CHR 0x00) s)) of
        [Some a, Some b, Some c, Some d] \<Rightarrow> Some (word_of_nat (((a * 256 + b) * 256 + c) * 256 + d))
      | _ \<Rightarrow> None)"

text \<open>What \<^verbatim>\<open>clientAddrStr\<close> prints.\<close>

definition addr_str :: "sockaddr \<Rightarrow> string" where
  "addr_str a = inet_ntoa (sin_addr a) @ '':'' @ show_nat (unat (sin_port a))"

end
