(* ===== verification/Heps.thy ===== *)
theory Heps
  imports KeyGen Stdlib
begin

text \<open>
  \<^verbatim>\<open>src/crypto/Heps.h\<close> and \<^verbatim>\<open>src/crypto/Heps.cpp\<close>: the blinding proxy of the clients. It
  loads the key material the root broker wrote, hashes service names to 64-bit numbers
  (\<^verbatim>\<open>std::hash\<close>, the parameter \<open>H\<close>) and blinds them. Values travel as hexadecimal strings.
\<close>

section \<open>The code\<close>

record heps =
  heps_paillier :: paillier
  heps_n :: int
  heps_mu :: int

definition heps_default :: heps where
  "heps_default = \<lparr>heps_paillier = paillier_default, heps_n = 0, heps_mu = 0\<rparr>"

text \<open>\<^verbatim>\<open>mpz_set_str\<close> gets \<^verbatim>\<open>hex.c_str()\<close>, which ends at the first zero byte.\<close>

definition hex_to_mpz :: "gmp \<Rightarrow> string \<Rightarrow> int" where
  "hex_to_mpz G hex = mpz_set_str16 G (takeWhile (\<lambda>c. c \<noteq> CHR 0x00) hex)"

definition mpz_to_hex :: "gmp \<Rightarrow> int \<Rightarrow> string" where
  "mpz_to_hex G v = mpz_get_str16 G v"

definition string_to_mpz :: "(string \<Rightarrow> u64) \<Rightarrow> string \<Rightarrow> int" where
  "string_to_mpz H s = uint (H s)"

definition heps_init :: "gmp \<Rightarrow> 'r rng \<Rightarrow> 'r \<Rightarrow> crypto_error + heps \<times> 'r" where
  "heps_init G R s =
     (case key_gen G R 2048 s of Inl e \<Rightarrow> Inl e
      | Inr (k, s') \<Rightarrow> Inr (\<lparr>heps_paillier = k, heps_n = kn k, heps_mu = kmu k\<rparr>, s'))"

text \<open>\<open>k\<close> successive \<^verbatim>\<open>getline\<close> calls that all succeed.\<close>

fun get_lines :: "nat \<Rightarrow> string \<Rightarrow> (string list \<times> string) option" where
  "get_lines 0 s = Some ([], s)"
| "get_lines (Suc k) s =
     (case get_line s of None \<Rightarrow> None
      | Some (l, r) \<Rightarrow> map_option (\<lambda>(ls, r'). (l # ls, r')) (get_lines k r))"

text \<open>\<^verbatim>\<open>loadState\<close>: the file as it was read, or \<open>None\<close> when it cannot be opened.\<close>

definition load_state :: "gmp \<Rightarrow> string option \<Rightarrow> heps \<Rightarrow> bool \<times> heps" where
  "load_state G file h =
     (case file of None \<Rightarrow> (False, h)
      | Some txt \<Rightarrow>
          (case get_lines 6 txt of
             Some ([n_hex, mu_hex, lambda_hex, e_m_hex, d_m_hex, r_m_hex], rest) \<Rightarrow>
               if (case get_line rest of None \<Rightarrow> False | Some (extra, _) \<Rightarrow> extra \<noteq> []) then (False, h)
               else
                 let n_val = hex_to_mpz G n_hex;
                     mu_val = hex_to_mpz G mu_hex;
                     lambda_val = hex_to_mpz G lambda_hex;
                     e_m_val = hex_to_mpz G e_m_hex;
                     d_m_val = hex_to_mpz G d_m_hex;
                     r_m_val = hex_to_mpz G r_m_hex
                 in if n_val = 0 then (False, h)
                    else (True,
                      \<lparr>heps_paillier = set_params n_val (n_val + 1) mu_val lambda_val e_m_val d_m_val
                                        r_m_val (heps_paillier h),
                       heps_n = n_val, heps_mu = mu_val\<rparr>)
           | _ \<Rightarrow> (False, h)))"

definition heps_blind_notification ::
    "(string \<Rightarrow> u64) \<Rightarrow> gmp \<Rightarrow> 'r rng \<Rightarrow> heps \<Rightarrow> string \<Rightarrow> 'r \<Rightarrow> crypto_error + string \<times> 'r" where
  "heps_blind_notification H G R h name s =
     (case blind_notification G R (heps_paillier h) (string_to_mpz H name) s of Inl e \<Rightarrow> Inl e
      | Inr (bval_n, s') \<Rightarrow> Inr (mpz_to_hex G bval_n, s'))"

text \<open>One half of \<^verbatim>\<open>Heps::blindSubscription\<close>: the ciphertext of \<open>- w\<close>, blinded.\<close>

definition blind_negated ::
    "gmp \<Rightarrow> 'r rng \<Rightarrow> heps \<Rightarrow> int \<Rightarrow> 'r \<Rightarrow> (crypto_error + int \<times> 'r) option" where
  "blind_negated G R h w s =
     (if heps_n h = 0 then Some (Inl DivisionByZero)
      else let neg_w = (heps_n h - w) smod heps_n h
           in case encrypt G R (heps_paillier h) neg_w s of None \<Rightarrow> None
              | Some (Inl e) \<Rightarrow> Some (Inl e)
              | Some (Inr (E_neg_w, s')) \<Rightarrow>
                  (case blind_subscription G (heps_paillier h) E_neg_w of Inl e \<Rightarrow> Some (Inl e)
                   | Inr b \<Rightarrow> Some (Inr (b, s'))))"

definition heps_blind_subscription ::
    "(string \<Rightarrow> u64) \<Rightarrow> gmp \<Rightarrow> 'r rng \<Rightarrow> heps \<Rightarrow> string \<Rightarrow> 'r
      \<Rightarrow> (crypto_error + (string \<times> string) \<times> 'r) option" where
  "heps_blind_subscription H G R h name s =
     (let v = string_to_mpz H name
      in case blind_negated G R h v s of None \<Rightarrow> None
         | Some (Inl e) \<Rightarrow> Some (Inl e)
         | Some (Inr (bval_m1, s1)) \<Rightarrow>
             (case blind_negated G R h (v + 1) s1 of None \<Rightarrow> None
              | Some (Inl e) \<Rightarrow> Some (Inl e)
              | Some (Inr (bval_m2, s2)) \<Rightarrow>
                  Some (Inr ((mpz_to_hex G bval_m1, mpz_to_hex G bval_m2), s2))))"

definition get_public_key :: "heps \<Rightarrow> int \<times> int" where
  "get_public_key h = (heps_n h, heps_mu h)"

section \<open>Loading a key file\<close>

lemma get_lines_write:
  assumes "\<forall>l \<in> set ls. newline \<notin> set l"
  shows "get_lines (length ls) (write_lines ls @ rest) = Some (ls, rest)"
  using assms
proof (induction ls)
  case Nil
  then show ?case by (simp add: write_lines_def)
next
  case (Cons l ls)
  have "write_lines (l # ls) @ rest = l @ newline # (write_lines ls @ rest)"
    by (simp add: write_lines_def)
  with Cons show ?case by (simp add: get_line_written)
qed

text \<open>A failed load leaves the object as it was.\<close>

lemma load_state_failed: "load_state G file h = (False, h') \<Longrightarrow> h' = h"
  by (auto simp: load_state_def Let_def split: option.splits list.splits if_splits)

lemma load_state_ok:
  "load_state G file h = (True, h') \<Longrightarrow> heps_n h' \<noteq> 0 \<and> kn (heps_paillier h') = heps_n h' \<and>
     kmu (heps_paillier h') = heps_mu h' \<and> kn_sq (heps_paillier h') = heps_n h' * heps_n h' \<and>
     kg (heps_paillier h') = heps_n h' + 1"
  by (auto simp: load_state_def Let_def set_params_def split: option.splits list.splits if_splits)

text \<open>The six lines of \<^verbatim>\<open>/tmp/dnspp_heps_full.key\<close>, as the root broker prints them.\<close>

definition full_key_lines :: "gmp \<Rightarrow> paillier \<Rightarrow> string list" where
  "full_key_lines G k = map (mpz_to_hex G) [kn k, kmu k, klambda k, ke_m k, kd_m k, kr_m k]"

definition wire_key :: "paillier \<Rightarrow> bool" where
  "wire_key k \<longleftrightarrow> kn k \<noteq> 0 \<and> list_all (\<lambda>v. 0 \<le> v) [kn k, kmu k, klambda k, ke_m k, kd_m k, kr_m k]"

lemma wire_key_params: "key_params p q k \<Longrightarrow> wire_key k"
  using key_params_pos [of p q k] by (auto simp: wire_key_def)

context gmp_spec
begin

lemma hex_round_trip: "0 \<le> x \<Longrightarrow> hex_to_mpz G (mpz_to_hex G x) = x"
  by (simp add: hex_to_mpz_def mpz_to_hex_def get_str_no_nul set_get_str)

lemma mpz_to_hex_nonempty [simp]: "mpz_to_hex G x \<noteq> []"
  by (simp add: mpz_to_hex_def get_str_nonempty)

lemma mpz_to_hex_line: "0 \<le> x \<Longrightarrow> newline \<notin> set (mpz_to_hex G x)"
  using get_str_no_newline by (simp add: mpz_to_hex_def newline_def)

text \<open>Writing the key material and loading it gives the same key, but for the two primes.\<close>

lemma load_full_key:
  assumes "wire_key k" and "kn_sq k = kn k * kn k" and "kg k = kn k + 1"
  shows "load_state G (Some (write_lines (full_key_lines G k))) h =
    (True, \<lparr>heps_paillier = k\<lparr>kp := kp (heps_paillier h), kq := kq (heps_paillier h)\<rparr>,
            heps_n = kn k, heps_mu = kmu k\<rparr>)"
proof -
  let ?ls = "full_key_lines G k"
  have nl: "\<forall>l \<in> set ?ls. newline \<notin> set l"
    using assms(1) mpz_to_hex_line by (auto simp: full_key_lines_def wire_key_def)
  have "length ?ls = 6" by (simp add: full_key_lines_def)
  then have lines: "get_lines 6 (write_lines ?ls) = Some (?ls, [])"
    using get_lines_write [OF nl, of "[]"] by simp
  have "hex_to_mpz G (mpz_to_hex G v) = v"
    if "v \<in> {kn k, kmu k, klambda k, ke_m k, kd_m k, kr_m k}" for v
    using assms(1) that by (intro hex_round_trip) (auto simp: wire_key_def)
  then show ?thesis
    using assms lines
    by (simp add: load_state_def full_key_lines_def get_line_def wire_key_def set_params_def Let_def)
qed

end

end
