(* ===== verification/Matching.thy ===== *)
theory Matching
  imports Heps
begin

text \<open>
  The blinded comparison of the broker (\<^verbatim>\<open>executeMatch\<close>, \<^verbatim>\<open>src/broker/broker.cpp\<close>) and why it
  is an equality test: with \<open>x\<close> the number of the published name and \<open>v\<close> that of the
  subscribed one, the first blinded value yields \<open>r\<^sub>m (x - v) + r\<close> and the second
  \<open>r\<^sub>m (x - v - 1) + r\<close> modulo \<open>n\<close>, where \<open>0 < r < r\<^sub>m\<close>; the sign of each is read off by comparing
  with \<open>n / 2\<close>, which is sound while \<open>r\<^sub>m 2\<^sup>6\<^sup>4\<close> stays within \<open>n / 2\<close>.
\<close>

section \<open>The code\<close>

text \<open>\<open>diff = (L(bval_n * bval_m mod n_sq) * mu) mod n\<close>, without the assertion of \<^verbatim>\<open>Paillier::L\<close>.\<close>

definition match_diff :: "int \<Rightarrow> int \<Rightarrow> int \<Rightarrow> int \<Rightarrow> int \<Rightarrow> int" where
  "match_diff n mu n_sq bval_n bval_m =
     (let y = (bval_n * bval_m) smod n_sq;
          L_y = (y - 1) sdiv n
      in (L_y * mu) smod n)"

text \<open>The body of \<^verbatim>\<open>executeMatch\<close> below its counter; a zero modulus raises the signal in GMP.\<close>

definition match_test ::
    "gmp \<Rightarrow> int \<Rightarrow> int \<Rightarrow> int \<Rightarrow> string \<Rightarrow> string \<Rightarrow> string \<Rightarrow> crypto_error + bool" where
  "match_test G he_n he_mu he_n_sq bval_n_hex bval_m1_hex bval_m2_hex =
     (if bval_n_hex = [] \<or> bval_m1_hex = [] \<or> bval_m2_hex = [] then Inr False
      else if he_n_sq = 0 \<or> he_n = 0 then Inl DivisionByZero
      else let bval_n = hex_to_mpz G bval_n_hex;
               bval_m1 = hex_to_mpz G bval_m1_hex;
               bval_m2 = hex_to_mpz G bval_m2_hex
           in if match_diff he_n he_mu he_n_sq bval_n bval_m1 \<ge> he_n sdiv 2 then Inr False
              else if match_diff he_n he_mu he_n_sq bval_n bval_m2 \<le> he_n sdiv 2 then Inr False
              else Inr True)"

lemma match_test_total: "he_n \<noteq> 0 \<Longrightarrow> he_n_sq \<noteq> 0 \<Longrightarrow> \<exists>b. match_test G he_n he_mu he_n_sq a b1 b2 = Inr b"
  by (cases "match_test G he_n he_mu he_n_sq a b1 b2")
    (auto simp: match_test_def Let_def split: if_splits)

lemma match_diff_eq:
  assumes "paillier_match G k a b = Inr d"
  shows "match_diff (kn k) (kmu k) (kn_sq k) a b = d"
  using assms
  by (auto simp: paillier_match_def paillier_L_def match_diff_def Let_def split: if_splits)

section \<open>Reading a sign from a residue\<close>

text \<open>A number of small absolute value, and its residue against half the modulus.\<close>

lemma residue_nonneg:
  fixes t n :: int
  assumes "0 \<le> t" and "t < n div 2" and "0 < n"
  shows "t mod n = t" and "t mod n < n div 2"
  using assms by (simp_all add: mod_pos_pos_trivial)

lemma residue_neg:
  fixes t n :: int
  assumes "t < 0" and "- t < n - n div 2" and "0 < n"
  shows "n div 2 < t mod n"
proof -
  have "t mod n = (t + n) mod n" by simp
  also have "\<dots> = t + n" using assms by (intro mod_pos_pos_trivial) linarith+
  finally show ?thesis using assms(2) by linarith
qed

definition scale_ok :: "int \<Rightarrow> int \<Rightarrow> bool" where
  "scale_ok r_m n \<longleftrightarrow> 2 \<le> r_m \<and> r_m * 2 ^ 64 \<le> n div 2"

lemma blinded_sign:
  assumes ok: "scale_ok r_m n" and r: "0 < r" "r < r_m" and d: "- (2 ^ 64) \<le> d" "d < 2 ^ 64"
  shows "0 \<le> d \<Longrightarrow> (r_m * d + r) mod n < n div 2"
    and "d < 0 \<Longrightarrow> n div 2 < (r_m * d + r) mod n"
proof -
  have rm: "2 \<le> r_m" "r_m * 2 ^ 64 \<le> n div 2" using ok by (simp_all add: scale_ok_def)
  have "0 < r_m * 2 ^ 64" using rm(1) by simp
  then have n: "0 < n" using rm(2) by linarith
  show "(r_m * d + r) mod n < n div 2" if "0 \<le> d"
  proof (rule residue_nonneg(2))
    show "0 \<le> r_m * d + r" using that rm r by simp
    have "r_m * (d + 1) \<le> r_m * 2 ^ 64" using d(2) rm(1) by (intro mult_left_mono) simp_all
    then show "r_m * d + r < n div 2" using r(2) rm(2) by (simp add: distrib_left)
  qed (fact n)
  show "n div 2 < (r_m * d + r) mod n" if "d < 0"
  proof (rule residue_neg)
    have "r_m * (d + 1) \<le> r_m * 0" using that rm(1) by (intro mult_left_mono) simp_all
    then show "r_m * d + r < 0" using r(2) by (simp add: distrib_left)
    have "r_m * (- d) \<le> r_m * 2 ^ 64" using d(1) rm(1) by (intro mult_left_mono) simp_all
    then show "- (r_m * d + r) < n - n div 2" using r(1) rm(2) by linarith
  qed (fact n)
qed

lemma plain_residue:
  fixes x v n c r :: int
  shows "(c * (x + (n - v) mod n) + r) mod n = (c * (x - v) + r) mod n"
proof -
  have "(x + (n - v) mod n) mod n = (x - v) mod n"
    by (metis (no_types, opaque_lifting) add_diff_eq mod_add_right_eq mod_add_self2 add.commute diff_add_eq)
  then have "(c * (x + (n - v) mod n)) mod n = (c * (x - v)) mod n" by (metis mod_mult_right_eq)
  then show ?thesis by (metis mod_add_left_eq)
qed

section \<open>The comparison is equality\<close>

text \<open>The two nonces a subscription draws have no factor in common with the modulus.\<close>

definition draws_coprime :: "'r rng \<Rightarrow> int \<Rightarrow> 'r \<Rightarrow> bool" where
  "draws_coprime R n t =
     (case pick_nonzero R n t of None \<Rightarrow> False
      | Some (r1, t1) \<Rightarrow> coprime r1 n \<and>
          (case pick_nonzero R n t1 of None \<Rightarrow> False | Some (r2, t2) \<Rightarrow> coprime r2 n))"

context gmp_spec
begin

lemma blinded_diff:
  assumes key: "key_params p q k" and "0 \<le> x" and "0 \<le> r"
    and "coprime r' (kn k)" and "0 \<le> r'"
  shows "match_diff (kn k) (kmu k) (kn_sq k) (blind_notification_with G k x r)
      (blind_subscription_with G k (encrypt_with G k ((kn k - v) mod kn k) r'))
    = (kr_m k * (x - v) + r) mod kn k"
proof -
  have "0 \<le> (kn k - v) mod kn k" using key_params_pos(3) [OF key] by simp
  from match_diff_eq [OF paillier_match_value [OF key assms(2,3) this assms(4,5)]]
  show ?thesis by (simp only: plain_residue)
qed

theorem match_test_equality:
  assumes key: "key_params p q k" and ok: "scale_ok (kr_m k) (kn k)"
    and x: "0 \<le> x" "x < 2 ^ 64" and v: "0 \<le> v" "v < 2 ^ 64"
    and r: "0 < r" "r < kr_m k"
    and r1: "coprime r1 (kn k)" "0 \<le> r1" and r2: "coprime r2 (kn k)" "0 \<le> r2"
  shows "match_test G (kn k) (kmu k) (kn_sq k)
      (mpz_to_hex G (blind_notification_with G k x r))
      (mpz_to_hex G (blind_subscription_with G k (encrypt_with G k ((kn k - v) mod kn k) r1)))
      (mpz_to_hex G (blind_subscription_with G k (encrypt_with G k ((kn k - (v + 1)) mod kn k) r2)))
    = Inr (x = v)"
proof -
  note pos = key_params_pos [OF key]
  let ?n = "kn k"
  let ?b = "blind_notification_with G k x r"
  let ?m = "\<lambda>w r'. blind_subscription_with G k (encrypt_with G k ((?n - w) mod ?n) r')"
  have "0 \<le> ?b" using pos x r by (simp add: blind_notification_mod [OF key])
  moreover have "0 \<le> ?m w r'" if "coprime r' ?n" "0 \<le> r'" for w r'
    using pos that by (simp add: blind_subscription_mod [OF key _ that])
  ultimately have hex: "hex_to_mpz G (mpz_to_hex G ?b) = ?b"
    "hex_to_mpz G (mpz_to_hex G (?m v r1)) = ?m v r1"
    "hex_to_mpz G (mpz_to_hex G (?m (v + 1) r2)) = ?m (v + 1) r2"
    using r1 r2 by (simp_all add: hex_round_trip del: minus_mod_self1)
  let ?d1 = "(kr_m k * (x - v) + r) mod ?n" and ?d2 = "(kr_m k * (x - (v + 1)) + r) mod ?n"
  have diff: "match_diff ?n (kmu k) (kn_sq k) ?b (?m v r1) = ?d1"
    "match_diff ?n (kmu k) (kn_sq k) ?b (?m (v + 1) r2) = ?d2"
    using blinded_diff [OF key x(1)] r r1 r2 by (simp_all del: minus_mod_self1)
  have half: "?n sdiv 2 = ?n div 2" using pos by (simp add: sdiv_nonneg)
  have "\<not> ?d1 \<ge> ?n div 2 \<longleftrightarrow> v \<le> x"
    using blinded_sign [OF ok r, of "x - v"] x v by (cases "v \<le> x") auto
  moreover have "\<not> ?d2 \<le> ?n div 2 \<longleftrightarrow> x \<le> v"
    using blinded_sign [OF ok r, of "x - (v + 1)"] x v by (cases "x \<le> v") auto
  ultimately show ?thesis
    using pos by (auto simp: match_test_def hex diff half simp del: minus_mod_self1)
qed

text \<open>The same through the proxy's two entry points, with the nonces its generator draws.\<close>

lemma negated_value:
  assumes key: "key_params p q (heps_paillier h)" and n: "heps_n h = kn (heps_paillier h)"
    and w: "0 \<le> w" "w \<le> heps_n h" and run: "blind_negated G R h w s = Some (Inr (b, s'))"
  obtains r where "pick_nonzero R (heps_n h) s = Some (r, s')"
    and "b = blind_subscription_with G (heps_paillier h)
               (encrypt_with G (heps_paillier h) ((heps_n h - w) mod heps_n h) r)"
proof -
  note pos = key_params_pos [OF key]
  have "(heps_n h - w) smod heps_n h = (heps_n h - w) mod heps_n h"
    using w pos n by (simp add: smod_nonneg del: minus_mod_self1)
  then show thesis
    using run that pos n
    by (auto simp: blind_negated_def encrypt_def blind_subscription_def Let_def split: option.splits)
qed

lemma notification_value:
  assumes key: "key_params p q (heps_paillier h)" and "rng_spec R" and "2 \<le> kr_m (heps_paillier h)"
    and run: "heps_blind_notification H G R h name s = Inr (b, s')"
  obtains r where "0 < r" and "r < kr_m (heps_paillier h)"
    and "b = mpz_to_hex G (blind_notification_with G (heps_paillier h) (uint (H name)) r)"
proof -
  let ?k = "heps_paillier h"
  obtain r0 s0 where r0: "get_z_range R s (kr_m ?k) = (r0, s0)" by (metis surj_pair)
  define r where "r = (if r0 = 0 then 1 else r0)"
  have "0 \<le> r0" "r0 < kr_m ?k"
    using rng_spec.range [OF assms(2), of "kr_m ?k" s] assms(3) r0 by simp_all
  then have "0 < r" "r < kr_m ?k" using assms(3) by (simp_all add: r_def)
  moreover have "b = mpz_to_hex G (blind_notification_with G ?k (uint (H name)) r)"
    using run key_params_pos(9,11) [OF key] r0
    by (auto simp: heps_blind_notification_def blind_notification_def string_to_mpz_def r_def
        Let_def split: sum.splits if_splits)
  ultimately show thesis by (rule that)
qed

theorem heps_match:
  assumes key: "key_params p q (heps_paillier h)" and n: "heps_n h = kn (heps_paillier h)"
    and mu: "heps_mu h = kmu (heps_paillier h)"
    and ok: "scale_ok (kr_m (heps_paillier h)) (heps_n h)" and rng: "rng_spec R"
    and notif: "heps_blind_notification H G R h name s = Inr (bval_n, s')"
    and sub: "heps_blind_subscription H G R h name' t = Some (Inr ((bval_m1, bval_m2), t'))"
    and cop: "draws_coprime R (heps_n h) t"
  shows "match_test G (heps_n h) (heps_mu h) (heps_n h * heps_n h) bval_n bval_m1 bval_m2
    = Inr (H name = H name')"
proof -
  let ?k = "heps_paillier h" and ?v = "uint (H name')"
  note pos = key_params_pos [OF key]
  have rm: "2 \<le> kr_m ?k" and big: "kr_m ?k * 2 ^ 64 \<le> heps_n h div 2"
    using ok by (simp_all add: scale_ok_def)
  have hash: "0 \<le> uint (H z)" "uint (H z) < 2 ^ 64" for z
    using unsigned_less [of "H z"] by simp_all
  have "2 * 2 ^ 64 \<le> kr_m ?k * 2 ^ 64" using rm by simp
  from order_trans [OF this big] have "2 ^ 65 \<le> heps_n h" by simp
  moreover have "?v < 2 ^ 64" by (rule hash(2))
  ultimately have v: "?v + 1 \<le> heps_n h" by simp
  obtain r where r: "0 < r" "r < kr_m ?k"
    and bn: "bval_n = mpz_to_hex G (blind_notification_with G ?k (uint (H name)) r)"
    using notification_value [OF key rng rm notif] by blast
  from sub obtain b1 t1 b2 where b1: "blind_negated G R h ?v t = Some (Inr (b1, t1))"
    and b2: "blind_negated G R h (?v + 1) t1 = Some (Inr (b2, t'))"
    and m: "bval_m1 = mpz_to_hex G b1" "bval_m2 = mpz_to_hex G b2"
    by (auto simp: heps_blind_subscription_def string_to_mpz_def Let_def
        split: option.splits sum.splits)
  obtain r1 where r1: "pick_nonzero R (heps_n h) t = Some (r1, t1)"
    and e1: "b1 = blind_subscription_with G ?k (encrypt_with G ?k ((heps_n h - ?v) mod heps_n h) r1)"
    using negated_value [OF key n hash(1) _ b1] v by auto
  obtain r2 where r2: "pick_nonzero R (heps_n h) t1 = Some (r2, t')"
    and e2: "b2 = blind_subscription_with G ?k (encrypt_with G ?k ((heps_n h - (?v + 1)) mod heps_n h) r2)"
    using negated_value [OF key n _ v b2] hash(1) [of name'] by auto
  have n0: "0 < heps_n h" using pos n by simp
  have cops: "coprime r1 (kn ?k)" "coprime r2 (kn ?k)"
    using cop r1 r2 n by (simp_all add: draws_coprime_def)
  have nonneg: "0 \<le> r1" "0 \<le> r2"
    using pick_nonzero_range [OF rng n0] r1 r2 by fastforce+
  have "kn_sq ?k = heps_n h * heps_n h" using key_params_sq [OF key] n by simp
  with match_test_equality [OF key _ hash(1,2) hash(1,2) r cops(1) nonneg(1) cops(2) nonneg(2),
      of name name'] ok
  show ?thesis by (simp only: n mu bn m e1 e2 word_uint_eq_iff)
qed

end

end
