(* ===== verification/Broker_State.thy ===== *)
theory Broker_State
  imports TlvBuilder Brake Matching
begin

text \<open>
  The state of \<^verbatim>\<open>DnsMulticastBroker\<close> (\<^verbatim>\<open>src/broker/broker.h\<close>) and the helpers its handlers
  share (\<^verbatim>\<open>src/broker/broker.cpp\<close>). The broker is a record with one field per member;
  handlers take it and return it updated, together with the datagrams they send.
\<close>

section \<open>Data\<close>

record geo_client =
  gc_addr :: sockaddr
  gc_lat :: f32
  gc_lon :: f32
  cached_closest_dist :: fp
  blinded_m1 :: string
  blinded_m2 :: string

record cached_pub =
  cp_lat :: f32
  cp_lon :: f32
  raw_message :: "byte list"

record child_broker =
  ch_id :: string
  ch_addr :: sockaddr
  ch_lat :: f32
  ch_lon :: f32
  ch_region :: region
  ch_active :: bool
  closest_quad :: "fp list"

text \<open>What \<^verbatim>\<open>children[id]\<close> creates for a new key.\<close>

definition child_default :: child_broker where
  "child_default = \<lparr>ch_id = [], ch_addr = \<lparr>sin_addr = 0, sin_port = 0\<rparr>, ch_lat = 0, ch_lon = 0,
     ch_region = region_default, ch_active = False,
     closest_quad = [DBL_MAX, DBL_MAX, DBL_MAX, DBL_MAX]\<rparr>"

datatype brake_scope = Upward | Local | Both

record broker_config =
  broker_id :: string
  listen_port :: u16
  cfg_parent_addr :: string
  cfg_lat :: f32
  cfg_lon :: f32
  brake_limit :: "32 word"
  brake_window_sec :: time_t
  brake_scope :: brake_scope
  require_he :: bool

record broker =
  config :: broker_config
  my_region :: region
  has_parent :: bool
  parent_addr :: sockaddr
  children :: "(string, child_broker) umap"
  subscribers :: "(string, geo_client list) umap"
  pub_cache :: "(string, cached_pub list) umap"
  last_active :: "(string, time_t) umap"
  brake_count_up :: windows
  brake_count_local :: windows
  child_active :: "(string, string list) umap"
  ot_parent :: "string list"
  stat_forward_up :: u64
  stat_forward_down :: u64
  stat_delivered_local :: u64
  stat_braked_up :: u64
  stat_braked_local :: u64
  stat_match_calls :: u64
  stat_match_hits :: u64
  stat_pub_received :: u64
  stat_sub_received :: u64
  stat_sub_groups :: u64
  stat_he_mode :: u64
  he_n :: int
  he_mu :: int
  he_n_sq :: int
  he_enabled :: bool
  he_key_source :: string

text \<open>
  The libraries outside the repository, an argument of the handlers: the cosine of the C
  library, \<^verbatim>\<open>std::hash<std::string>\<close> (implementation-defined) and GMP.
\<close>

record env =
  lib_cos :: "fp \<Rightarrow> fp"
  lib_hash :: "string \<Rightarrow> u64"
  lib_gmp :: gmp

text \<open>A call of \<^verbatim>\<open>sendto\<close>: the destination and the datagram.\<close>

datatype action = SendTo sockaddr "byte list"

fun out_dest :: "action \<Rightarrow> sockaddr" where "out_dest (SendTo a d) = a"
fun out_data :: "action \<Rightarrow> byte list" where "out_data (SendTo a d) = d"

section \<open>Helpers\<close>

definition client_addr_str :: "sockaddr \<Rightarrow> string" where
  "client_addr_str a = addr_str a"

definition hash_service_name :: "env \<Rightarrow> string \<Rightarrow> string" where
  "hash_service_name E name = show_nat (unat (lib_hash E name))"

lemma hash_service_name_inj:
  "hash_service_name E a = hash_service_name E b \<longleftrightarrow> lib_hash E a = lib_hash E b"
  by (simp add: hash_service_name_def show_nat_inj word_unat_eq_iff)

lemma hash_length: "length (hash_service_name E name) \<le> 20"
proof -
  have "unat (lib_hash E name) < 10 ^ Suc 19"
    using unat_bound [of "lib_hash E name"] by simp
  from show_nat_length [OF this] show ?thesis by (simp add: hash_service_name_def)
qed

text \<open>The first child in iteration order with that address and port, \<open>[]\<close> (the empty string) if none.\<close>

fun find_child :: "(string, child_broker) umap \<Rightarrow> sockaddr \<Rightarrow> string" where
  "find_child [] a = []"
| "find_child ((i, c) # cs) a =
     (if sin_port (ch_addr c) = sin_port a \<and> sin_addr (ch_addr c) = sin_addr a then i
      else find_child cs a)"

definition find_child_by_addr :: "sockaddr \<Rightarrow> broker \<Rightarrow> string" where
  "find_child_by_addr a b = find_child (children b) a"

lemma sockaddr_eq: "a = b \<longleftrightarrow> sin_port a = sin_port b \<and> sin_addr a = sin_addr (b :: sockaddr)"
  by (cases a; cases b) auto

lemma find_child_cases:
  "find_child cs a = [] \<or> (\<exists>c. (find_child cs a, c) \<in> set cs \<and> ch_addr c = a)"
proof (induction cs)
  case (Cons ic cs)
  obtain i c where ic: "ic = (i, c)" by force
  show ?case
  proof (cases "ch_addr c = a")
    case True
    then show ?thesis by (auto simp: ic)
  next
    case False
    then have "find_child (ic # cs) a = find_child cs a" by (auto simp: ic sockaddr_eq)
    with Cons show ?thesis by auto
  qed
qed simp

text \<open>The region of a point, and the region of a broker: its own point and its children's regions.\<close>

definition point_region :: "fp \<Rightarrow> fp \<Rightarrow> region" where
  "point_region lat lon = \<lparr>min_lat = lat, max_lat = lat, min_lon = lon, max_lon = lon\<rparr>"

definition config_region :: "broker_config \<Rightarrow> region" where
  "config_region cfg = point_region (widen (cfg_lat cfg)) (widen (cfg_lon cfg))"

definition update_my_region :: "broker \<Rightarrow> broker" where
  "update_my_region b =
     b\<lparr>my_region := foldl (\<lambda>r (i, c). merge r (ch_region c)) (config_region (config b)) (children b)\<rparr>"

definition region_changed :: "region \<Rightarrow> region \<Rightarrow> bool" where
  "region_changed r old \<longleftrightarrow> fne (min_lat r) (min_lat old) \<or> fne (max_lat r) (max_lat old) \<or>
     fne (min_lon r) (min_lon old) \<or> fne (max_lon r) (max_lon old)"

definition region_packet :: "broker \<Rightarrow> byte list" where
  "region_packet b =
     build (add_region (my_region b) (add_service_name (broker_id (config b)) (builder REGION_UPDATE)))"

definition send_region_update_to_parent :: "broker \<Rightarrow> action list" where
  "send_region_update_to_parent b =
     (if \<not> has_parent b then [] else [SendTo (parent_addr b) (region_packet b)])"

datatype brake_dir = DirUp | DirLocal

definition brake_allows ::
    "brake_dir \<Rightarrow> time_t \<Rightarrow> string \<Rightarrow> f32 \<Rightarrow> f32 \<Rightarrow> broker \<Rightarrow> bool \<times> broker" where
  "brake_allows dir now service lat lon b =
     (let q = get_quadrant lat lon;
          windows = (case dir of DirUp \<Rightarrow> brake_count_up b | DirLocal \<Rightarrow> brake_count_local b);
          (ok, w) = window_step (brake_limit (config b)) (brake_window_sec (config b)) now
                      (window_at windows service q);
          windows' = set_window service q w windows;
          b1 = (case dir of DirUp \<Rightarrow> b\<lparr>brake_count_up := windows'\<rparr>
                | DirLocal \<Rightarrow> b\<lparr>brake_count_local := windows'\<rparr>)
      in if ok then (True, b1)
         else (False, case dir of DirUp \<Rightarrow> b1\<lparr>stat_braked_up := stat_braked_up b1 + 1\<rparr>
                      | DirLocal \<Rightarrow> b1\<lparr>stat_braked_local := stat_braked_local b1 + 1\<rparr>))"

definition execute_match ::
    "env \<Rightarrow> string \<Rightarrow> string \<Rightarrow> string \<Rightarrow> broker \<Rightarrow> crypto_error + bool \<times> broker" where
  "execute_match E bval_n_hex bval_m1_hex bval_m2_hex b =
     (let b1 = b\<lparr>stat_match_calls := stat_match_calls b + 1\<rparr>
      in case match_test (lib_gmp E) (he_n b) (he_mu b) (he_n_sq b)
                bval_n_hex bval_m1_hex bval_m2_hex of
           Inl e \<Rightarrow> Inl e
         | Inr True \<Rightarrow> Inr (True, b1\<lparr>stat_match_hits := stat_match_hits b1 + 1\<rparr>)
         | Inr False \<Rightarrow> Inr (False, b1))"

section \<open>The region of a broker\<close>

lemma point_region_num: "region_num (point_region lat lon) \<longleftrightarrow> lat \<noteq> NaN \<and> lon \<noteq> NaN"
  by (auto simp: region_num_def point_region_def)

lemma foldl_merge_num: "region_num r \<Longrightarrow> region_num (foldl (\<lambda>r (i, c). merge r (ch_region c)) r cs)"
  by (induction cs arbitrary: r) (auto simp: region_num_merge)

lemma foldl_merge_acc:
  "region_num r \<Longrightarrow> region_le r (foldl (\<lambda>r (i, c). merge r (ch_region c)) r cs)"
proof (induction cs arbitrary: r)
  case Nil
  then show ?case by (simp add: region_le_refl)
next
  case (Cons ic cs)
  obtain i c where "ic = (i, c)" by force
  with Cons.IH [of "merge r (ch_region c)"] Cons.prems show ?case
    by (auto intro: region_le_trans merge_upper_left region_num_merge)
qed

lemma foldl_merge_child:
  assumes "region_num r" and "(i, c) \<in> set cs" and "region_num (ch_region c)"
  shows "region_le (ch_region c) (foldl (\<lambda>r (i, c). merge r (ch_region c)) r cs)"
  using assms
proof (induction cs arbitrary: r)
  case Nil
  then show ?case by simp
next
  case (Cons jc cs)
  obtain j d where jd: "jc = (j, d)" by force
  show ?case
  proof (cases "jc = (i, c)")
    case True
    then show ?thesis
      using Cons.prems jd
      by (auto intro: region_le_trans merge_upper_right foldl_merge_acc region_num_merge)
  next
    case False
    then show ?thesis
      using Cons.IH [of "merge r (ch_region d)"] Cons.prems jd by (auto intro: region_num_merge)
  qed
qed

lemma foldl_merge_least:
  assumes "region_le r u" and "\<forall>(i, c) \<in> set cs. region_le (ch_region c) u"
  shows "region_le (foldl (\<lambda>r (i, c). merge r (ch_region c)) r cs) u"
  using assms
proof (induction cs arbitrary: r)
  case (Cons ic cs)
  obtain i c where "ic = (i, c)" by force
  with Cons.IH [of "merge r (ch_region c)"] Cons.prems show ?case by (simp add: merge_least)
qed simp

section \<open>Well-formed states\<close>

text \<open>
  What holds of every reachable state. A group is never empty (its \<^verbatim>\<open>front()\<close> and \<^verbatim>\<open>back()\<close> are
  defined) and no recorded distance exceeds \<^verbatim>\<open>DBL_MAX\<close>; a cache holds one to ten publications;
  a child has its four quadrant distances; no window holds more than the limit; with
  encryption on, the modulus is not zero; every group has a last-activity time.
\<close>

definition client_wf :: "geo_client \<Rightarrow> bool" where
  "client_wf g \<longleftrightarrow> fle (cached_closest_dist g) DBL_MAX"

definition groups_wf :: "(string, geo_client list) umap \<Rightarrow> bool" where
  "groups_wf m \<longleftrightarrow> um_inv m \<and> (\<forall>k gs. um_find m k = Some gs \<longrightarrow> gs \<noteq> [] \<and> list_all client_wf gs)"

definition max_pub_cache :: nat where "max_pub_cache = 10"

definition caches_wf :: "(string, cached_pub list) umap \<Rightarrow> bool" where
  "caches_wf m \<longleftrightarrow> um_inv m \<and>
     (\<forall>k ps. um_find m k = Some ps \<longrightarrow> ps \<noteq> [] \<and> length ps \<le> max_pub_cache)"

definition child_wf :: "child_broker \<Rightarrow> bool" where
  "child_wf c \<longleftrightarrow> length (closest_quad c) = 4 \<and> list_all (\<lambda>d. fle d DBL_MAX) (closest_quad c)"

definition children_wf :: "(string, child_broker) umap \<Rightarrow> bool" where
  "children_wf m \<longleftrightarrow> um_inv m \<and> (\<forall>k c. um_find m k = Some c \<longrightarrow> child_wf c \<and> ch_id c = k)"

definition windows_wf :: "32 word \<Rightarrow> windows \<Rightarrow> bool" where
  "windows_wf limit ws \<longleftrightarrow> um_inv ws \<and> (\<forall>s q. window_inv limit (window_at ws s q))"

definition crypto_wf :: "broker \<Rightarrow> bool" where
  "crypto_wf b \<longleftrightarrow> he_n_sq b = he_n b * he_n b \<and> (he_enabled b \<longrightarrow> he_n b \<noteq> 0)"

definition sets_wf :: "broker \<Rightarrow> bool" where
  "sets_wf b \<longleftrightarrow> um_inv (child_active b) \<and> distinct (ot_parent b) \<and>
     (\<forall>k cs. um_find (child_active b) k = Some cs \<longrightarrow> distinct cs) \<and>
     (ot_parent b \<noteq> [] \<longrightarrow> has_parent b)"

definition active_wf :: "broker \<Rightarrow> bool" where
  "active_wf b \<longleftrightarrow> um_inv (last_active b) \<and>
     (\<forall>k. um_find (subscribers b) k \<noteq> None \<longrightarrow> um_find (last_active b) k \<noteq> None)"

definition broker_wf :: "broker \<Rightarrow> bool" where
  "broker_wf b \<longleftrightarrow> groups_wf (subscribers b) \<and> caches_wf (pub_cache b) \<and>
     children_wf (children b) \<and> windows_wf (brake_limit (config b)) (brake_count_up b) \<and>
     windows_wf (brake_limit (config b)) (brake_count_local b) \<and> crypto_wf b \<and> sets_wf b \<and>
     active_wf b"

lemma groups_wf_put:
  "groups_wf m \<Longrightarrow> gs \<noteq> [] \<Longrightarrow> list_all client_wf gs \<Longrightarrow> groups_wf (um_put k gs m)"
  by (auto simp: groups_wf_def um_invs)

lemma groups_wf_at: "groups_wf m \<Longrightarrow> list_all client_wf (um_at [] m k)"
  by (auto simp: groups_wf_def um_at_def split: option.split)

lemma caches_wf_put:
  "caches_wf m \<Longrightarrow> ps \<noteq> [] \<Longrightarrow> length ps \<le> max_pub_cache \<Longrightarrow> caches_wf (um_put k ps m)"
  by (auto simp: caches_wf_def um_invs)

lemma children_wf_put:
  "children_wf m \<Longrightarrow> child_wf c \<Longrightarrow> ch_id c = k \<Longrightarrow> children_wf (um_put k c m)"
  by (auto simp: children_wf_def um_invs)

lemma windows_wf_set:
  "windows_wf limit ws \<Longrightarrow> window_inv limit w \<Longrightarrow> windows_wf limit (set_window s q w ws)"
  by (auto simp: windows_wf_def set_window_def [of s q w ws] window_at_set [unfolded set_window_def]
      um_invs)

lemma wf_erase:
  "groups_wf m \<Longrightarrow> groups_wf (um_erase k m)"
  "caches_wf pc \<Longrightarrow> caches_wf (um_erase k pc)"
  "windows_wf limit ws \<Longrightarrow> windows_wf limit (um_erase k ws)"
  by (auto simp: groups_wf_def caches_wf_def windows_wf_def window_inv_def um_invs)

text \<open>What the constructor fixes and no handler changes.\<close>

definition same_setup :: "broker \<Rightarrow> broker \<Rightarrow> bool" where
  "same_setup b' b \<longleftrightarrow> config b' = config b \<and> has_parent b' = has_parent b \<and>
     parent_addr b' = parent_addr b \<and> he_n b' = he_n b \<and> he_mu b' = he_mu b \<and>
     he_n_sq b' = he_n_sq b \<and> he_enabled b' = he_enabled b \<and> he_key_source b' = he_key_source b"

lemma same_setup_refl [simp]: "same_setup b b"
  by (simp add: same_setup_def)

lemma same_setup_trans: "same_setup c b \<Longrightarrow> same_setup b a \<Longrightarrow> same_setup c a"
  by (simp add: same_setup_def)

text \<open>The counters play no part in either.\<close>

lemma wf_counters [simp]:
  "broker_wf (b\<lparr>stat_forward_up := n\<rparr>) = broker_wf b"
  "broker_wf (b\<lparr>stat_forward_down := n\<rparr>) = broker_wf b"
  "broker_wf (b\<lparr>stat_pub_received := n\<rparr>) = broker_wf b"
  "broker_wf (b\<lparr>stat_sub_received := n\<rparr>) = broker_wf b"
  by (simp_all add: broker_wf_def crypto_wf_def sets_wf_def active_wf_def)

lemma same_setup_counters [simp]:
  "same_setup (b\<lparr>stat_forward_up := n\<rparr>) b' = same_setup b b'"
  "same_setup (b\<lparr>stat_forward_down := n\<rparr>) b' = same_setup b b'"
  "same_setup (b\<lparr>stat_pub_received := n\<rparr>) b' = same_setup b b'"
  "same_setup (b\<lparr>stat_sub_received := n\<rparr>) b' = same_setup b b'"
  by (simp_all add: same_setup_def)

section \<open>Frame rules\<close>

text \<open>What the helpers leave alone: the brake and the comparison touch windows and counters only.\<close>

lemma brake_allows_eq:
  "brake_allows DirUp now s lat lon b =
     (let (ok, w) = window_step (brake_limit (config b)) (brake_window_sec (config b)) now
                      (window_at (brake_count_up b) s (get_quadrant lat lon))
      in (ok, b\<lparr>brake_count_up := set_window s (get_quadrant lat lon) w (brake_count_up b),
                stat_braked_up := stat_braked_up b + (if ok then 0 else 1)\<rparr>))"
  "brake_allows DirLocal now s lat lon b =
     (let (ok, w) = window_step (brake_limit (config b)) (brake_window_sec (config b)) now
                      (window_at (brake_count_local b) s (get_quadrant lat lon))
      in (ok, b\<lparr>brake_count_local := set_window s (get_quadrant lat lon) w (brake_count_local b),
                stat_braked_local := stat_braked_local b + (if ok then 0 else 1)\<rparr>))"
  by (simp_all add: brake_allows_def Let_def split: prod.split)

lemma brake_allows_frame:
  assumes "brake_allows dir now s lat lon b = (ok, b')"
  shows "\<exists>up lo nu nl. b' = b\<lparr>brake_count_up := up, brake_count_local := lo,
    stat_braked_up := nu, stat_braked_local := nl\<rparr>"
proof (cases dir)
  case DirUp
  with assms have "\<exists>up nu. b' = b\<lparr>brake_count_up := up, stat_braked_up := nu\<rparr>"
    by (auto simp: brake_allows_eq Let_def split: prod.splits)
  then obtain up nu where "b' = b\<lparr>brake_count_up := up, stat_braked_up := nu\<rparr>" by blast
  then show ?thesis
    by (intro exI [of _ up] exI [of _ "brake_count_local b"] exI [of _ nu] exI [of _ "stat_braked_local b"])
      simp
next
  case DirLocal
  with assms have "\<exists>lo nl. b' = b\<lparr>brake_count_local := lo, stat_braked_local := nl\<rparr>"
    by (auto simp: brake_allows_eq Let_def split: prod.splits)
  then obtain lo nl where "b' = b\<lparr>brake_count_local := lo, stat_braked_local := nl\<rparr>" by blast
  then show ?thesis
    by (intro exI [of _ "brake_count_up b"] exI [of _ lo] exI [of _ "stat_braked_up b"] exI [of _ nl])
      simp
qed

lemma brake_allows_wf:
  assumes "broker_wf b" and "brake_allows dir now s lat lon b = (ok, b')"
  shows "broker_wf b'"
proof -
  let ?q = "get_quadrant lat lon" and ?l = "brake_limit (config b)"
  have step: "window_inv ?l w" if "window_step ?l win now (window_at ws s ?q) = (ok', w)"
    and "windows_wf ?l ws" for win ws ok' w
    using brake_window.inv_step [of ?l "window_at ws s ?q" win now] that
    by (simp add: windows_wf_def)
  show ?thesis
  proof (cases dir)
    case DirUp
    then show ?thesis
      using assms step
      by (auto simp: brake_allows_eq Let_def broker_wf_def crypto_wf_def sets_wf_def active_wf_def
          split: prod.splits intro!: windows_wf_set)
  next
    case DirLocal
    then show ?thesis
      using assms step
      by (auto simp: brake_allows_eq Let_def broker_wf_def crypto_wf_def sets_wf_def active_wf_def
          split: prod.splits intro!: windows_wf_set)
  qed
qed

lemma brake_allows_setup: "brake_allows dir now s lat lon b = (ok, b') \<Longrightarrow> same_setup b' b"
  using brake_allows_frame [of dir now s lat lon b ok b'] by (auto simp: same_setup_def)

lemma execute_match_frame:
  assumes "execute_match E x y z b = Inr (r, b')"
  shows "b' = b\<lparr>stat_match_calls := stat_match_calls b + 1,
                stat_match_hits := stat_match_hits b + (if r then 1 else 0)\<rparr>"
  using assms by (auto simp: execute_match_def Let_def split: sum.splits bool.splits)

lemma execute_match_result:
  assumes "execute_match E x y z b = Inr (r, b')"
  shows "match_test (lib_gmp E) (he_n b) (he_mu b) (he_n_sq b) x y z = Inr r"
  using assms by (auto simp: execute_match_def Let_def split: sum.splits bool.splits)

lemma execute_match_wf:
  "broker_wf b \<Longrightarrow> execute_match E x y z b = Inr (r, b') \<Longrightarrow> broker_wf b'"
  by (drule execute_match_frame)
    (simp add: broker_wf_def crypto_wf_def sets_wf_def active_wf_def)

lemma execute_match_setup: "execute_match E x y z b = Inr (r, b') \<Longrightarrow> same_setup b' b"
  by (drule execute_match_frame) (simp add: same_setup_def)

text \<open>With a modulus, the comparison always comes to a result: GMP never divides by zero.\<close>

lemma execute_match_total:
  assumes "crypto_wf b" and "he_enabled b"
  shows "\<exists>r b'. execute_match E x y z b = Inr (r, b')"
proof -
  have "he_n b \<noteq> 0" "he_n_sq b \<noteq> 0" using assms by (simp_all add: crypto_wf_def)
  from match_test_total [OF this]
  obtain r where "match_test (lib_gmp E) (he_n b) (he_mu b) (he_n_sq b) x y z = Inr r" by blast
  then show ?thesis by (cases r) (auto simp: execute_match_def)
qed

end
