(* ===== verification/Startup.thy ===== *)
theory Startup
  imports Broker_State
begin

text \<open>
  The constructor of \<^verbatim>\<open>DnsMulticastBroker\<close> (\<^verbatim>\<open>src/broker/broker.cpp\<close>): the socket, the parent
  address, the initial region and \<^verbatim>\<open>initCrypto\<close>, with the two key files the root writes and a
  leaf reads. The file system is a map from paths to contents and permission bits; what the
  operating system decides (whether the socket binds, which files can be removed or opened)
  is an argument. Every \<^verbatim>\<open>exit(EXIT_FAILURE)\<close> and every uncaught exception is a value.
\<close>

section \<open>The operating system\<close>

record disk_file =
  f_data :: string
  f_mode :: u32

type_synonym file_system = "string \<Rightarrow> disk_file option"

record os =
  os_socket :: bool
  os_bind :: "u16 \<Rightarrow> bool"
  os_unlink :: "string \<Rightarrow> bool"
  os_open_write :: "string \<Rightarrow> bool"
  os_open_read :: "string \<Rightarrow> bool"
  os_umask :: u32

datatype startup_error = SocketFailed | BindFailed u16 | BadPort std_error | CryptoFailed crypto_error
  | KeyFileUnwritable string | RequireHeFailed

section \<open>Key files\<close>

definition key_file :: string where "key_file = ''/tmp/dnspp_heps.key''"
definition full_key_file :: string where "full_key_file = ''/tmp/dnspp_heps_full.key''"

text \<open>
  \<^verbatim>\<open>openKeyFile600\<close>: unlink, then \<^verbatim>\<open>open\<close> with \<^verbatim>\<open>O_CREAT | O_TRUNC\<close> and mode 0600. \<^verbatim>\<open>open\<close> gives
  the mode, less the umask, to a new file and leaves that of an existing one.
\<close>

definition open_key_file600 :: "os \<Rightarrow> string \<Rightarrow> file_system \<Rightarrow> file_system option" where
  "open_key_file600 Os path fs =
     (let fs1 = (if os_unlink Os path then fs(path := None) else fs)
      in if \<not> os_open_write Os path then None
         else case fs1 path of
                None \<Rightarrow> Some (fs1(path \<mapsto> \<lparr>f_data = [], f_mode = and 0x180 (not (os_umask Os))\<rparr>))
              | Some f \<Rightarrow> Some (fs1(path \<mapsto> f\<lparr>f_data := []\<rparr>)))"

text \<open>The \<^verbatim>\<open>fprintf\<close> calls up to \<^verbatim>\<open>fclose\<close>.\<close>

definition fill_file :: "string \<Rightarrow> string \<Rightarrow> file_system \<Rightarrow> file_system" where
  "fill_file path txt fs =
     (case fs path of None \<Rightarrow> fs | Some f \<Rightarrow> fs(path \<mapsto> f\<lparr>f_data := f_data f @ txt\<rparr>))"

definition write_key_file ::
    "os \<Rightarrow> string \<Rightarrow> string list \<Rightarrow> file_system \<Rightarrow> startup_error + file_system" where
  "write_key_file Os path ls fs =
     (case open_key_file600 Os path fs of None \<Rightarrow> Inl (KeyFileUnwritable path)
      | Some fs1 \<Rightarrow> Inr (fill_file path (write_lines ls) fs1))"

definition read_file :: "os \<Rightarrow> string \<Rightarrow> file_system \<Rightarrow> string option" where
  "read_file Os path fs = (if os_open_read Os path then map_option f_data (fs path) else None)"

section \<open>initCrypto\<close>

definition init_crypto_root ::
    "env \<Rightarrow> os \<Rightarrow> 'r rng \<Rightarrow> file_system \<Rightarrow> 'r \<Rightarrow> broker \<Rightarrow> startup_error + broker \<times> file_system \<times> 'r" where
  "init_crypto_root E Os R fs s b =
     (case key_gen (lib_gmp E) R 2048 s of Inl e \<Rightarrow> Inl (CryptoFailed e)
      | Inr (p, s') \<Rightarrow>
          let b1 = b\<lparr>he_n := kn p, he_mu := kmu p, he_n_sq := kn p * kn p, he_enabled := True,
                     he_key_source := ''generated(root)''\<rparr>
          in (case write_key_file Os key_file
                     [mpz_to_hex (lib_gmp E) (he_n b1), mpz_to_hex (lib_gmp E) (he_mu b1)] fs of
                Inl e \<Rightarrow> Inl e
              | Inr fs1 \<Rightarrow>
                  (case write_key_file Os full_key_file (full_key_lines (lib_gmp E) p) fs1 of
                     Inl e \<Rightarrow> Inl e
                   | Inr fs2 \<Rightarrow> Inr (b1, fs2, s'))))"

text \<open>A leaf: two lines, the modulus not zero; otherwise the fallback or the exit.\<close>

definition leaf_key :: "gmp \<Rightarrow> string option \<Rightarrow> (int \<times> int) option" where
  "leaf_key G txt =
     (case txt of None \<Rightarrow> None
      | Some t \<Rightarrow>
          (case get_lines 2 t of
             Some ([n_hex, mu_hex], _) \<Rightarrow>
               (let n_val = hex_to_mpz G n_hex
                in if n_val = 0 then None else Some (n_val, hex_to_mpz G mu_hex))
           | _ \<Rightarrow> None))"

definition plaintext_warning :: "broker \<Rightarrow> string" where
  "plaintext_warning b = ''[Broker '' @ broker_id (config b) @
     ''] WARNING: HE key unavailable, running in PLAINTEXT mode (require_he=false; '' @ key_file @
     '' missing or malformed)''"

definition init_crypto_leaf ::
    "env \<Rightarrow> os \<Rightarrow> file_system \<Rightarrow> broker \<Rightarrow> startup_error + broker \<times> string list" where
  "init_crypto_leaf E Os fs b =
     (case leaf_key (lib_gmp E) (read_file Os key_file fs) of
        Some (n_val, mu_val) \<Rightarrow>
          Inr (b\<lparr>he_n := n_val, he_mu := mu_val, he_n_sq := n_val * n_val, he_enabled := True,
                 he_key_source := key_file\<rparr>, [])
      | None \<Rightarrow>
          if require_he (config b) then Inl RequireHeFailed
          else Inr (b\<lparr>he_enabled := False\<rparr>, [plaintext_warning b]))"

definition init_crypto ::
    "env \<Rightarrow> os \<Rightarrow> 'r rng \<Rightarrow> file_system \<Rightarrow> 'r \<Rightarrow> broker
      \<Rightarrow> startup_error + broker \<times> file_system \<times> 'r \<times> string list" where
  "init_crypto E Os R fs s b =
     (if \<not> has_parent b
      then case init_crypto_root E Os R fs s b of Inl e \<Rightarrow> Inl e
           | Inr (b1, fs1, s1) \<Rightarrow> Inr (b1, fs1, s1, [])
      else case init_crypto_leaf E Os fs b of Inl e \<Rightarrow> Inl e
           | Inr (b1, logs) \<Rightarrow> Inr (b1, fs, s, logs))"

section \<open>The constructor\<close>

text \<open>
  The parent address. Without a colon \<^verbatim>\<open>substr(0, npos)\<close> and \<^verbatim>\<open>substr(npos + 1)\<close> are both the
  whole text. A host part that \<^verbatim>\<open>inet_pton\<close> does not accept leaves the address as it was.
\<close>

definition resolve_parent :: "string \<Rightarrow> sockaddr \<Rightarrow> std_error + sockaddr" where
  "resolve_parent text old =
     (let (ip, port_text) = (case find_char CHR '':'' text of
             Some colon \<Rightarrow> (take colon text, drop (colon + 1) text)
           | None \<Rightarrow> (text, text))
      in case stoi port_text of Inl e \<Rightarrow> Inl e
         | Inr (v, _) \<Rightarrow>
             let a = old\<lparr>sin_port := word_of_int v\<rparr>
             in Inr (case inet_pton ip of Some w \<Rightarrow> a\<lparr>sin_addr := w\<rparr> | None \<Rightarrow> a))"

text \<open>The members before the body of the constructor; \<open>junk\<close> is the uninitialised \<^verbatim>\<open>parent_addr_\<close>.\<close>

definition blank_broker :: "sockaddr \<Rightarrow> broker_config \<Rightarrow> broker" where
  "blank_broker junk cfg =
     \<lparr>config = cfg, my_region = region_default, has_parent = False, parent_addr = junk,
      children = [], subscribers = [], pub_cache = [], last_active = [],
      brake_count_up = [], brake_count_local = [], child_active = [], ot_parent = [],
      stat_forward_up = 0, stat_forward_down = 0, stat_delivered_local = 0,
      stat_braked_up = 0, stat_braked_local = 0, stat_match_calls = 0, stat_match_hits = 0,
      stat_pub_received = 0, stat_sub_received = 0, stat_sub_groups = 0, stat_he_mode = 0,
      he_n = 0, he_mu = 0, he_n_sq = 0, he_enabled = False, he_key_source = []\<rparr>"

lemma blank_sel [simp]:
  "config (blank_broker junk cfg) = cfg" "parent_addr (blank_broker junk cfg) = junk"
  "he_n (blank_broker junk cfg) = 0" "he_n_sq (blank_broker junk cfg) = 0"
  "children (blank_broker junk cfg) = []"
  "subscribers (blank_broker junk cfg) = []"
  "pub_cache (blank_broker junk cfg) = []"
  "last_active (blank_broker junk cfg) = []"
  "brake_count_up (blank_broker junk cfg) = []"
  "brake_count_local (blank_broker junk cfg) = []"
  "child_active (blank_broker junk cfg) = []"
  "ot_parent (blank_broker junk cfg) = []"
  by (simp_all add: blank_broker_def)

definition show_int :: "int \<Rightarrow> string" where
  "show_int i = (if i < 0 then CHR ''-'' # show_nat (nat (- i)) else show_nat (nat i))"

definition listening_line :: "broker \<Rightarrow> string" where
  "listening_line b = ''[Broker '' @ broker_id (config b) @ ''] Listening on port '' @
     show_nat (unat (listen_port (config b))) @ '' (brake_limit='' @
     show_int (sint (brake_limit (config b))) @ '')'' @
     (if has_parent b then '' (parent: '' @ cfg_parent_addr (config b) @ '')'' else '' (ROOT)'') @
     (if he_enabled b then '' (HE Enabled)'' else [])"

fun scope_str :: "brake_scope \<Rightarrow> string" where
  "scope_str Upward = ''upward''"
| "scope_str Local = ''local''"
| "scope_str Both = ''both''"

definition mode_line :: "broker \<Rightarrow> string" where
  "mode_line b = ''[Broker '' @ broker_id (config b) @ ''] MODE he_enabled='' @
     (if he_enabled b then ''1'' else ''0'') @ '' has_parent='' @
     (if has_parent b then ''1'' else ''0'') @ '' brake_limit='' @
     show_int (sint (brake_limit (config b))) @ '' brake_window='' @
     show_int (brake_window_sec (config b)) @ ''s brake_scope='' @ scope_str (brake_scope (config b))"

definition key_line :: "env \<Rightarrow> broker \<Rightarrow> string" where
  "key_line E b = ''[Broker '' @ broker_id (config b) @ ''] HE_KEY source='' @ he_key_source b @
     '' n_bits='' @ show_nat (mpz_sizeinbase2 (lib_gmp E) (he_n b)) @ '' n_fp='' @
     hex_of_nat (unat (lib_hash E (mpz_to_hex (lib_gmp E) (he_n b))))"

definition broker_new ::
    "env \<Rightarrow> os \<Rightarrow> 'r rng \<Rightarrow> sockaddr \<Rightarrow> broker_config \<Rightarrow> file_system \<Rightarrow> 'r
      \<Rightarrow> startup_error + broker \<times> file_system \<times> 'r \<times> string list" where
  "broker_new E Os R junk cfg fs s =
     (let b0 = (blank_broker junk cfg)\<lparr>has_parent := (cfg_parent_addr cfg \<noteq> [])\<rparr>
      in if \<not> os_socket Os then Inl SocketFailed
         else if \<not> os_bind Os (listen_port cfg) then Inl (BindFailed (listen_port cfg))
         else case (if has_parent b0 then resolve_parent (cfg_parent_addr cfg) (parent_addr b0)
                    else Inr (parent_addr b0)) of
                Inl e \<Rightarrow> Inl (BadPort e)
              | Inr pa \<Rightarrow>
                  let b1 = b0\<lparr>parent_addr := pa, my_region := config_region cfg\<rparr>
                  in (case init_crypto E Os R fs s b1 of Inl e \<Rightarrow> Inl e
                      | Inr (b2, fs2, s2, logs) \<Rightarrow>
                          Inr (b2, fs2, s2, logs @ [listening_line b2, mode_line b2] @
                                 (if he_enabled b2 then [key_line E b2] else []))))"

section \<open>Key files are private\<close>

lemma open_key_file600_mode:
  assumes "open_key_file600 Os path fs = Some fs'" and "os_unlink Os path"
  shows "fs' path = Some \<lparr>f_data = [], f_mode = and 0x180 (not (os_umask Os))\<rparr>"
    and "p \<noteq> path \<Longrightarrow> fs' p = fs p"
  using assms by (auto simp: open_key_file600_def Let_def split: if_splits)

lemma write_key_file_content:
  assumes "write_key_file Os path ls fs = Inr fs'" and "os_unlink Os path"
  shows "fs' path = Some \<lparr>f_data = write_lines ls, f_mode = and 0x180 (not (os_umask Os))\<rparr>"
    and "p \<noteq> path \<Longrightarrow> fs' p = fs p"
proof -
  obtain fs1 where o: "open_key_file600 Os path fs = Some fs1"
    and fs': "fs' = fill_file path (write_lines ls) fs1"
    using assms(1) by (auto simp: write_key_file_def split: option.splits)
  note new = open_key_file600_mode [OF o assms(2)]
  show "fs' path = Some \<lparr>f_data = write_lines ls, f_mode = and 0x180 (not (os_umask Os))\<rparr>"
    by (simp add: fs' fill_file_def new(1))
  show "fs' p = fs p" if "p \<noteq> path"
    using that new(2) [OF that] by (simp add: fs' fill_file_def new(1))
qed

text \<open>No permission for the group or for others, whatever file was there before.\<close>

definition private_mode :: "u32 \<Rightarrow> bool" where
  "private_mode m \<longleftrightarrow> and m 0x3F = 0"

lemma key_mode_private: "private_mode (and 0x180 (not w))"
proof -
  have "and (and 0x180 (not w)) 0x3F = and (and (0x180 :: u32) 0x3F) (not w)"
    by (simp add: and.assoc and.commute and.left_commute)
  also have "and (0x180 :: u32) 0x3F = 0" by simp
  finally show ?thesis by (simp add: private_mode_def)
qed

section \<open>Reading back what the root wrote\<close>

context gmp_spec
begin

lemma leaf_key_written:
  assumes "0 < n" and "0 \<le> mu"
  shows "leaf_key G (Some (write_lines [mpz_to_hex G n, mpz_to_hex G mu])) = Some (n, mu)"
proof -
  let ?ls = "[mpz_to_hex G n, mpz_to_hex G mu]"
  have "\<forall>l \<in> set ?ls. newline \<notin> set l" using assms mpz_to_hex_line by auto
  from get_lines_write [OF this, of "[]"]
  have "get_lines 2 (write_lines ?ls) = Some (?ls, [])" by (simp add: numeral_2_eq_2)
  then show ?thesis using assms by (simp add: leaf_key_def hex_round_trip)
qed

end

section \<open>Every way to start\<close>

lemma key_files_differ [simp]: "key_file \<noteq> full_key_file" "full_key_file \<noteq> key_file"
  by (simp_all add: key_file_def full_key_file_def)

definition no_crypto :: "broker \<Rightarrow> broker" where
  "no_crypto b = b\<lparr>he_n := 0, he_mu := 0, he_n_sq := 0, he_enabled := False, he_key_source := []\<rparr>"

lemma no_crypto_sel [simp]:
  "subscribers (no_crypto b) = subscribers b"
  "pub_cache (no_crypto b) = pub_cache b"
  "children (no_crypto b) = children b"
  "brake_count_up (no_crypto b) = brake_count_up b"
  "brake_count_local (no_crypto b) = brake_count_local b"
  "child_active (no_crypto b) = child_active b"
  "ot_parent (no_crypto b) = ot_parent b"
  "last_active (no_crypto b) = last_active b"
  "config (no_crypto b) = config b"
  "has_parent (no_crypto b) = has_parent b"
  "my_region (no_crypto b) = my_region b"
  by (simp_all add: no_crypto_def)

lemma init_crypto_frame:
  assumes "init_crypto E Os R fs s b = Inr (b', fs', s', logs)"
  shows "no_crypto b' = no_crypto b"
  using assms
  by (auto simp: init_crypto_def init_crypto_root_def init_crypto_leaf_def Let_def no_crypto_def
      split: if_splits sum.splits option.splits prod.splits)

lemma init_crypto_leaf_cases:
  assumes "has_parent b" and "init_crypto E Os R fs s b = Inr (b', fs', s', logs)"
  shows "fs' = fs" and "he_enabled b' \<longleftrightarrow> leaf_key (lib_gmp E) (read_file Os key_file fs) \<noteq> None"
    and "he_enabled b' \<or> \<not> require_he (config b)"
    and "\<not> he_enabled b' \<longleftrightarrow> logs = [plaintext_warning b]"
  using assms
  by (auto simp: init_crypto_def init_crypto_leaf_def split: option.splits if_splits sum.splits)

lemma leaf_key_nonzero: "leaf_key G txt = Some (n, mu) \<Longrightarrow> n \<noteq> 0"
  by (auto simp: leaf_key_def Let_def split: option.splits list.splits if_splits)

lemma init_crypto_wf:
  assumes lib: "gmp_spec (lib_gmp E)" "rng_spec R" and "he_n b = 0" and "he_n_sq b = 0"
    and run: "init_crypto E Os R fs s b = Inr (b', fs', s', logs)"
  shows "crypto_wf b'"
proof (cases "has_parent b")
  case True
  then show ?thesis
    using run assms(3,4) leaf_key_nonzero
    by (fastforce simp: init_crypto_def init_crypto_leaf_def crypto_wf_def
        split: option.splits if_splits sum.splits)
next
  case False
  then obtain p where p: "key_gen (lib_gmp E) R 2048 s = Inr (p, s')"
    and b': "b' = b\<lparr>he_n := kn p, he_mu := kmu p, he_n_sq := kn p * kn p, he_enabled := True,
      he_key_source := ''generated(root)''\<rparr>"
    using run by (auto simp: init_crypto_def init_crypto_root_def Let_def split: sum.splits prod.splits)
  have "2 ^ 2047 \<le> kn p"
    using crypto_lib.key_gen_cases [OF crypto_lib.intro [OF lib], of 1024 s] p by simp
  then have "kn p \<noteq> 0" by (metis not_one_le_zero power_not_zero zero_neq_numeral linorder_not_less zero_less_numeral zero_less_power)
  then show ?thesis by (simp add: b' crypto_wf_def)
qed

section \<open>The state a constructor leaves\<close>

lemma broker_new_cases:
  assumes "broker_new E Os R junk cfg fs s = Inr (b, fs', s', logs)"
  obtains pa logs0 where
    "os_bind Os (listen_port cfg)"
    and "cfg_parent_addr cfg \<noteq> [] \<Longrightarrow> resolve_parent (cfg_parent_addr cfg) junk = Inr pa"
    and "init_crypto E Os R fs s ((blank_broker junk cfg)\<lparr>has_parent := (cfg_parent_addr cfg \<noteq> []),
           parent_addr := pa, my_region := config_region cfg\<rparr>) = Inr (b, fs', s', logs0)"
    and "logs = logs0 @ [listening_line b, mode_line b] @ (if he_enabled b then [key_line E b] else [])"
  using assms
  by (auto simp: broker_new_def Let_def blank_broker_def split: if_splits sum.splits prod.splits)

lemma broker_new_init:
  assumes "broker_new E Os R junk cfg fs s = Inr (b, fs', s', logs)"
  shows "\<exists>pa logs0. init_crypto E Os R fs s ((blank_broker junk cfg)
    \<lparr>has_parent := (cfg_parent_addr cfg \<noteq> []), parent_addr := pa, my_region := config_region cfg\<rparr>)
    = Inr (b, fs', s', logs0)"
  by (rule broker_new_cases [OF assms]) (intro exI)

theorem broker_new_wf:
  assumes lib: "gmp_spec (lib_gmp E)" "rng_spec R"
    and run: "broker_new E Os R junk cfg fs s = Inr (b, fs', s', logs)"
  shows "broker_wf b" and "config b = cfg" and "has_parent b \<longleftrightarrow> cfg_parent_addr cfg \<noteq> []"
    and "my_region b = config_region cfg" and "subscribers b = []" and "children b = []" and "pub_cache b = []" and "ot_parent b = []"
    and "last_active b = []" and "brake_count_up b = []" and "brake_count_local b = []" and "child_active b = []"
proof -
  obtain pa logs0 where init: "init_crypto E Os R fs s ((blank_broker junk cfg)
      \<lparr>has_parent := (cfg_parent_addr cfg \<noteq> []), parent_addr := pa, my_region := config_region cfg\<rparr>)
      = Inr (b, fs', s', logs0)"
    using broker_new_init [OF run] by (elim exE)
  have cr: "crypto_wf b" by (rule init_crypto_wf [OF lib _ _ init]) simp_all
  have frame: "no_crypto b = no_crypto ((blank_broker junk cfg)\<lparr>has_parent := (cfg_parent_addr cfg \<noteq> []),
      parent_addr := pa, my_region := config_region cfg\<rparr>)"
    by (rule init_crypto_frame [OF init])
  have f_subscribers: "subscribers b = []"
    using arg_cong [OF frame, of subscribers] by simp
  have f_pub_cache: "pub_cache b = []"
    using arg_cong [OF frame, of pub_cache] by simp
  have f_children: "children b = []"
    using arg_cong [OF frame, of children] by simp
  have f_brake_count_up: "brake_count_up b = []"
    using arg_cong [OF frame, of brake_count_up] by simp
  have f_brake_count_local: "brake_count_local b = []"
    using arg_cong [OF frame, of brake_count_local] by simp
  have f_child_active: "child_active b = []"
    using arg_cong [OF frame, of child_active] by simp
  have f_ot_parent: "ot_parent b = []"
    using arg_cong [OF frame, of ot_parent] by simp
  have f_last_active: "last_active b = []"
    using arg_cong [OF frame, of last_active] by simp
  have f_config: "config b = cfg"
    using arg_cong [OF frame, of config] by simp
  have f_has_parent: "has_parent b \<longleftrightarrow> cfg_parent_addr cfg \<noteq> []"
    using arg_cong [OF frame, of has_parent] by simp
  have f_my_region: "my_region b = config_region cfg"
    using arg_cong [OF frame, of my_region] by simp
  note empty = f_subscribers f_pub_cache f_children f_brake_count_up f_brake_count_local f_child_active f_ot_parent f_last_active f_config f_has_parent f_my_region
  show "broker_wf b"
    using cr by (simp add: broker_wf_def empty groups_wf_def caches_wf_def children_wf_def
        windows_wf_def window_inv_def sets_wf_def active_wf_def)
  show "config b = cfg" "has_parent b \<longleftrightarrow> cfg_parent_addr cfg \<noteq> []"
    "my_region b = config_region cfg" "subscribers b = []" "children b = []" "pub_cache b = []" "ot_parent b = []"
    "last_active b = []" "brake_count_up b = []" "brake_count_local b = []" "child_active b = []"
    by (fact empty)+
qed

text \<open>
  A root publishes its key: a leaf that starts later on the same file system has the same
  modulus and inverse, and a client that loads the full file holds the root's key.
\<close>

lemma root_files:
  assumes "cfg_parent_addr cfg = []" and "os_unlink Os key_file" and "os_unlink Os full_key_file"
    and run: "broker_new E Os R junk cfg fs s = Inr (b, fs', s', logs)"
  obtains p where "key_gen (lib_gmp E) R 2048 s = Inr (p, s')"
    and "he_n b = kn p" and "he_mu b = kmu p" and "he_enabled b"
    and "fs' key_file = Some \<lparr>f_data = write_lines [mpz_to_hex (lib_gmp E) (kn p), mpz_to_hex (lib_gmp E) (kmu p)],
           f_mode = and 0x180 (not (os_umask Os))\<rparr>"
    and "fs' full_key_file = Some \<lparr>f_data = write_lines (full_key_lines (lib_gmp E) p),
           f_mode = and 0x180 (not (os_umask Os))\<rparr>"
proof -
  obtain pa logs0 where init: "init_crypto E Os R fs s ((blank_broker junk cfg)
      \<lparr>has_parent := (cfg_parent_addr cfg \<noteq> []), parent_addr := pa, my_region := config_region cfg\<rparr>)
      = Inr (b, fs', s', logs0)"
    using broker_new_init [OF run] by (elim exE)
  then obtain p fs1 where p: "key_gen (lib_gmp E) R 2048 s = Inr (p, s')"
    and w1: "write_key_file Os key_file [mpz_to_hex (lib_gmp E) (kn p), mpz_to_hex (lib_gmp E) (kmu p)] fs = Inr fs1"
    and w2: "write_key_file Os full_key_file (full_key_lines (lib_gmp E) p) fs1 = Inr fs'"
    and b: "he_n b = kn p" "he_mu b = kmu p" "he_enabled b"
    using assms(1) by (auto simp: init_crypto_def init_crypto_root_def Let_def split: sum.splits prod.splits)
  note c1 = write_key_file_content [OF w1 assms(2)] and c2 = write_key_file_content [OF w2 assms(3)]
  have "fs' key_file = fs1 key_file" by (rule c2(2)) simp
  with c1(1) c2(1) p b show thesis by (intro that) simp_all
qed

text \<open>So the root, a leaf and a client that read the files of the root hold one key.\<close>

lemma root_keys_agree:
  assumes lib: "gmp_spec (lib_gmp E)" "rng_spec R" and root: "cfg_parent_addr cfg = []"
    and os: "os_unlink Os key_file" "os_unlink Os full_key_file"
      "os_open_read Os key_file" "os_open_read Os full_key_file"
    and run: "broker_new E Os R junk cfg fs s = Inr (b, fs', s', logs)"
  shows "he_enabled b" and "leaf_key (lib_gmp E) (read_file Os key_file fs') = Some (he_n b, he_mu b)"
    and "\<exists>h. load_state (lib_gmp E) (read_file Os full_key_file fs') heps_default = (True, h) \<and>
      heps_n h = he_n b \<and> heps_mu h = he_mu b"
proof -
  obtain p where p: "key_gen (lib_gmp E) R 2048 s = Inr (p, s')"
    and b: "he_n b = kn p" "he_mu b = kmu p" "he_enabled b"
    and f: "fs' key_file = Some \<lparr>f_data = write_lines [mpz_to_hex (lib_gmp E) (kn p), mpz_to_hex (lib_gmp E) (kmu p)],
           f_mode = and 0x180 (not (os_umask Os))\<rparr>"
      "fs' full_key_file = Some \<lparr>f_data = write_lines (full_key_lines (lib_gmp E) p),
           f_mode = and 0x180 (not (os_umask Os))\<rparr>"
    by (rule root_files [OF root os(1,2) run])
  have gen: "2 ^ 2047 \<le> kn p \<and> 1 \<le> kr_m p \<and> kn_sq p = kn p * kn p \<and> kg p = kn p + 1 \<and>
      0 \<le> klambda p \<and> 0 \<le> kmu p \<and> 0 \<le> ke_m p \<and> 0 \<le> kd_m p"
    using crypto_lib.key_gen_cases [OF crypto_lib.intro [OF lib], of 1024 s] p by auto
  have "(0 :: int) < 2 ^ 2047" by (rule zero_less_power) simp
  with gen have n: "0 < kn p" by (meson less_le_trans)
  then have w: "wire_key p" using gen by (simp add: wire_key_def)
  show "he_enabled b" by (fact b(3))
  show "leaf_key (lib_gmp E) (read_file Os key_file fs') = Some (he_n b, he_mu b)"
    using gmp_spec.leaf_key_written [OF lib(1) n] gen os(3) b f(1) by (simp add: read_file_def)
  show "\<exists>h. load_state (lib_gmp E) (read_file Os full_key_file fs') heps_default = (True, h) \<and>
      heps_n h = he_n b \<and> heps_mu h = he_mu b"
    using gmp_spec.load_full_key [OF lib(1) w, of heps_default] gen os(4) b f(2)
    by (simp add: read_file_def)
qed

end
