(* ===== verification/Config.thy ===== *)
theory Config
  imports Startup
begin

text \<open>
  \<^verbatim>\<open>src/main.cpp\<close>: the configuration parser and the program's start. The parser reads the text
  of the file line by line and stops with a \<^verbatim>\<open>config_error\<close> where the code calls \<^verbatim>\<open>configError\<close>,
  which prints the reason and exits. \<^verbatim>\<open>std::stof\<close> is modelled here, hexadecimal and special
  values included, with the correctly rounded result of theory \<^verbatim>\<open>Fp\<close>.
\<close>

section \<open>std::stof\<close>

definition to_lower :: "char \<Rightarrow> char" where
  "to_lower c = (if 65 \<le> (of_char c :: nat) \<and> (of_char c :: nat) \<le> 90
                 then char_of ((of_char c :: nat) + 32) else c)"

definition starts_with_ci :: "string \<Rightarrow> string \<Rightarrow> bool" where
  "starts_with_ci pre s \<longleftrightarrow> length pre \<le> length s \<and> map to_lower (take (length pre) s) = pre"

definition is_xdigit :: "char \<Rightarrow> bool" where
  "is_xdigit c \<longleftrightarrow> is_digit c \<or> (97 \<le> (of_char (to_lower c) :: nat) \<and> (of_char (to_lower c) :: nat) \<le> 102)"

definition xdigit_val :: "char \<Rightarrow> nat" where
  "xdigit_val c = (if is_digit c then of_char c - 48 else of_char (to_lower c) - 87)"

text \<open>Digits in base \<open>base\<close>, with an optional point: the significand and the places after the point.\<close>

definition scan_number :: "(char \<Rightarrow> bool) \<Rightarrow> string \<Rightarrow> string \<times> string \<times> string" where
  "scan_number dig s =
     (let whole = takeWhile dig s; r = dropWhile dig s
      in case r of c # r' \<Rightarrow> if c = CHR ''.'' then (whole, takeWhile dig r', dropWhile dig r') else (whole, [], r)
         | [] \<Rightarrow> (whole, [], r))"

definition base_val :: "nat \<Rightarrow> string \<Rightarrow> nat" where
  "base_val base s = foldl (\<lambda>acc c. acc * base + xdigit_val c) 0 s"

text \<open>An exponent part: the letter, a sign, at least one digit; otherwise it is not part of the number.\<close>

definition scan_exponent :: "char \<Rightarrow> string \<Rightarrow> int" where
  "scan_exponent letter s =
     (case s of [] \<Rightarrow> 0
      | c # r \<Rightarrow>
          if to_lower c \<noteq> letter then 0
          else let neg = (case r of d # _ \<Rightarrow> d = CHR ''-'' | [] \<Rightarrow> False);
                   r' = (case r of d # ds \<Rightarrow> if d = CHR ''-'' \<or> d = CHR ''+'' then ds else r | [] \<Rightarrow> []);
                   v = int (digits_val (takeWhile is_digit r'))
               in if neg then - v else v)"

text \<open>The number a text denotes: a value with its sign, or no conversion.\<close>

datatype real_text = NoNumber | IsNaN | IsInf | IsRat rat

definition scan_real :: "string \<Rightarrow> real_text" where
  "scan_real s =
     (if starts_with_ci ''inf'' s then IsInf
      else if starts_with_ci ''nan'' s then IsNaN
      else let (hw, hf, hr) = scan_number is_xdigit (drop 2 s);
               (w, f, r) = scan_number is_digit s
           in if starts_with_ci ''0x'' s \<and> hw @ hf \<noteq> []
              then IsRat (of_nat (base_val 16 (hw @ hf)) * pow2 (scan_exponent CHR ''p'' hr - 4 * int (length hf)))
              else if w @ f \<noteq> []
              then IsRat (of_nat (base_val 10 (w @ f)) * 10 powi (scan_exponent CHR ''e'' r - int (length f)))
              else NoNumber)"

text \<open>\<^verbatim>\<open>ERANGE\<close>: the rounded magnitude overflows, or is tiny and inexact.\<close>

definition f32_range_error :: "rat \<Rightarrow> bool" where
  "f32_range_error m \<longleftrightarrow>
     m \<noteq> 0 \<and> (pow2 128 \<le> round_mag 24 (-126) m \<or>
              (round_mag 24 (ilog2 m) m < pow2 (-126) \<and> round_mag 24 (-126) m \<noteq> m))"

definition f32_of_rat :: "bool \<Rightarrow> rat \<Rightarrow> f32" where
  "f32_of_rat neg m = narrow (if m = 0 then Zero neg else Fin (if neg then - m else m))"

definition stof :: "string \<Rightarrow> std_error + f32" where
  "stof s =
     (let s1 = dropWhile is_space s;
          neg = (case s1 of c # _ \<Rightarrow> c = CHR ''-'' | [] \<Rightarrow> False);
          s2 = (case s1 of c # r \<Rightarrow> if c = CHR ''-'' \<or> c = CHR ''+'' then r else s1 | [] \<Rightarrow> [])
      in case scan_real s2 of
           NoNumber \<Rightarrow> Inl InvalidArgument
         | IsNaN \<Rightarrow> Inr (if neg then 0xffc00000 else 0x7fc00000)
         | IsInf \<Rightarrow> Inr (narrow (Infty neg))
         | IsRat m \<Rightarrow> if f32_range_error m then Inl OutOfRange else Inr (f32_of_rat neg m))"

section \<open>parseConfig\<close>

datatype config_error = CannotOpen | NotKeyValue nat | EmptyBrokerId nat | NotAnInteger string
  | PortOutOfRange | ParentWithoutColon | CoordsWithoutComma | CoordsNotNumbers | CoordsOutOfRange
  | BrakeLimitTooSmall | BrakeWindowTooSmall | BadRequireHe | BadBrakeScope | UnknownKey nat
  | MissingBrokerId | MissingListenPort | MissingCoords

definition parse_int_field :: "string \<Rightarrow> string \<Rightarrow> config_error + int" where
  "parse_int_field key val =
     (case stoi val of Inl e \<Rightarrow> Inl (NotAnInteger key)
      | Inr (parsed, pos) \<Rightarrow> if pos \<noteq> length val then Inl (NotAnInteger key) else Inr parsed)"

record parse_state =
  ps_cfg :: broker_config
  have_broker_id :: bool
  have_listen_port :: bool
  have_coords :: bool

definition default_config :: broker_config where
  "default_config = \<lparr>broker_id = [], listen_port = 0, cfg_parent_addr = [], cfg_lat = 0, cfg_lon = 0,
     brake_limit = 2, brake_window_sec = 10, brake_scope = Both, require_he = False\<rparr>"

definition parse_coords :: "string \<Rightarrow> config_error + f32 \<times> f32" where
  "parse_coords val =
     (case find_char CHR '','' val of None \<Rightarrow> Inl CoordsWithoutComma
      | Some comma \<Rightarrow>
          (case (stof (take comma val), stof (drop (comma + 1) val)) of
             (Inr lat, Inr lon) \<Rightarrow>
               if flt (widen lat) (Fin (- 90)) \<or> fgt (widen lat) (Fin 90) \<or>
                  flt (widen lon) (Fin (- 180)) \<or> fgt (widen lon) (Fin 180)
               then Inl CoordsOutOfRange else Inr (lat, lon)
           | _ \<Rightarrow> Inl CoordsNotNumbers))"

text \<open>One \<open>key=value\<close> line.\<close>

definition parse_field :: "nat \<Rightarrow> string \<Rightarrow> string \<Rightarrow> parse_state \<Rightarrow> config_error + parse_state" where
  "parse_field lineno key val st =
     (let cfg = ps_cfg st in
      if key = ''broker_id'' then
        (if val = [] then Inl (EmptyBrokerId lineno)
         else Inr (st\<lparr>ps_cfg := cfg\<lparr>broker_id := val\<rparr>, have_broker_id := True\<rparr>))
      else if key = ''listen_port'' then
        (case parse_int_field key val of Inl e \<Rightarrow> Inl e
         | Inr port \<Rightarrow> if port < 1 \<or> port > 65535 then Inl PortOutOfRange
                       else Inr (st\<lparr>ps_cfg := cfg\<lparr>listen_port := word_of_int port\<rparr>, have_listen_port := True\<rparr>))
      else if key = ''parent_addr'' then
        (if val \<noteq> [] \<and> find_char CHR '':'' val = None then Inl ParentWithoutColon
         else Inr (st\<lparr>ps_cfg := cfg\<lparr>cfg_parent_addr := val\<rparr>\<rparr>))
      else if key = ''coords'' then
        (case parse_coords val of Inl e \<Rightarrow> Inl e
         | Inr (lat, lon) \<Rightarrow> Inr (st\<lparr>ps_cfg := cfg\<lparr>cfg_lat := lat, cfg_lon := lon\<rparr>, have_coords := True\<rparr>))
      else if key = ''brake_limit'' then
        (case parse_int_field key val of Inl e \<Rightarrow> Inl e
         | Inr limit \<Rightarrow> if limit < 1 then Inl BrakeLimitTooSmall
                        else Inr (st\<lparr>ps_cfg := cfg\<lparr>brake_limit := word_of_int limit\<rparr>\<rparr>))
      else if key = ''brake_window'' then
        (case parse_int_field key val of Inl e \<Rightarrow> Inl e
         | Inr w \<Rightarrow> if w < 1 then Inl BrakeWindowTooSmall
                    else Inr (st\<lparr>ps_cfg := cfg\<lparr>brake_window_sec := w\<rparr>\<rparr>))
      else if key = ''require_he'' then
        (if val = ''true'' \<or> val = ''1'' then Inr (st\<lparr>ps_cfg := cfg\<lparr>require_he := True\<rparr>\<rparr>)
         else if val = ''false'' \<or> val = ''0'' then Inr (st\<lparr>ps_cfg := cfg\<lparr>require_he := False\<rparr>\<rparr>)
         else Inl BadRequireHe)
      else if key = ''brake_scope'' then
        (if val = ''upward'' then Inr (st\<lparr>ps_cfg := cfg\<lparr>brake_scope := Upward\<rparr>\<rparr>)
         else if val = ''local'' then Inr (st\<lparr>ps_cfg := cfg\<lparr>brake_scope := Local\<rparr>\<rparr>)
         else if val = ''both'' then Inr (st\<lparr>ps_cfg := cfg\<lparr>brake_scope := Both\<rparr>\<rparr>)
         else Inl BadBrakeScope)
      else Inl (UnknownKey lineno))"

definition strip_cr :: "string \<Rightarrow> string" where
  "strip_cr line = (if line \<noteq> [] \<and> last line = CHR 0x0D then butlast line else line)"

definition parse_line :: "nat \<Rightarrow> string \<Rightarrow> parse_state \<Rightarrow> config_error + parse_state" where
  "parse_line lineno raw st =
     (let line = strip_cr raw
      in if line = [] \<or> hd line = CHR ''#'' then Inr st
         else case find_char CHR ''='' line of None \<Rightarrow> Inl (NotKeyValue lineno)
              | Some eq \<Rightarrow> parse_field lineno (take eq line) (drop (eq + 1) line) st)"

fun parse_lines :: "nat \<Rightarrow> string list \<Rightarrow> parse_state \<Rightarrow> config_error + parse_state" where
  "parse_lines lineno [] st = Inr st"
| "parse_lines lineno (l # ls) st =
     (case parse_line (lineno + 1) l st of Inl e \<Rightarrow> Inl e
      | Inr st' \<Rightarrow> parse_lines (lineno + 1) ls st')"

definition parse_config :: "string option \<Rightarrow> config_error + broker_config" where
  "parse_config file =
     (case file of None \<Rightarrow> Inl CannotOpen
      | Some txt \<Rightarrow>
          (case parse_lines 0 (lines_of txt)
                  \<lparr>ps_cfg = default_config, have_broker_id = False, have_listen_port = False,
                   have_coords = False\<rparr> of
             Inl e \<Rightarrow> Inl e
           | Inr st \<Rightarrow>
               if \<not> have_broker_id st then Inl MissingBrokerId
               else if \<not> have_listen_port st then Inl MissingListenPort
               else if \<not> have_coords st then Inl MissingCoords
               else Inr (ps_cfg st)))"

section \<open>main\<close>

datatype exit_reason = Usage | ConfigExit config_error | StartupExit startup_error

text \<open>Up to the call of \<^verbatim>\<open>start\<close>: the arguments, the configuration file, the constructor.\<close>

definition main_start ::
    "env \<Rightarrow> os \<Rightarrow> 'r rng \<Rightarrow> sockaddr \<Rightarrow> string list \<Rightarrow> file_system \<Rightarrow> 'r
      \<Rightarrow> exit_reason + broker \<times> file_system \<times> 'r \<times> string list" where
  "main_start E Os R junk argv fs s =
     (if length argv < 2 then Inl Usage
      else case parse_config (read_file Os (argv ! 1) fs) of
             Inl e \<Rightarrow> Inl (ConfigExit e)
           | Inr cfg \<Rightarrow>
               (case broker_new E Os R junk cfg fs s of
                  Inl e \<Rightarrow> Inl (StartupExit e)
                | Inr r \<Rightarrow> Inr r))"

section \<open>What an accepted configuration satisfies\<close>

definition known_keys :: "string set" where
  "known_keys = {''broker_id'', ''listen_port'', ''parent_addr'', ''coords'', ''brake_limit'',
     ''brake_window'', ''require_he'', ''brake_scope''}"

definition in_range :: "f32 \<Rightarrow> rat \<Rightarrow> bool" where
  "in_range x bound \<longleftrightarrow> widen x = NaN \<or> (fle (Fin (- bound)) (widen x) \<and> fle (widen x) (Fin bound))"

definition config_wf :: "broker_config \<Rightarrow> bool" where
  "config_wf cfg \<longleftrightarrow> 1 \<le> sint (brake_limit cfg) \<and> 1 \<le> brake_window_sec cfg \<and>
     (cfg_parent_addr cfg = [] \<or> CHR '':'' \<in> set (cfg_parent_addr cfg)) \<and>
     in_range (cfg_lat cfg) 90 \<and> in_range (cfg_lon cfg) 180"

definition parse_inv :: "parse_state \<Rightarrow> bool" where
  "parse_inv st \<longleftrightarrow> config_wf (ps_cfg st) \<and> (have_broker_id st \<longrightarrow> broker_id (ps_cfg st) \<noteq> []) \<and>
     (have_listen_port st \<longrightarrow> listen_port (ps_cfg st) \<noteq> 0)"

lemma parse_coords_range:
  "parse_coords val = Inr (lat, lon) \<Longrightarrow> in_range lat 90 \<and> in_range lon 180"
proof -
  assume "parse_coords val = Inr (lat, lon)"
  then have "\<not> flt (widen lat) (Fin (- 90))" "\<not> fgt (widen lat) (Fin 90)"
    "\<not> flt (widen lon) (Fin (- 180))" "\<not> fgt (widen lon) (Fin 180)"
    by (auto simp: parse_coords_def split: option.splits sum.splits if_splits)
  then show ?thesis
    using not_flt_iff [of "widen lat"] not_flt_iff [of "widen lon"] not_flt_iff [of _ "widen lat"]
      not_flt_iff [of _ "widen lon"]
    by (auto simp: in_range_def)
qed

lemma parse_int_range: "parse_int_field key val = Inr v \<Longrightarrow> - (2 ^ 31) \<le> v \<and> v < 2 ^ 31"
  using stoi_range by (auto simp: parse_int_field_def split: sum.splits if_splits)

lemma sint_word_of_int32: "- (2 ^ 31) \<le> v \<Longrightarrow> v < 2 ^ 31 \<Longrightarrow> sint (word_of_int v :: 32 word) = v"
  by (simp add: signed_of_int signed_take_bit_int_eq_self)

lemma parse_port:
  assumes "1 \<le> v" and "v \<le> 65535"
  shows "word_of_int v \<noteq> (0 :: u16)"
proof -
  have "uint (word_of_int v :: u16) = v" using assms by (simp add: unsigned_of_int take_bit_int_eq_self)
  then show ?thesis using assms(1) by auto
qed

lemma parse_limit:
  "parse_int_field key val = Inr v \<Longrightarrow> 1 \<le> v \<Longrightarrow> 1 \<le> sint (word_of_int v :: 32 word)"
  using parse_int_range [of key val v] sint_word_of_int32 [of v] by simp

lemma parse_field_known: "parse_field n key val st = Inr st' \<Longrightarrow> key \<in> known_keys"
  unfolding parse_field_def known_keys_def Let_def by (simp split: if_split_asm)

lemma parse_field_inv:
  assumes inv: "parse_inv st" and run: "parse_field n key val st = Inr st'"
  shows "parse_inv st'"
proof -
  consider "key = ''broker_id''" | "key = ''listen_port''" | "key = ''parent_addr''" | "key = ''coords''"
    | "key = ''brake_limit''" | "key = ''brake_window''" | "key = ''require_he''" | "key = ''brake_scope''"
    using parse_field_known [OF run] unfolding known_keys_def by (elim insertE emptyE)
  then show ?thesis
  proof cases
    case 1
    then have "val \<noteq> []" "st' = st\<lparr>ps_cfg := (ps_cfg st)\<lparr>broker_id := val\<rparr>, have_broker_id := True\<rparr>"
      using run by (simp_all add: parse_field_def Let_def split: if_split_asm)
    then show ?thesis using inv by (simp add: parse_inv_def config_wf_def)
  next
    case 2
    then obtain v where "1 \<le> v" "v \<le> 65535"
      "st' = st\<lparr>ps_cfg := (ps_cfg st)\<lparr>listen_port := word_of_int v\<rparr>, have_listen_port := True\<rparr>"
      using run by (simp add: parse_field_def Let_def not_less split: if_split_asm sum.split_asm) metis
    then show ?thesis using inv parse_port by (simp add: parse_inv_def config_wf_def)
  next
    case 3
    then have "val = [] \<or> find_char CHR '':'' val \<noteq> None"
      "st' = st\<lparr>ps_cfg := (ps_cfg st)\<lparr>cfg_parent_addr := val\<rparr>\<rparr>"
      using run by (simp_all add: parse_field_def Let_def split: if_split_asm)
    then show ?thesis using inv by (simp add: parse_inv_def config_wf_def find_char_None)
  next
    case 4
    then obtain lat lon where "parse_coords val = Inr (lat, lon)"
      "st' = st\<lparr>ps_cfg := (ps_cfg st)\<lparr>cfg_lat := lat, cfg_lon := lon\<rparr>, have_coords := True\<rparr>"
      using run by (simp add: parse_field_def Let_def split: sum.split_asm prod.split_asm)
    then show ?thesis using inv parse_coords_range by (simp add: parse_inv_def config_wf_def)
  next
    case 5
    then obtain v where "parse_int_field key val = Inr v" "1 \<le> v"
      "st' = st\<lparr>ps_cfg := (ps_cfg st)\<lparr>brake_limit := word_of_int v\<rparr>\<rparr>"
      using run by (simp add: parse_field_def Let_def not_less split: if_split_asm sum.split_asm)
    then show ?thesis using inv parse_limit by (simp add: parse_inv_def config_wf_def)
  next
    case 6
    then obtain v where "1 \<le> v" "st' = st\<lparr>ps_cfg := (ps_cfg st)\<lparr>brake_window_sec := v\<rparr>\<rparr>"
      using run by (simp add: parse_field_def Let_def not_less split: if_split_asm sum.split_asm)
    then show ?thesis using inv by (simp add: parse_inv_def config_wf_def)
  next
    case 7
    then obtain v where "st' = st\<lparr>ps_cfg := (ps_cfg st)\<lparr>require_he := v\<rparr>\<rparr>"
      using run by (simp add: parse_field_def Let_def split: if_split_asm) metis+
    then show ?thesis using inv by (simp add: parse_inv_def config_wf_def)
  next
    case 8
    then obtain v where "st' = st\<lparr>ps_cfg := (ps_cfg st)\<lparr>brake_scope := v\<rparr>\<rparr>"
      using run by (simp add: parse_field_def Let_def split: if_split_asm) metis+
    then show ?thesis using inv by (simp add: parse_inv_def config_wf_def)
  qed
qed

lemma parse_line_inv: "parse_inv st \<Longrightarrow> parse_line n l st = Inr st' \<Longrightarrow> parse_inv st'"
  by (auto simp: parse_line_def Let_def split: if_splits option.splits intro: parse_field_inv)

lemma parse_lines_inv: "parse_inv st \<Longrightarrow> parse_lines n ls st = Inr st' \<Longrightarrow> parse_inv st'"
proof (induction ls arbitrary: n st)
  case (Cons l ls)
  then obtain st1 where "parse_line (n + 1) l st = Inr st1" "parse_lines (n + 1) ls st1 = Inr st'"
    by (auto split: sum.splits)
  with Cons show ?case by (blast intro: parse_line_inv)
qed simp

lemma default_config_wf: "config_wf default_config"
  by (simp add: config_wf_def default_config_def in_range_def fle_def)

lemma parse_config_wf:
  assumes "parse_config file = Inr cfg"
  shows "config_wf cfg \<and> broker_id cfg \<noteq> [] \<and> listen_port cfg \<noteq> 0"
proof -
  obtain content st where st: "parse_lines 0 (lines_of content)
      \<lparr>ps_cfg = default_config, have_broker_id = False, have_listen_port = False, have_coords = False\<rparr> = Inr st"
    and ok: "have_broker_id st" "have_listen_port st" "cfg = ps_cfg st"
    using assms by (auto simp: parse_config_def split: option.splits sum.splits if_splits)
  have "parse_inv st"
    by (rule parse_lines_inv [OF _ st]) (simp add: parse_inv_def default_config_wf)
  then show ?thesis using ok by (simp add: parse_inv_def)
qed

text \<open>Every line of an accepted file is empty, a comment, or a known key.\<close>

definition line_ok :: "string \<Rightarrow> bool" where
  "line_ok raw \<longleftrightarrow> strip_cr raw = [] \<or> hd (strip_cr raw) = CHR ''#'' \<or>
     (\<exists>k v. strip_cr raw = k @ CHR ''='' # v \<and> CHR ''='' \<notin> set k \<and> k \<in> known_keys)"

lemma parse_line_ok: "parse_line n raw st = Inr st' \<Longrightarrow> line_ok raw"
  using find_char_Some [of "CHR ''=''" "strip_cr raw"] parse_field_known
  by (auto simp: parse_line_def line_ok_def Let_def split: if_splits option.splits)

lemma parse_lines_ok: "parse_lines n ls st = Inr st' \<Longrightarrow> \<forall>l \<in> set ls. line_ok l"
proof (induction ls arbitrary: n st)
  case (Cons l ls)
  then obtain st1 where "parse_line (n + 1) l st = Inr st1" "parse_lines (n + 1) ls st1 = Inr st'"
    by (auto split: sum.splits)
  with Cons.IH show ?case by (auto dest: parse_line_ok)
qed simp

lemma parse_config_lines:
  "parse_config (Some txt) = Inr cfg \<Longrightarrow> \<forall>l \<in> set (lines_of txt). line_ok l"
  by (auto simp: parse_config_def split: sum.splits if_splits dest: parse_lines_ok)

end
