(* ===== verification/Subscribe.thy ===== *)
theory Subscribe
  imports Broker_State
begin

text \<open>
  \<^verbatim>\<open>handleSubscribe\<close> of \<^verbatim>\<open>src/broker/broker.cpp\<close>: an aggregate subscription from a child, or a
  client's subscription with its group, its region, its query of the publication cache and
  its one propagation to the parent.
\<close>

section \<open>The code\<close>

text \<open>The SUBSCRIBE both branches send to the parent.\<close>

definition subscribe_packet :: "broker_config \<Rightarrow> string \<Rightarrow> byte list" where
  "subscribe_packet cfg key =
     build (add_flags FROM_CHILD (add_coordinates (cfg_lat cfg) (cfg_lon cfg)
       (add_service_name key (builder SUBSCRIBE))))"

text \<open>Propagation: once per key, remembered in \<^verbatim>\<open>ot_parent_\<close>.\<close>

definition propagate_subscription :: "string \<Rightarrow> broker \<Rightarrow> broker \<times> action list" where
  "propagate_subscription key b =
     (if has_parent b \<and> key \<notin> set (ot_parent b)
      then (b\<lparr>ot_parent := List.insert key (ot_parent b)\<rparr>,
            [SendTo (parent_addr b) (subscribe_packet (config b) key)])
      else (b, []))"

text \<open>The branch for a subscription a child broker forwards.\<close>

definition subscribe_from_child :: "string \<Rightarrow> sockaddr \<Rightarrow> broker \<Rightarrow> broker \<times> action list" where
  "subscribe_from_child name client b =
     (let child_id = find_child_by_addr client b
      in if child_id = [] then (b, [])
         else propagate_subscription name
                (b\<lparr>child_active := um_put name
                     (List.insert child_id (um_at [] (child_active b) name)) (child_active b)\<rparr>))"

text \<open>The new subscriber, and the group it joins.\<close>

definition new_client ::
    "sockaddr \<Rightarrow> f32 \<Rightarrow> f32 \<Rightarrow> string option \<Rightarrow> string option \<Rightarrow> geo_client" where
  "new_client client lat lon bval_m1 bval_m2 =
     (let gc = \<lparr>gc_addr = client, gc_lat = lat, gc_lon = lon, cached_closest_dist = DBL_MAX,
                blinded_m1 = [], blinded_m2 = []\<rparr>
      in case (bval_m1, bval_m2) of
           (Some m1, Some m2) \<Rightarrow> gc\<lparr>blinded_m1 := m1, blinded_m2 := m2\<rparr>
         | _ \<Rightarrow> gc)"

definition sub_key_of :: "env \<Rightarrow> broker \<Rightarrow> string \<Rightarrow> string option \<Rightarrow> string" where
  "sub_key_of E b name bval_m1 =
     (if bval_m1 \<noteq> None \<and> he_enabled b then hash_service_name E name else name)"

definition add_subscriber :: "time_t \<Rightarrow> string \<Rightarrow> geo_client \<Rightarrow> broker \<Rightarrow> broker" where
  "add_subscriber now key gc b =
     b\<lparr>subscribers := um_put key (um_at [] (subscribers b) key @ [gc]) (subscribers b),
       last_active := um_put key now (last_active b)\<rparr>"

text \<open>The region grows to the new point; a change is reported to the parent.\<close>

definition grow_region :: "fp \<Rightarrow> fp \<Rightarrow> region \<Rightarrow> region" where
  "grow_region lat lon r =
     \<lparr>min_lat = fmin (min_lat r) lat, max_lat = fmax (max_lat r) lat,
      min_lon = fmin (min_lon r) lon, max_lon = fmax (max_lon r) lon\<rparr>"

definition extend_region :: "f32 \<Rightarrow> f32 \<Rightarrow> broker \<Rightarrow> broker \<times> action list" where
  "extend_region lat lon b =
     (let old_region = my_region b;
          b1 = b\<lparr>my_region := grow_region (widen lat) (widen lon) old_region\<rparr>
      in (b1, if has_parent b1 \<and> region_changed (my_region b1) old_region
              then send_region_update_to_parent b1 else []))"

text \<open>The loop that looks for the closest cached publication.\<close>

fun closest_cached ::
    "(fp \<Rightarrow> fp) \<Rightarrow> f32 \<Rightarrow> f32 \<Rightarrow> cached_pub option \<times> fp \<Rightarrow> cached_pub list \<Rightarrow> cached_pub option \<times> fp"
  where
  "closest_cached C lat lon (best, best_dist) [] = (best, best_dist)"
| "closest_cached C lat lon (best, best_dist) (p # ps) =
     (let d = geo_distance C (widen lat) (widen lon) (widen (cp_lat p)) (widen (cp_lon p))
      in closest_cached C lat lon (if flt d best_dist then (Some p, d) else (best, best_dist)) ps)"

definition set_last_dist :: "fp \<Rightarrow> geo_client list \<Rightarrow> geo_client list" where
  "set_last_dist d gs = butlast gs @ [(last gs)\<lparr>cached_closest_dist := d\<rparr>]"

definition query_cache ::
    "env \<Rightarrow> string \<Rightarrow> f32 \<Rightarrow> f32 \<Rightarrow> sockaddr \<Rightarrow> broker \<Rightarrow> broker \<times> action list" where
  "query_cache E key lat lon client b =
     (case um_find (pub_cache b) key of None \<Rightarrow> (b, [])
      | Some pubs \<Rightarrow>
          if pubs = [] then (b, [])
          else (case closest_cached (lib_cos E) lat lon (None, DBL_MAX) pubs of
                  (None, _) \<Rightarrow> (b, [])
                | (Some best, best_dist) \<Rightarrow>
                    (b\<lparr>subscribers := um_put key
                         (set_last_dist best_dist (um_at [] (subscribers b) key)) (subscribers b)\<rparr>,
                     [SendTo client (raw_message best)])))"

definition subscribe_local ::
    "env \<Rightarrow> time_t \<Rightarrow> tlv_msg \<Rightarrow> string \<Rightarrow> f32 \<Rightarrow> f32 \<Rightarrow> u32 \<Rightarrow> sockaddr \<Rightarrow> broker
      \<Rightarrow> broker \<times> action list" where
  "subscribe_local E now msg name lat lon flags client b =
     (let bval_m1 = get_blinded_value msg;
          bval_m2 = get_blinded_value_hi msg;
          sub_key = sub_key_of E b name bval_m1;
          b1 = add_subscriber now sub_key (new_client client lat lon bval_m1 bval_m2) b;
          (b2, out2) = extend_region lat lon b1;
          (b3, out3) = (if and flags QUERY_MODE \<noteq> 0 then query_cache E sub_key lat lon client b2
                        else (b2, []));
          (b4, out4) = propagate_subscription sub_key b3
      in (b4, out2 @ out3 @ out4))"

definition handle_subscribe ::
    "env \<Rightarrow> time_t \<Rightarrow> tlv_msg \<Rightarrow> sockaddr \<Rightarrow> broker \<Rightarrow> broker \<times> action list" where
  "handle_subscribe E now msg client b0 =
     (let b = b0\<lparr>stat_sub_received := stat_sub_received b0 + 1\<rparr>
      in case get_service_name msg of None \<Rightarrow> (b, [])
         | Some name \<Rightarrow>
             let coords = get_coordinates msg;
                 lat = (case coords of Some c \<Rightarrow> fst c | None \<Rightarrow> 0);
                 lon = (case coords of Some c \<Rightarrow> snd c | None \<Rightarrow> 0);
                 flags = (case get_flags msg of Some f \<Rightarrow> f | None \<Rightarrow> 0)
             in if and flags FROM_CHILD \<noteq> 0 then subscribe_from_child name client b
                else subscribe_local E now msg name lat lon flags client b)"

section \<open>Lemmas\<close>

text \<open>The closest publication: none is closer, and the first of the closest is taken.\<close>

definition pub_dist :: "(fp \<Rightarrow> fp) \<Rightarrow> f32 \<Rightarrow> f32 \<Rightarrow> cached_pub \<Rightarrow> fp" where
  "pub_dist C lat lon p = geo_distance C (widen lat) (widen lon) (widen (cp_lat p)) (widen (cp_lon p))"

lemma closest_cached_step:
  "closest_cached C lat lon (best, d) (p # ps) =
     closest_cached C lat lon (if flt (pub_dist C lat lon p) d then (Some p, pub_dist C lat lon p)
                               else (best, d)) ps"
  by (simp add: pub_dist_def)

lemma closest_cached_result:
  assumes "closest_cached C lat lon (best, d) ps = (best', d')"
  shows "(best' = best \<and> d' = d \<and> (\<forall>p \<in> set ps. \<not> flt (pub_dist C lat lon p) d)) \<or>
         (\<exists>p \<in> set ps. best' = Some p \<and> d' = pub_dist C lat lon p \<and> flt d' d \<and>
            (\<forall>q \<in> set ps. \<not> flt (pub_dist C lat lon q) d'))"
  using assms
proof (induction ps arbitrary: best d)
  case Nil
  then show ?case by simp
next
  case (Cons p ps)
  let ?d = "pub_dist C lat lon p"
  show ?case
  proof (cases "flt ?d d")
    case True
    then have "closest_cached C lat lon (Some p, ?d) ps = (best', d')"
      using Cons.prems by (simp only: closest_cached_step if_True)
    from Cons.IH [OF this] show ?thesis
      using True by (auto intro: flt_trans dest: flt_not_sym)
  next
    case False
    then have "closest_cached C lat lon (best, d) ps = (best', d')"
      using Cons.prems by (simp only: closest_cached_step if_False)
    from Cons.IH [OF this] show ?thesis
      using False by (auto dest: flt_trans)
  qed
qed

lemma grow_region_merge: "grow_region lat lon r = merge r (point_region lat lon)"
  by (simp add: grow_region_def merge_def point_region_def)

lemma grow_region_contains:
  assumes "region_num r" and "lat \<noteq> NaN" and "lon \<noteq> NaN"
  shows "contains (grow_region lat lon r) lat lon"
proof -
  have "contains (point_region lat lon) lat lon"
    using assms(2,3) by (simp add: contains_def point_region_def)
  then show ?thesis by (simp add: grow_region_merge contains_merge_right assms(1))
qed

text \<open>A region that did not grow is not reported, and only then.\<close>

lemma region_changed_refl: "region_num r \<Longrightarrow> \<not> region_changed r r"
  by (simp add: region_changed_def region_num_def)

lemma propagate_wf:
  assumes "broker_wf b" and "propagate_subscription key b = (b', out)"
  shows "broker_wf b' \<and> same_setup b' b"
  using assms
  by (auto simp: propagate_subscription_def broker_wf_def crypto_wf_def sets_wf_def active_wf_def
      same_setup_def split: if_splits)

lemma subscribe_from_child_wf:
  assumes "broker_wf b" and "subscribe_from_child name client b = (b', out)"
  shows "broker_wf b' \<and> same_setup b' b"
proof (cases "find_child_by_addr client b = []")
  case True
  then show ?thesis using assms by (simp add: subscribe_from_child_def)
next
  case False
  let ?b = "b\<lparr>child_active := um_put name
    (List.insert (find_child_by_addr client b) (um_at [] (child_active b) name)) (child_active b)\<rparr>"
  have "broker_wf ?b"
    using assms(1) by (auto simp: broker_wf_def crypto_wf_def sets_wf_def active_wf_def um_invs um_at_def
        split: option.split)
  moreover have "propagate_subscription name ?b = (b', out)"
    using assms(2) False by (simp add: subscribe_from_child_def)
  ultimately have "broker_wf b' \<and> same_setup b' ?b" by (rule propagate_wf)
  then show ?thesis by (simp add: same_setup_def)
qed

lemma new_client_wf [simp]: "client_wf (new_client client lat lon m1 m2)"
  by (cases m1; cases m2) (simp_all add: new_client_def client_wf_def DBL_MAX_def)

lemma add_subscriber_wf:
  "broker_wf b \<Longrightarrow> client_wf gc \<Longrightarrow> broker_wf (add_subscriber now key gc b) \<and>
     same_setup (add_subscriber now key gc b) b"
  using groups_wf_at [of "subscribers b" key]
  by (auto simp: add_subscriber_def broker_wf_def crypto_wf_def sets_wf_def active_wf_def
      same_setup_def um_invs intro!: groups_wf_put)

lemma extend_region_wf:
  "broker_wf b \<Longrightarrow> extend_region lat lon b = (b', out) \<Longrightarrow> broker_wf b' \<and> same_setup b' b"
  by (auto simp: extend_region_def Let_def broker_wf_def crypto_wf_def sets_wf_def active_wf_def
      same_setup_def)

lemma set_last_dist_wf:
  "gs \<noteq> [] \<Longrightarrow> list_all client_wf gs \<Longrightarrow> fle d DBL_MAX \<Longrightarrow>
    set_last_dist d gs \<noteq> [] \<and> list_all client_wf (set_last_dist d gs)"
  by (auto simp: set_last_dist_def list_all_iff client_wf_def dest: in_set_butlastD)

lemma query_cache_wf:
  assumes wf: "broker_wf b" and key: "um_find (subscribers b) key \<noteq> None"
    and run: "query_cache E key lat lon client b = (b', out)"
  shows "broker_wf b' \<and> same_setup b' b"
proof (cases "b' = b")
  case False
  then obtain pubs best d where pubs: "closest_cached (lib_cos E) lat lon (None, DBL_MAX) pubs = (Some best, d)"
    and b': "b' = b\<lparr>subscribers := um_put key
      (set_last_dist d (um_at [] (subscribers b) key)) (subscribers b)\<rparr>"
    using run by (auto simp: query_cache_def split: option.splits if_splits prod.splits)
  have d: "fle d DBL_MAX" using closest_cached_result [OF pubs] by (auto intro: flt_imp_fle)
  obtain gs where gs: "um_find (subscribers b) key = Some gs" using key by blast
  have "groups_wf (subscribers b)" using wf by (simp add: broker_wf_def)
  moreover from this have "gs \<noteq> []" "list_all client_wf gs" using gs by (auto simp: groups_wf_def)
  ultimately have "groups_wf (subscribers b')"
    using set_last_dist_wf [OF _ _ d] gs by (auto simp: b' um_at_def intro!: groups_wf_put)
  then show ?thesis
    using wf key
    by (auto simp: b' broker_wf_def crypto_wf_def sets_wf_def active_wf_def same_setup_def)
qed (simp add: wf)

lemma subscribe_local_wf:
  assumes wf: "broker_wf b" and run: "subscribe_local E now msg name lat lon flags client b = (b', out)"
  shows "broker_wf b' \<and> same_setup b' b"
proof -
  let ?key = "sub_key_of E b name (get_blinded_value msg)"
  let ?gc = "new_client client lat lon (get_blinded_value msg) (get_blinded_value_hi msg)"
  let ?b1 = "add_subscriber now ?key ?gc b"
  obtain b2 out2 where 2: "extend_region lat lon ?b1 = (b2, out2)" by force
  obtain b3 out3 where 3: "(if and flags QUERY_MODE \<noteq> 0 then query_cache E ?key lat lon client b2
      else (b2, [])) = (b3, out3)" by (meson surj_pair)
  have 4: "propagate_subscription ?key b3 = (b', snd (propagate_subscription ?key b3))"
    using run 2 3 by (simp add: subscribe_local_def Let_def split: prod.splits)
  have wf1: "broker_wf ?b1 \<and> same_setup ?b1 b" using add_subscriber_wf [OF wf] by simp
  note wf2 = extend_region_wf [OF conjunct1 [OF wf1] 2]
  have "subscribers b2 = subscribers ?b1" using 2 by (auto simp: extend_region_def Let_def)
  then have "um_find (subscribers b2) ?key \<noteq> None" by (simp add: add_subscriber_def)
  from query_cache_wf [OF conjunct1 [OF wf2] this] 3 wf2
  have wf3: "broker_wf b3 \<and> same_setup b3 b2" by (auto split: if_splits)
  from propagate_wf [OF conjunct1 [OF wf3] 4] wf1 wf2 wf3
  show ?thesis by (simp add: same_setup_def)
qed

theorem handle_subscribe_wf:
  assumes wf: "broker_wf b" and run: "handle_subscribe E now msg client b = (b', out)"
  shows "broker_wf b' \<and> same_setup b' b"
proof -
  let ?b = "b\<lparr>stat_sub_received := stat_sub_received b + 1\<rparr>"
  have wf0: "broker_wf ?b" using wf by (simp add: broker_wf_def crypto_wf_def sets_wf_def active_wf_def)
  have "broker_wf b' \<and> same_setup b' ?b"
  proof (cases "get_service_name msg")
    case None
    then show ?thesis using run wf0 by (simp add: handle_subscribe_def)
  next
    case (Some name)
    then show ?thesis
      using run subscribe_from_child_wf [OF wf0] subscribe_local_wf [OF wf0]
      by (simp add: handle_subscribe_def Let_def split: if_splits)
  qed
  then show ?thesis by (simp add: same_setup_def)
qed

end
