(* ===== verification/Publish.thy ===== *)
theory Publish
  imports Broker_State
begin

text \<open>
  \<^verbatim>\<open>handlePublish\<close> of \<^verbatim>\<open>src/broker/broker.cpp\<close>: the cache, propagation to the parent under the
  upward brake, propagation to the children that improve a quadrant distance, and local
  delivery to the subscribers that get closer, in encrypted mode after one comparison for
  the whole group.
\<close>

section \<open>The code\<close>

definition from_id_of :: "u32 \<Rightarrow> sockaddr \<Rightarrow> broker \<Rightarrow> string" where
  "from_id_of flags client b =
     (if and flags FROM_CHILD \<noteq> 0 then find_child_by_addr client b
      else if and flags FROM_PARENT \<noteq> 0 then ''parent'' else client_addr_str client)"

definition pub_key_of :: "env \<Rightarrow> broker \<Rightarrow> string \<Rightarrow> string option \<Rightarrow> u32 \<Rightarrow> string" where
  "pub_key_of E b name bval_n flags =
     (if bval_n \<noteq> None \<and> he_enabled b \<and> and flags FROM_CHILD = 0 \<and> and flags FROM_PARENT = 0
      then hash_service_name E name else name)"

text \<open>Append to the cache of the key; over ten entries the oldest goes.\<close>

definition cache_pub :: "string \<Rightarrow> cached_pub \<Rightarrow> broker \<Rightarrow> broker" where
  "cache_pub key cp b =
     (let pc = um_put key (um_at [] (pub_cache b) key @ [cp]) (pub_cache b);
          pc' = (if length (um_at [] pc key) > max_pub_cache
                 then um_put key (drop 1 (um_at [] pc key)) pc else pc)
      in b\<lparr>pub_cache := pc'\<rparr>)"

text \<open>The PUBLISH sent on, upwards or downwards.\<close>

definition forward_packet ::
    "tlv_msg \<Rightarrow> string \<Rightarrow> f32 \<Rightarrow> f32 \<Rightarrow> string option \<Rightarrow> u32 \<Rightarrow> byte list" where
  "forward_packet msg key lat lon bval_n dir_flag =
     (let fwd = add_coordinates lat lon (add_service_name key (builder PUBLISH));
          fwd1 = (case get_payload msg of
                    Some p \<Rightarrow> if get_payload_size msg > 0 then set_payload p fwd else fwd
                  | None \<Rightarrow> fwd);
          fwd2 = (case bval_n of Some v \<Rightarrow> add_blinded_value v fwd1 | None \<Rightarrow> fwd1)
      in build (add_flags dir_flag fwd2))"

definition forward_up ::
    "time_t \<Rightarrow> tlv_msg \<Rightarrow> string \<Rightarrow> f32 \<Rightarrow> f32 \<Rightarrow> string option \<Rightarrow> u32 \<Rightarrow> broker
      \<Rightarrow> broker \<times> action list" where
  "forward_up now msg key lat lon bval_n flags b =
     (let brake_upward = (brake_scope (config b) = Upward \<or> brake_scope (config b) = Both)
      in if has_parent b \<and> and flags FROM_PARENT = 0
         then let (ok, b1) = (if brake_upward then brake_allows DirUp now key lat lon b else (True, b))
              in if ok
                 then (b1\<lparr>stat_forward_up := stat_forward_up b1 + 1\<rparr>,
                       [SendTo (parent_addr b1) (forward_packet msg key lat lon bval_n FROM_CHILD)])
                 else (b1, [])
         else (b, []))"

text \<open>The loop over the children with subscribers of the key.\<close>

definition offer_child ::
    "env \<Rightarrow> tlv_msg \<Rightarrow> string \<Rightarrow> f32 \<Rightarrow> f32 \<Rightarrow> string option \<Rightarrow> string \<Rightarrow> string \<Rightarrow> broker
      \<Rightarrow> broker \<times> action list" where
  "offer_child E msg key lat lon bval_n from_id child_id b =
     (if child_id = from_id then (b, [])
      else case um_find (children b) child_id of None \<Rightarrow> (b, [])
           | Some child \<Rightarrow>
               let q = quadrant_of (ch_region child) (widen lat) (widen lon);
                   centers = quadrant_centers (ch_region child);
                   dist = geo_distance (lib_cos E) (widen lat) (widen lon)
                            (fst (centers ! q)) (snd (centers ! q))
               in if flt dist (closest_quad child ! q)
                  then (b\<lparr>children := um_put child_id
                            (child\<lparr>closest_quad := (closest_quad child)[q := dist]\<rparr>) (children b),
                          stat_forward_down := stat_forward_down b + 1\<rparr>,
                        [SendTo (ch_addr child) (forward_packet msg key lat lon bval_n FROM_PARENT)])
                  else (b, []))"

fun offer_children ::
    "env \<Rightarrow> tlv_msg \<Rightarrow> string \<Rightarrow> f32 \<Rightarrow> f32 \<Rightarrow> string option \<Rightarrow> string \<Rightarrow> string list \<Rightarrow> broker
      \<Rightarrow> broker \<times> action list" where
  "offer_children E msg key lat lon bval_n from_id [] b = (b, [])"
| "offer_children E msg key lat lon bval_n from_id (c # cs) b =
     (let (b1, out1) = offer_child E msg key lat lon bval_n from_id c b;
          (b2, out2) = offer_children E msg key lat lon bval_n from_id cs b1
      in (b2, out1 @ out2))"

definition forward_down ::
    "env \<Rightarrow> tlv_msg \<Rightarrow> string \<Rightarrow> f32 \<Rightarrow> f32 \<Rightarrow> string option \<Rightarrow> string \<Rightarrow> broker
      \<Rightarrow> broker \<times> action list" where
  "forward_down E msg key lat lon bval_n from_id b =
     (case um_find (child_active b) key of None \<Rightarrow> (b, [])
      | Some cs \<Rightarrow> offer_children E msg key lat lon bval_n from_id cs b)"

text \<open>The delivery loop over one group, the same in both modes.\<close>

fun deliver_group ::
    "(fp \<Rightarrow> fp) \<Rightarrow> f32 \<Rightarrow> f32 \<Rightarrow> byte list \<Rightarrow> geo_client list \<Rightarrow> geo_client list \<times> action list" where
  "deliver_group C lat lon raw [] = ([], [])"
| "deliver_group C lat lon raw (gc # gcs) =
     (let dist = geo_distance C (widen lat) (widen lon) (widen (gc_lat gc)) (widen (gc_lon gc));
          (gcs', out) = deliver_group C lat lon raw gcs
      in if flt dist (cached_closest_dist gc)
         then (gc\<lparr>cached_closest_dist := dist\<rparr> # gcs', SendTo (gc_addr gc) raw # out)
         else (gc # gcs', out))"

definition deliver_all ::
    "env \<Rightarrow> string \<Rightarrow> f32 \<Rightarrow> f32 \<Rightarrow> byte list \<Rightarrow> broker \<Rightarrow> broker \<times> action list" where
  "deliver_all E key lat lon raw b =
     (let (gcs, out) = deliver_group (lib_cos E) lat lon raw (um_at [] (subscribers b) key)
      in (b\<lparr>subscribers := um_put key gcs (subscribers b),
            stat_delivered_local := stat_delivered_local b + word_of_nat (length out)\<rparr>, out))"

definition deliver_local ::
    "env \<Rightarrow> time_t \<Rightarrow> tlv_msg \<Rightarrow> string \<Rightarrow> f32 \<Rightarrow> f32 \<Rightarrow> string option \<Rightarrow> broker
      \<Rightarrow> crypto_error + broker \<times> action list" where
  "deliver_local E now msg key lat lon bval_n b =
     (case um_find (subscribers b) key of None \<Rightarrow> Inr (b, [])
      | Some [] \<Rightarrow> Inr (b, [])
      | Some (gc0 # rest) \<Rightarrow>
          let brake_local = (brake_scope (config b) = Local \<or> brake_scope (config b) = Both);
              (ok, b1) = (if brake_local then brake_allows DirLocal now key lat lon b else (True, b))
          in if \<not> ok then Inr (b1, [])
             else case (he_enabled b1, bval_n) of
                    (True, Some bval) \<Rightarrow>
                      if blinded_m1 gc0 = [] then Inr (b1, [])
                      else (case execute_match E bval (blinded_m1 gc0) (blinded_m2 gc0) b1 of
                              Inl e \<Rightarrow> Inl e
                            | Inr (False, b2) \<Rightarrow> Inr (b2, [])
                            | Inr (True, b2) \<Rightarrow> Inr (deliver_all E key lat lon (data msg) b2))
                  | _ \<Rightarrow> Inr (deliver_all E key lat lon (data msg) b1))"

text \<open>\<open>t_up\<close> and \<open>t_local\<close> are what the two calls of \<^verbatim>\<open>time\<close> in the brake return.\<close>

definition handle_publish ::
    "env \<Rightarrow> time_t \<Rightarrow> time_t \<Rightarrow> tlv_msg \<Rightarrow> sockaddr \<Rightarrow> broker
      \<Rightarrow> crypto_error + broker \<times> action list" where
  "handle_publish E t_up t_local msg client b0 =
     (let b = b0\<lparr>stat_pub_received := stat_pub_received b0 + 1\<rparr>
      in case get_service_name msg of None \<Rightarrow> Inr (b, [])
         | Some name \<Rightarrow>
             let coords = get_coordinates msg;
                 lat = (case coords of Some c \<Rightarrow> fst c | None \<Rightarrow> 0);
                 lon = (case coords of Some c \<Rightarrow> snd c | None \<Rightarrow> 0);
                 flags = (case get_flags msg of Some f \<Rightarrow> f | None \<Rightarrow> 0);
                 from_id = from_id_of flags client b;
                 bval_n = get_blinded_value msg;
                 key = pub_key_of E b name bval_n flags;
                 b1 = cache_pub key \<lparr>cp_lat = lat, cp_lon = lon, raw_message = data msg\<rparr> b;
                 (b2, out2) = forward_up t_up msg key lat lon bval_n flags b1;
                 (b3, out3) = forward_down E msg key lat lon bval_n from_id b2
             in (case deliver_local E t_local msg key lat lon bval_n b3 of
                   Inl e \<Rightarrow> Inl e
                 | Inr (b4, out4) \<Rightarrow> Inr (b4, out2 @ out3 @ out4)))"

section \<open>The delivery rule\<close>

text \<open>
  A subscriber gets the publication exactly when it is strictly closer than everything it got
  before, and then that distance is recorded.
\<close>

definition client_dist :: "(fp \<Rightarrow> fp) \<Rightarrow> f32 \<Rightarrow> f32 \<Rightarrow> geo_client \<Rightarrow> fp" where
  "client_dist C lat lon g =
     geo_distance C (widen lat) (widen lon) (widen (gc_lat g)) (widen (gc_lon g))"

definition closer :: "(fp \<Rightarrow> fp) \<Rightarrow> f32 \<Rightarrow> f32 \<Rightarrow> geo_client \<Rightarrow> bool" where
  "closer C lat lon g \<longleftrightarrow> flt (client_dist C lat lon g) (cached_closest_dist g)"

definition after_delivery :: "(fp \<Rightarrow> fp) \<Rightarrow> f32 \<Rightarrow> f32 \<Rightarrow> geo_client \<Rightarrow> geo_client" where
  "after_delivery C lat lon g =
     (if closer C lat lon g then g\<lparr>cached_closest_dist := client_dist C lat lon g\<rparr> else g)"

lemma deliver_group_spec:
  "deliver_group C lat lon raw gs =
     (map (after_delivery C lat lon) gs,
      map (\<lambda>g. SendTo (gc_addr g) raw) (filter (closer C lat lon) gs))"
  by (induction gs)
    (simp_all add: closer_def after_delivery_def client_dist_def Let_def case_prod_beta)

lemma after_delivery_frame [simp]:
  "gc_addr (after_delivery C lat lon g) = gc_addr g" "gc_lat (after_delivery C lat lon g) = gc_lat g"
  "gc_lon (after_delivery C lat lon g) = gc_lon g"
  "blinded_m1 (after_delivery C lat lon g) = blinded_m1 g"
  "blinded_m2 (after_delivery C lat lon g) = blinded_m2 g"
  by (simp_all add: after_delivery_def)

lemma client_dist_after [simp]: "client_dist C lat' lon' (after_delivery C lat lon g) = client_dist C lat' lon' g"
  by (simp add: client_dist_def)

lemma after_delivery_wf: "client_wf g \<Longrightarrow> client_wf (after_delivery C lat lon g)"
  by (auto simp: after_delivery_def closer_def client_wf_def intro: fle_trans flt_imp_fle)

text \<open>Recorded distances never grow, and the same publication is not delivered twice.\<close>

lemma after_delivery_decreases:
  "client_wf g \<Longrightarrow> fle (cached_closest_dist (after_delivery C lat lon g)) (cached_closest_dist g)"
  by (cases "closer C lat lon g")
    (auto simp: after_delivery_def closer_def client_wf_def intro: flt_imp_fle)

lemma not_closer_again: "\<not> closer C lat lon (after_delivery C lat lon g)"
  by (cases "closer C lat lon g") (simp_all add: closer_def after_delivery_def client_dist_def)

lemma deliver_group_twice:
  "deliver_group C lat lon raw (fst (deliver_group C lat lon raw' gs))
     = (fst (deliver_group C lat lon raw' gs), [])"
proof -
  have "after_delivery C lat lon (after_delivery C lat lon g) = after_delivery C lat lon g" for g
    using not_closer_again [of C lat lon g] by (simp add: after_delivery_def [of C lat lon "after_delivery C lat lon g"])
  then show ?thesis by (simp add: deliver_group_spec filter_map comp_def not_closer_again)
qed

section \<open>Well-formedness\<close>

lemma cache_pub_wf:
  assumes "broker_wf b"
  shows "broker_wf (cache_pub key cp b) \<and> same_setup (cache_pub key cp b) b"
proof -
  let ?pc = "pub_cache b"
  have pc: "caches_wf ?pc" using assms by (simp add: broker_wf_def)
  have len: "length (um_at [] ?pc key) \<le> max_pub_cache"
    using pc by (auto simp: caches_wf_def um_at_def split: option.split)
  have "caches_wf (pub_cache (cache_pub key cp b))"
    using pc len by (auto simp: cache_pub_def Let_def caches_wf_def um_invs max_pub_cache_def)
  then show ?thesis
    using assms
    by (auto simp: cache_pub_def Let_def broker_wf_def crypto_wf_def sets_wf_def active_wf_def same_setup_def)
qed

lemma forward_up_wf:
  assumes wf: "broker_wf b" and run: "forward_up now msg key lat lon bval_n flags b = (b', out)"
  shows "broker_wf b' \<and> same_setup b' b"
proof -
  obtain ok b1 where 1: "(if brake_scope (config b) = Upward \<or> brake_scope (config b) = Both
      then brake_allows DirUp now key lat lon b else (True, b)) = (ok, b1)" by force
  have "broker_wf b1 \<and> same_setup b1 b"
    using wf 1 brake_allows_wf [OF wf, of DirUp now key lat lon ok b1]
      brake_allows_setup [of DirUp now key lat lon b ok b1]
    by (auto split: if_splits)
  moreover have "b' = b \<or> b' = b1 \<or> b' = b1\<lparr>stat_forward_up := stat_forward_up b1 + 1\<rparr>"
    using run 1 by (auto simp: forward_up_def Let_def split: if_splits)
  ultimately show ?thesis using wf by auto
qed

lemma offer_child_wf:
  assumes wf: "broker_wf b" and run: "offer_child E msg key lat lon bval_n from_id c b = (b', out)"
  shows "broker_wf b' \<and> same_setup b' b"
proof (cases "b' = b")
  case False
  then obtain child q dist where child: "um_find (children b) c = Some child"
    and lt: "flt dist (closest_quad child ! q)" and q: "q < 4"
    and b': "b' = b\<lparr>children := um_put c
      (child\<lparr>closest_quad := (closest_quad child)[q := dist]\<rparr>) (children b),
      stat_forward_down := stat_forward_down b + 1\<rparr>"
    using run quadrant_of_bound
    by (auto simp: offer_child_def Let_def split: if_splits option.splits)
  have ch: "children_wf (children b)" using wf by (simp add: broker_wf_def)
  then have c: "child_wf child" "ch_id child = c" using child by (auto simp: children_wf_def)
  have "fle (closest_quad child ! q) DBL_MAX"
    using c(1) q by (simp add: child_wf_def list_all_length)
  then have "fle dist DBL_MAX" using lt by (blast intro: flt_imp_fle fle_trans)
  then have "child_wf (child\<lparr>closest_quad := (closest_quad child)[q := dist]\<rparr>)"
    using c(1) by (auto simp: child_wf_def list_all_iff dest!: set_update_subset_insert [THEN subsetD])
  then show ?thesis
    using wf c(2) ch
    by (auto simp: b' broker_wf_def crypto_wf_def sets_wf_def active_wf_def same_setup_def
        intro!: children_wf_put)
qed (simp add: wf)

lemma offer_children_wf:
  assumes "broker_wf b" and "offer_children E msg key lat lon bval_n from_id cs b = (b', out)"
  shows "broker_wf b' \<and> same_setup b' b"
  using assms
proof (induction cs arbitrary: b out)
  case (Cons c cs)
  obtain b1 out1 where 1: "offer_child E msg key lat lon bval_n from_id c b = (b1, out1)" by force
  obtain b2 out2 where 2: "offer_children E msg key lat lon bval_n from_id cs b1 = (b2, out2)" by force
  note wf1 = offer_child_wf [OF Cons.prems(1) 1]
  have "offer_children E msg key lat lon bval_n from_id cs b1 = (b', out2)"
    using Cons.prems(2) 1 2 by simp
  from Cons.IH [OF conjunct1 [OF wf1] this] wf1 show ?case by (auto simp: same_setup_def)
qed simp

lemma forward_down_wf:
  "broker_wf b \<Longrightarrow> forward_down E msg key lat lon bval_n from_id b = (b', out) \<Longrightarrow>
     broker_wf b' \<and> same_setup b' b"
  by (auto simp: forward_down_def split: option.splits dest: offer_children_wf)

lemma deliver_all_wf:
  assumes wf: "broker_wf b" and key: "um_find (subscribers b) key = Some gs"
  shows "broker_wf (fst (deliver_all E key lat lon raw b)) \<and>
         same_setup (fst (deliver_all E key lat lon raw b)) b"
proof -
  have g: "groups_wf (subscribers b)" using wf by (simp add: broker_wf_def)
  then have "gs \<noteq> []" "list_all client_wf gs" using key by (auto simp: groups_wf_def)
  then have "groups_wf (um_put key (map (after_delivery (lib_cos E) lat lon) gs) (subscribers b))"
    using g by (auto intro!: groups_wf_put simp: list_all_iff after_delivery_wf)
  then show ?thesis
    using wf key
    by (auto simp: deliver_all_def deliver_group_spec um_at_def broker_wf_def crypto_wf_def
        sets_wf_def active_wf_def same_setup_def)
qed

lemma deliver_local_wf:
  assumes wf: "broker_wf b" and run: "deliver_local E now msg key lat lon bval_n b = Inr (b', out)"
  shows "broker_wf b' \<and> same_setup b' b"
proof (cases "um_find (subscribers b) key")
  case None
  then show ?thesis using wf run by (simp add: deliver_local_def)
next
  case (Some gs)
  have "groups_wf (subscribers b)" using wf by (simp add: broker_wf_def)
  then obtain gc0 rest where gs: "gs = gc0 # rest"
    using Some by (cases gs) (auto simp: groups_wf_def)
  obtain ok b1 where 1: "(if brake_scope (config b) = Local \<or> brake_scope (config b) = Both
      then brake_allows DirLocal now key lat lon b else (True, b)) = (ok, b1)" by force
  have wf1: "broker_wf b1 \<and> same_setup b1 b"
    using wf 1 brake_allows_wf [OF wf, of DirLocal now key lat lon ok b1]
      brake_allows_setup [of DirLocal now key lat lon b ok b1]
    by (auto split: if_splits)
  have sub1: "um_find (subscribers b1) key = Some gs"
    using 1 Some brake_allows_frame [of DirLocal now key lat lon b ok b1] by (auto split: if_splits)
  consider (same) "b' = b1" | (plain) "b' = fst (deliver_all E key lat lon (data msg) b1)"
    | (failed) bval where "execute_match E bval (blinded_m1 gc0) (blinded_m2 gc0) b1 = Inr (False, b')"
    | (matched) bval b2 where "execute_match E bval (blinded_m1 gc0) (blinded_m2 gc0) b1 = Inr (True, b2)"
        "b' = fst (deliver_all E key lat lon (data msg) b2)"
    using run Some gs 1
    by (auto simp: deliver_local_def Let_def split: if_splits option.splits bool.splits sum.splits)
  then show ?thesis
  proof cases
    case same
    then show ?thesis using wf1 by simp
  next
    case plain
    then show ?thesis
      using deliver_all_wf [OF conjunct1 [OF wf1] sub1, of E lat lon "data msg"] wf1
      by (auto simp: same_setup_def)
  next
    case failed
    then show ?thesis
      using wf1 execute_match_wf [OF _ failed] execute_match_setup [OF failed]
      by (auto simp: same_setup_def)
  next
    case matched
    have wf2: "broker_wf b2 \<and> same_setup b2 b1"
      using wf1 execute_match_wf [OF _ matched(1)] execute_match_setup [OF matched(1)] by simp
    have "um_find (subscribers b2) key = Some gs"
      using sub1 execute_match_frame [OF matched(1)] by simp
    from deliver_all_wf [OF conjunct1 [OF wf2] this, of E lat lon "data msg"] wf1 wf2 matched(2)
    show ?thesis by (auto simp: same_setup_def)
  qed
qed

text \<open>The fields of the message the handlers work with, with the defaults of missing ones.\<close>

definition msg_lat :: "tlv_msg \<Rightarrow> f32" where
  "msg_lat msg = (case get_coordinates msg of Some c \<Rightarrow> fst c | None \<Rightarrow> 0)"

definition msg_lon :: "tlv_msg \<Rightarrow> f32" where
  "msg_lon msg = (case get_coordinates msg of Some c \<Rightarrow> snd c | None \<Rightarrow> 0)"

definition msg_flags :: "tlv_msg \<Rightarrow> u32" where
  "msg_flags msg = (case get_flags msg of Some f \<Rightarrow> f | None \<Rightarrow> 0)"

text \<open>The four stages of a publication with a name.\<close>

lemma handle_publish_stages:
  assumes "handle_publish E t_up t_local msg client b = Inr (b', out)"
    and "get_service_name msg = Some name"
    and "b0 = b\<lparr>stat_pub_received := stat_pub_received b + 1\<rparr>"
    and "key = pub_key_of E b0 name (get_blinded_value msg) (msg_flags msg)"
  obtains b2 b3 out2 out3 out4 where
    "forward_up t_up msg key (msg_lat msg) (msg_lon msg) (get_blinded_value msg) (msg_flags msg)
       (cache_pub key \<lparr>cp_lat = msg_lat msg, cp_lon = msg_lon msg, raw_message = data msg\<rparr> b0) = (b2, out2)"
    and "forward_down E msg key (msg_lat msg) (msg_lon msg) (get_blinded_value msg)
       (from_id_of (msg_flags msg) client b0) b2 = (b3, out3)"
    and "deliver_local E t_local msg key (msg_lat msg) (msg_lon msg) (get_blinded_value msg) b3
       = Inr (b', out4)"
    and "out = out2 @ out3 @ out4"
  using assms
  by (auto simp: handle_publish_def Let_def msg_lat_def msg_lon_def msg_flags_def
      split: sum.splits prod.splits)

theorem handle_publish_wf:
  assumes wf: "broker_wf b" and run: "handle_publish E t_up t_local msg client b = Inr (b', out)"
  shows "broker_wf b' \<and> same_setup b' b"
proof (cases "get_service_name msg")
  case None
  then show ?thesis using run wf by (auto simp: handle_publish_def)
next
  case (Some name)
  let ?b = "b\<lparr>stat_pub_received := stat_pub_received b + 1\<rparr>"
  let ?key = "pub_key_of E ?b name (get_blinded_value msg) (msg_flags msg)"
  let ?cp = "\<lparr>cp_lat = msg_lat msg, cp_lon = msg_lon msg, raw_message = data msg\<rparr>"
  have wf0: "broker_wf ?b" using wf by simp
  show ?thesis
  proof (rule handle_publish_stages [OF run Some refl refl])
    fix b2 b3 out2 out3 out4
    assume 2: "forward_up t_up msg ?key (msg_lat msg) (msg_lon msg) (get_blinded_value msg)
        (msg_flags msg) (cache_pub ?key ?cp ?b) = (b2, out2)"
      and 3: "forward_down E msg ?key (msg_lat msg) (msg_lon msg) (get_blinded_value msg)
        (from_id_of (msg_flags msg) client ?b) b2 = (b3, out3)"
      and 4: "deliver_local E t_local msg ?key (msg_lat msg) (msg_lon msg) (get_blinded_value msg) b3
        = Inr (b', out4)"
    have wf1: "broker_wf (cache_pub ?key ?cp ?b) \<and> same_setup (cache_pub ?key ?cp ?b) ?b"
      by (rule cache_pub_wf [OF wf0])
    note wf2 = forward_up_wf [OF conjunct1 [OF wf1] 2]
    note wf3 = forward_down_wf [OF conjunct1 [OF wf2] 3]
    from deliver_local_wf [OF conjunct1 [OF wf3] 4] wf1 wf2 wf3 show ?thesis
      by (auto simp: same_setup_def)
  qed
qed

text \<open>No publication can make GMP divide by zero.\<close>

lemma deliver_local_total:
  assumes "broker_wf b"
  shows "\<exists>r. deliver_local E now msg key lat lon bval_n b = Inr r"
proof (cases "um_find (subscribers b) key")
  case None
  then show ?thesis by (simp add: deliver_local_def)
next
  case (Some gs)
  show ?thesis
  proof (cases gs)
    case Nil
    with Some show ?thesis by (simp add: deliver_local_def)
  next
    case (Cons gc0 rest)
    obtain ok b1 where 1: "(if brake_scope (config b) = Local \<or> brake_scope (config b) = Both
        then brake_allows DirLocal now key lat lon b else (True, b)) = (ok, b1)" by force
    have "crypto_wf b1"
      using 1 assms brake_allows_frame [of DirLocal now key lat lon b ok b1]
      by (auto simp: broker_wf_def crypto_wf_def split: if_splits)
    then have "he_enabled b1 \<Longrightarrow> \<exists>r b'. execute_match E x y z b1 = Inr (r, b')" for x y z
      by (rule execute_match_total)
    with Some Cons 1 show ?thesis
      by (auto simp: deliver_local_def Let_def split: option.splits bool.splits sum.splits)
        (metis sum.distinct(1) sum.inject(2) surj_pair)+
  qed
qed

theorem handle_publish_total:
  assumes "broker_wf b"
  shows "\<exists>b' out. handle_publish E t_up t_local msg client b = Inr (b', out)"
proof (cases "get_service_name msg")
  case None
  then show ?thesis by (simp add: handle_publish_def)
next
  case (Some name)
  let ?b = "b\<lparr>stat_pub_received := stat_pub_received b + 1\<rparr>"
  have wf0: "broker_wf ?b" using assms by simp
  have "\<exists>r. deliver_local E t_local msg key lat lon bval_n (fst (forward_down E msg key lat lon bval_n from_id
      (fst (forward_up t_up msg key lat lon bval_n flags (cache_pub key cp ?b))))) = Inr r"
    for key lat lon bval_n from_id flags cp
  proof -
    have 1: "broker_wf (cache_pub key cp ?b)" using cache_pub_wf [OF wf0] by blast
    have 2: "broker_wf (fst (forward_up t_up msg key lat lon bval_n flags (cache_pub key cp ?b)))"
      using forward_up_wf [OF 1] by (metis prod.collapse)
    have "broker_wf (fst (forward_down E msg key lat lon bval_n from_id
        (fst (forward_up t_up msg key lat lon bval_n flags (cache_pub key cp ?b)))))"
      using forward_down_wf [OF 2] by (metis prod.collapse)
    then show ?thesis by (rule deliver_local_total)
  qed
  then show ?thesis
    using Some
    by (simp add: handle_publish_def Let_def case_prod_beta split: sum.split)
      (metis sum.distinct(1))
qed

section \<open>What goes to the parent and to the children\<close>

lemma forward_up_actions:
  assumes "forward_up now msg key lat lon bval_n flags b = (b', out)"
  shows "stat_forward_up b' = stat_forward_up b + word_of_nat (length out)"
    and "stat_forward_down b' = stat_forward_down b" and "stat_delivered_local b' = stat_delivered_local b"
    and "subscribers b' = subscribers b" and "children b' = children b" and "child_active b' = child_active b"
    and "out = [] \<or> out = [SendTo (parent_addr b) (forward_packet msg key lat lon bval_n FROM_CHILD)]"
proof -
  obtain ok b1 where 1: "(if brake_scope (config b) = Upward \<or> brake_scope (config b) = Both
      then brake_allows DirUp now key lat lon b else (True, b)) = (ok, b1)" by force
  have "b1 = b \<or> brake_allows DirUp now key lat lon b = (ok, b1)" using 1 by (auto split: if_splits)
  then obtain up lo nu nl where b1: "b1 = b \<or> b1 = b\<lparr>brake_count_up := up, brake_count_local := lo,
      stat_braked_up := nu, stat_braked_local := nl\<rparr>"
    using brake_allows_frame by blast
  have "(b', out) = (b, []) \<or> (b', out) = (b1, []) \<or>
    (b', out) = (b1\<lparr>stat_forward_up := stat_forward_up b1 + 1\<rparr>,
      [SendTo (parent_addr b1) (forward_packet msg key lat lon bval_n FROM_CHILD)])"
    using assms 1 by (auto simp: forward_up_def Let_def split: if_splits)
  with b1 show "stat_forward_up b' = stat_forward_up b + word_of_nat (length out)"
    "stat_forward_down b' = stat_forward_down b" "stat_delivered_local b' = stat_delivered_local b"
    "subscribers b' = subscribers b" "children b' = children b" "child_active b' = child_active b"
    "out = [] \<or> out = [SendTo (parent_addr b) (forward_packet msg key lat lon bval_n FROM_CHILD)]"
    by auto
qed

text \<open>A child gets the publication exactly when it improves on the best of its quadrant.\<close>

definition child_quad :: "child_broker \<Rightarrow> f32 \<Rightarrow> f32 \<Rightarrow> nat" where
  "child_quad c lat lon = quadrant_of (ch_region c) (widen lat) (widen lon)"

definition child_dist :: "env \<Rightarrow> child_broker \<Rightarrow> f32 \<Rightarrow> f32 \<Rightarrow> fp" where
  "child_dist E c lat lon =
     (let ctr = quadrant_centers (ch_region c) ! child_quad c lat lon
      in geo_distance (lib_cos E) (widen lat) (widen lon) (fst ctr) (snd ctr))"

definition child_accepts ::
    "env \<Rightarrow> f32 \<Rightarrow> f32 \<Rightarrow> string \<Rightarrow> broker \<Rightarrow> string \<Rightarrow> bool" where
  "child_accepts E lat lon from_id b i \<longleftrightarrow> i \<noteq> from_id \<and>
     (case um_find (children b) i of None \<Rightarrow> False
      | Some c \<Rightarrow> flt (child_dist E c lat lon) (closest_quad c ! child_quad c lat lon))"

definition child_updated :: "env \<Rightarrow> f32 \<Rightarrow> f32 \<Rightarrow> child_broker \<Rightarrow> child_broker" where
  "child_updated E lat lon c =
     c\<lparr>closest_quad := (closest_quad c)[child_quad c lat lon := child_dist E c lat lon]\<rparr>"

definition child_sends ::
    "tlv_msg \<Rightarrow> string \<Rightarrow> f32 \<Rightarrow> f32 \<Rightarrow> string option \<Rightarrow> broker \<Rightarrow> string \<Rightarrow> action" where
  "child_sends msg key lat lon bval_n b i =
     SendTo (ch_addr (the (um_find (children b) i))) (forward_packet msg key lat lon bval_n FROM_PARENT)"

lemma offer_child_eq:
  "offer_child E msg key lat lon bval_n from_id i b =
     (if child_accepts E lat lon from_id b i
      then (b\<lparr>children := um_put i (child_updated E lat lon (the (um_find (children b) i))) (children b),
              stat_forward_down := stat_forward_down b + 1\<rparr>,
            [child_sends msg key lat lon bval_n b i])
      else (b, []))"
  by (auto simp: offer_child_def child_accepts_def child_updated_def child_sends_def child_dist_def
      child_quad_def Let_def split: option.splits)

lemma offer_children_result:
  assumes "distinct cs" and "offer_children E msg key lat lon bval_n from_id cs b = (b', out)"
  shows "out = map (child_sends msg key lat lon bval_n b) (filter (child_accepts E lat lon from_id b) cs) \<and>
    (\<forall>i. um_find (children b') i =
       (if i \<in> set cs \<and> child_accepts E lat lon from_id b i
        then map_option (child_updated E lat lon) (um_find (children b) i) else um_find (children b) i)) \<and>
    stat_forward_down b' = stat_forward_down b + word_of_nat (length out) \<and>
    stat_forward_up b' = stat_forward_up b \<and> stat_delivered_local b' = stat_delivered_local b \<and>
    subscribers b' = subscribers b"
  using assms
proof (induction cs arbitrary: b out)
  case (Cons c cs)
  obtain b1 out1 where 1: "offer_child E msg key lat lon bval_n from_id c b = (b1, out1)" by force
  obtain out2 where 2: "offer_children E msg key lat lon bval_n from_id cs b1 = (b', out2)"
    and out: "out = out1 @ out2"
    using Cons.prems(2) 1 by (auto split: prod.splits)
  have other: "um_find (children b1) i = um_find (children b) i" if "i \<noteq> c" for i
    using 1 that by (auto simp: offer_child_eq split: if_splits)
  have acc: "child_accepts E lat lon from_id b1 i = child_accepts E lat lon from_id b i"
    "child_sends msg key lat lon bval_n b1 i = child_sends msg key lat lon bval_n b i" if "i \<in> set cs" for i
  proof -
    have "i \<noteq> c" using that Cons.prems(1) by auto
    from other [OF this] show "child_accepts E lat lon from_id b1 i = child_accepts E lat lon from_id b i"
      "child_sends msg key lat lon bval_n b1 i = child_sends msg key lat lon bval_n b i"
      by (simp_all add: child_accepts_def child_sends_def)
  qed
  have "filter (child_accepts E lat lon from_id b1) cs = filter (child_accepts E lat lon from_id b) cs"
    using acc(1) by (intro filter_cong) simp_all
  moreover have "map (child_sends msg key lat lon bval_n b1) (filter (child_accepts E lat lon from_id b) cs)
      = map (child_sends msg key lat lon bval_n b) (filter (child_accepts E lat lon from_id b) cs)"
    using acc(2) by (intro map_cong) auto
  ultimately have IH: "out2 = map (child_sends msg key lat lon bval_n b) (filter (child_accepts E lat lon from_id b) cs)"
    "\<forall>i. um_find (children b') i =
       (if i \<in> set cs \<and> child_accepts E lat lon from_id b1 i
        then map_option (child_updated E lat lon) (um_find (children b1) i) else um_find (children b1) i)"
    "stat_forward_down b' = stat_forward_down b1 + word_of_nat (length out2)"
    "stat_forward_up b' = stat_forward_up b1" "stat_delivered_local b' = stat_delivered_local b1"
    "subscribers b' = subscribers b1"
    using Cons.IH [OF _ 2] Cons.prems(1) by simp_all
  have c: "c \<notin> set cs" using Cons.prems(1) by simp
  show ?case
  proof (cases "child_accepts E lat lon from_id b c")
    case True
    then have b1: "b1 = b\<lparr>children := um_put c (child_updated E lat lon (the (um_find (children b) c))) (children b),
        stat_forward_down := stat_forward_down b + 1\<rparr>" "out1 = [child_sends msg key lat lon bval_n b c]"
      using 1 by (simp_all add: offer_child_eq)
    obtain ch where ch: "um_find (children b) c = Some ch"
      using True by (auto simp: child_accepts_def split: option.splits)
    have "um_find (children b') i = (if i \<in> set (c # cs) \<and> child_accepts E lat lon from_id b i
        then map_option (child_updated E lat lon) (um_find (children b) i) else um_find (children b) i)" for i
    proof (cases "i = c")
      case True
      then show ?thesis using IH(2) c ch \<open>child_accepts E lat lon from_id b c\<close> b1(1) by simp
    next
      case False
      then show ?thesis using IH(2) other [OF False] acc(1) by auto
    qed
    with True IH b1 show ?thesis by (simp add: out)
  next
    case False
    then have b1: "b1 = b" "out1 = []" using 1 by (simp_all add: offer_child_eq)
    have "um_find (children b') i = (if i \<in> set (c # cs) \<and> child_accepts E lat lon from_id b i
        then map_option (child_updated E lat lon) (um_find (children b) i) else um_find (children b) i)" for i
      using IH(2) b1 False c by auto
    with False IH b1 show ?thesis by (simp add: out)
  qed
qed simp

text \<open>The whole downward half of a publication.\<close>

definition active_children :: "broker \<Rightarrow> string \<Rightarrow> string list" where
  "active_children b key = (case um_find (child_active b) key of None \<Rightarrow> [] | Some cs \<Rightarrow> cs)"

lemma forward_down_result:
  assumes "broker_wf b" and "forward_down E msg key lat lon bval_n from_id b = (b', out)"
  shows "out = map (child_sends msg key lat lon bval_n b)
      (filter (child_accepts E lat lon from_id b) (active_children b key)) \<and>
    stat_forward_down b' = stat_forward_down b + word_of_nat (length out) \<and>
    stat_forward_up b' = stat_forward_up b \<and> stat_delivered_local b' = stat_delivered_local b \<and>
    subscribers b' = subscribers b"
proof (cases "um_find (child_active b) key")
  case None
  then show ?thesis using assms(2) by (simp add: forward_down_def active_children_def)
next
  case (Some cs)
  have "distinct cs" using assms(1) Some by (auto simp: broker_wf_def sets_wf_def)
  from offer_children_result [OF this] Some assms(2) show ?thesis
    by (simp add: forward_down_def active_children_def)
qed

end
