(* ===== verification/Control.thy ===== *)
theory Control
  imports Broker_State
begin

text \<open>
  The remaining handlers of \<^verbatim>\<open>src/broker/broker.cpp\<close>: heartbeats, the HELLO handshake and
  region updates of child brokers, the statistics response, and the expiry of groups.
\<close>

section \<open>The code\<close>

definition TTL_SECONDS :: time_t where "TTL_SECONDS = 15"

definition handle_heartbeat :: "time_t \<Rightarrow> tlv_msg \<Rightarrow> broker \<Rightarrow> broker" where
  "handle_heartbeat now msg b =
     (case get_service_name msg of None \<Rightarrow> b
      | Some name \<Rightarrow> b\<lparr>last_active := um_put name now (last_active b)\<rparr>)"

definition hello_ack_packet :: "broker_config \<Rightarrow> byte list" where
  "hello_ack_packet cfg = build (add_service_name (broker_id cfg) (builder HELLO_ACK))"

definition handle_hello :: "tlv_msg \<Rightarrow> sockaddr \<Rightarrow> broker \<Rightarrow> broker \<times> action list" where
  "handle_hello msg addr b =
     (case (get_service_name msg, get_coordinates msg) of
        (Some child_id, Some (lat, lon)) \<Rightarrow>
          let child = (um_at child_default (children b) child_id)
                \<lparr>ch_id := child_id, ch_addr := addr, ch_lat := lat, ch_lon := lon,
                 ch_region := point_region (widen lat) (widen lon)\<rparr>;
              b1 = update_my_region (b\<lparr>children := um_put child_id child (children b)\<rparr>)
          in (b1, [SendTo addr (hello_ack_packet (config b1))])
      | _ \<Rightarrow> (b, []))"

definition handle_region_update :: "tlv_msg \<Rightarrow> broker \<Rightarrow> broker \<times> action list" where
  "handle_region_update msg b =
     (case (get_service_name msg, get_region msg) of
        (Some child_id, Some new_region) \<Rightarrow>
          (case um_find (children b) child_id of None \<Rightarrow> (b, [])
           | Some child \<Rightarrow>
               let b1 = b\<lparr>children := um_put child_id (child\<lparr>ch_region := new_region\<rparr>) (children b)\<rparr>;
                   old_region = my_region b1;
                   b2 = update_my_region b1
               in (b2, if has_parent b2 \<and> region_changed (my_region b2) old_region
                       then send_region_update_to_parent b2 else []))
      | _ \<Rightarrow> (b, []))"

text \<open>The two arrays of counters in the response, 4 and 12 numbers in network order.\<close>

definition braked_total :: "broker \<Rightarrow> u64" where
  "braked_total b = stat_braked_up b + stat_braked_local b"

definition stats_values :: "broker \<Rightarrow> u64 list" where
  "stats_values b = [stat_forward_up b, stat_forward_down b, stat_delivered_local b, braked_total b]"

definition ext_values :: "broker \<Rightarrow> u64 list" where
  "ext_values b =
     [stat_forward_up b, stat_forward_down b, stat_delivered_local b, braked_total b,
      stat_match_calls b, stat_match_hits b, stat_pub_received b, stat_sub_received b,
      stat_sub_groups b, stat_he_mode b, stat_braked_up b, stat_braked_local b]"

definition stats_bytes :: "u64 list \<Rightarrow> byte list" where
  "stats_bytes vs = concat (map put64 vs)"

definition snapshot_stats :: "broker \<Rightarrow> broker" where
  "snapshot_stats b =
     b\<lparr>stat_sub_groups := word_of_nat (length (subscribers b)),
       stat_he_mode := (if he_enabled b then 1 else 0)\<rparr>"

definition stats_packet :: "broker \<Rightarrow> byte list" where
  "stats_packet b =
     build (add_tlv STATS_DATA_EXT (stats_bytes (ext_values b)) 96
       (add_tlv STATS_DATA (stats_bytes (stats_values b)) 32 (builder STATS_RESPONSE)))"

definition handle_stats_request :: "sockaddr \<Rightarrow> broker \<Rightarrow> broker \<times> action list" where
  "handle_stats_request client b =
     (let b1 = snapshot_stats b in (b1, [SendTo client (stats_packet b1)]))"

text \<open>
  The expiry loop over the keys of \<^verbatim>\<open>subscribers\<close>. \<^verbatim>\<open>last_active[name]\<close> creates a missing entry.
\<close>

definition expire_group :: "string \<Rightarrow> broker \<Rightarrow> broker" where
  "expire_group name b =
     b\<lparr>last_active := um_erase name (last_active b), pub_cache := um_erase name (pub_cache b),
       brake_count_up := um_erase name (brake_count_up b),
       brake_count_local := um_erase name (brake_count_local b),
       subscribers := um_erase name (subscribers b)\<rparr>"

definition cleanup_one :: "time_t \<Rightarrow> string \<Rightarrow> broker \<Rightarrow> broker" where
  "cleanup_one now name b =
     (let last = um_at 0 (last_active b) name;
          b1 = (if um_find (last_active b) name = None
                then b\<lparr>last_active := um_put name 0 (last_active b)\<rparr> else b)
      in if now - last > TTL_SECONDS then expire_group name b1 else b1)"

definition cleanup_expired :: "time_t \<Rightarrow> broker \<Rightarrow> broker" where
  "cleanup_expired now b = fold (cleanup_one now) (map fst (subscribers b)) b"

section \<open>Well-formedness\<close>

lemmas wf_parts = broker_wf_def crypto_wf_def sets_wf_def active_wf_def same_setup_def

lemma handle_heartbeat_wf:
  "broker_wf b \<Longrightarrow> broker_wf (handle_heartbeat now msg b) \<and> same_setup (handle_heartbeat now msg b) b"
  by (auto simp: handle_heartbeat_def wf_parts um_invs split: option.split)

lemma update_my_region_wf:
  "broker_wf b \<Longrightarrow> broker_wf (update_my_region b) \<and> same_setup (update_my_region b) b"
  by (auto simp: update_my_region_def wf_parts)

lemma child_default_wf [simp]: "child_wf child_default"
  by (simp add: child_wf_def child_default_def DBL_MAX_def)

lemma put_child_wf:
  assumes "broker_wf b" and "child_wf c" and "ch_id c = i"
  shows "broker_wf (b\<lparr>children := um_put i c (children b)\<rparr>) \<and>
         same_setup (b\<lparr>children := um_put i c (children b)\<rparr>) b"
  using assms by (auto simp: wf_parts intro!: children_wf_put)

lemma handle_hello_wf:
  assumes wf: "broker_wf b" and run: "handle_hello msg addr b = (b', out)"
  shows "broker_wf b' \<and> same_setup b' b"
proof (cases "b' = b")
  case False
  then obtain i lat lon where b': "b' = update_my_region (b\<lparr>children := um_put i
      ((um_at child_default (children b) i)\<lparr>ch_id := i, ch_addr := addr, ch_lat := lat, ch_lon := lon,
        ch_region := point_region (widen lat) (widen lon)\<rparr>) (children b)\<rparr>)"
    using run by (auto simp: handle_hello_def Let_def split: option.splits prod.splits)
  have "child_wf (um_at child_default (children b) i)"
    using wf by (auto simp: broker_wf_def children_wf_def um_at_def split: option.split)
  then have "child_wf ((um_at child_default (children b) i)\<lparr>ch_id := i, ch_addr := addr,
      ch_lat := lat, ch_lon := lon, ch_region := point_region (widen lat) (widen lon)\<rparr>)"
    by (simp add: child_wf_def)
  from put_child_wf [OF wf this] show ?thesis
    unfolding b' using update_my_region_wf by (fastforce simp: same_setup_def)
qed (simp add: wf)

lemma handle_region_update_wf:
  assumes wf: "broker_wf b" and run: "handle_region_update msg b = (b', out)"
  shows "broker_wf b' \<and> same_setup b' b"
proof (cases "b' = b")
  case False
  then obtain i c r where c: "um_find (children b) i = Some c"
    and b': "b' = update_my_region (b\<lparr>children := um_put i (c\<lparr>ch_region := r\<rparr>) (children b)\<rparr>)"
    using run by (auto simp: handle_region_update_def Let_def split: option.splits prod.splits)
  have "child_wf (c\<lparr>ch_region := r\<rparr>)" "ch_id (c\<lparr>ch_region := r\<rparr>) = i"
    using wf c by (auto simp: broker_wf_def children_wf_def child_wf_def)
  from put_child_wf [OF wf this] show ?thesis
    unfolding b' using update_my_region_wf by (fastforce simp: same_setup_def)
qed (simp add: wf)

lemma handle_stats_request_wf:
  "broker_wf b \<Longrightarrow> handle_stats_request client b = (b', out) \<Longrightarrow> broker_wf b' \<and> same_setup b' b"
  by (auto simp: handle_stats_request_def snapshot_stats_def Let_def wf_parts)

lemma expire_group_wf:
  "broker_wf b \<Longrightarrow> broker_wf (expire_group name b) \<and> same_setup (expire_group name b) b"
  by (auto simp: expire_group_def wf_parts wf_erase um_invs)

lemma cleanup_one_wf:
  "broker_wf b \<Longrightarrow> broker_wf (cleanup_one now name b) \<and> same_setup (cleanup_one now name b) b"
proof -
  assume wf: "broker_wf b"
  let ?b = "b\<lparr>last_active := um_put name 0 (last_active b)\<rparr>"
  have "broker_wf ?b \<and> same_setup ?b b" using wf by (auto simp: wf_parts um_invs)
  then show ?thesis
    using wf expire_group_wf [of b name] expire_group_wf [of ?b name]
    by (auto simp: cleanup_one_def Let_def same_setup_def)
qed

lemma fold_cleanup_wf:
  "broker_wf b \<Longrightarrow> broker_wf (fold (cleanup_one now) ks b) \<and> same_setup (fold (cleanup_one now) ks b) b"
proof (induction ks arbitrary: b)
  case (Cons k ks)
  with cleanup_one_wf [OF Cons.prems, of now k] Cons.IH [of "cleanup_one now k b"]
  show ?case by (auto simp: same_setup_def)
qed simp

theorem cleanup_expired_wf:
  "broker_wf b \<Longrightarrow> broker_wf (cleanup_expired now b) \<and> same_setup (cleanup_expired now b) b"
  unfolding cleanup_expired_def by (rule fold_cleanup_wf)

section \<open>What cleanup removes\<close>

text \<open>In a well-formed state no entry is created, so a group goes exactly when it is overdue.\<close>

definition overdue :: "time_t \<Rightarrow> broker \<Rightarrow> string \<Rightarrow> bool" where
  "overdue now b name \<longleftrightarrow> um_find (subscribers b) name \<noteq> None \<and>
     now - um_at 0 (last_active b) name > TTL_SECONDS"

lemma cleanup_one_eq:
  assumes "broker_wf b" and "um_find (subscribers b) name \<noteq> None"
  shows "cleanup_one now name b = (if overdue now b name then expire_group name b else b)"
proof -
  obtain t where "um_find (last_active b) name = Some t"
    using assms by (auto simp: broker_wf_def active_wf_def)
  then show ?thesis using assms(2) by (simp add: cleanup_one_def overdue_def Let_def)
qed

lemma expire_group_finds:
  "um_find (subscribers (expire_group n b)) k = (if k = n then None else um_find (subscribers b) k)"
  "um_find (pub_cache (expire_group n b)) k = (if k = n then None else um_find (pub_cache b) k)"
  "um_find (last_active (expire_group n b)) k = (if k = n then None else um_find (last_active b) k)"
  "window_at (brake_count_up (expire_group n b)) k q = (if k = n then [] else window_at (brake_count_up b) k q)"
  "window_at (brake_count_local (expire_group n b)) k q = (if k = n then [] else window_at (brake_count_local b) k q)"
  "child_active (expire_group n b) = child_active b"
  by (simp_all add: expire_group_def)

lemma overdue_expire: "overdue now (expire_group n b) k \<longleftrightarrow> k \<noteq> n \<and> overdue now b k"
  by (auto simp: overdue_def expire_group_def um_at_def split: option.splits)

lemma fold_cleanup_finds:
  assumes "broker_wf b" and "distinct ks" and "\<forall>k \<in> set ks. um_find (subscribers b) k \<noteq> None"
  shows "um_find (subscribers (fold (cleanup_one now) ks b)) k
       = (if k \<in> set ks \<and> overdue now b k then None else um_find (subscribers b) k)"
    and "um_find (pub_cache (fold (cleanup_one now) ks b)) k
       = (if k \<in> set ks \<and> overdue now b k then None else um_find (pub_cache b) k)"
    and "um_find (last_active (fold (cleanup_one now) ks b)) k
       = (if k \<in> set ks \<and> overdue now b k then None else um_find (last_active b) k)"
    and "window_at (brake_count_up (fold (cleanup_one now) ks b)) k q
       = (if k \<in> set ks \<and> overdue now b k then [] else window_at (brake_count_up b) k q)"
    and "window_at (brake_count_local (fold (cleanup_one now) ks b)) k q
       = (if k \<in> set ks \<and> overdue now b k then [] else window_at (brake_count_local b) k q)"
    and "child_active (fold (cleanup_one now) ks b) = child_active b"
  using assms
proof (atomize (full), induction ks arbitrary: b)
  case (Cons n ks)
  have n: "um_find (subscribers b) n \<noteq> None" using Cons.prems by simp
  note eq = cleanup_one_eq [OF Cons.prems(1) n, of now]
  have wf: "broker_wf (cleanup_one now n b)" using cleanup_one_wf Cons.prems(1) by blast
  have "\<forall>k \<in> set ks. um_find (subscribers (cleanup_one now n b)) k \<noteq> None"
    using Cons.prems by (auto simp: eq expire_group_finds)
  from Cons.IH [OF wf _ this] Cons.prems show ?case
    by (auto simp: eq expire_group_finds overdue_expire)
qed simp

theorem cleanup_expired_finds:
  assumes "broker_wf b"
  shows "um_find (subscribers (cleanup_expired now b)) k
       = (if overdue now b k then None else um_find (subscribers b) k)"
    and "um_find (pub_cache (cleanup_expired now b)) k
       = (if overdue now b k then None else um_find (pub_cache b) k)"
    and "um_find (last_active (cleanup_expired now b)) k
       = (if overdue now b k then None else um_find (last_active b) k)"
    and "window_at (brake_count_up (cleanup_expired now b)) k q
       = (if overdue now b k then [] else window_at (brake_count_up b) k q)"
    and "window_at (brake_count_local (cleanup_expired now b)) k q
       = (if overdue now b k then [] else window_at (brake_count_local b) k q)"
    and "child_active (cleanup_expired now b) = child_active b"
proof -
  have inv: "um_inv (subscribers b)" using assms by (simp add: broker_wf_def groups_wf_def)
  then have d: "distinct (map fst (subscribers b))" by (simp add: um_inv_def)
  have keys: "k \<in> set (map fst (subscribers b)) \<longleftrightarrow> um_find (subscribers b) k \<noteq> None" for k
    using um_keys_find [of k "subscribers b"] by (simp add: um_keys_def)
  have dom: "\<forall>k \<in> set (map fst (subscribers b)). um_find (subscribers b) k \<noteq> None"
    using keys by blast
  have od: "k \<in> set (map fst (subscribers b)) \<and> overdue now b k \<longleftrightarrow> overdue now b k"
    using keys by (auto simp: overdue_def)
  show "um_find (subscribers (cleanup_expired now b)) k
       = (if overdue now b k then None else um_find (subscribers b) k)"
    "um_find (pub_cache (cleanup_expired now b)) k
       = (if overdue now b k then None else um_find (pub_cache b) k)"
    "um_find (last_active (cleanup_expired now b)) k
       = (if overdue now b k then None else um_find (last_active b) k)"
    "window_at (brake_count_up (cleanup_expired now b)) k q
       = (if overdue now b k then [] else window_at (brake_count_up b) k q)"
    "window_at (brake_count_local (cleanup_expired now b)) k q
       = (if overdue now b k then [] else window_at (brake_count_local b) k q)"
    "child_active (cleanup_expired now b) = child_active b"
    using fold_cleanup_finds(1-3) [OF assms d dom, of now k] fold_cleanup_finds(4,5) [OF assms d dom, of now k q]
      fold_cleanup_finds(6) [OF assms d dom, of now] unfolding cleanup_expired_def od by blast+
qed

section \<open>The statistics response\<close>

text \<open>A client that reads the numbers back: the \<open>i\<close>-th big-endian 64-bit word.\<close>

definition stat_slot :: "byte list \<Rightarrow> nat \<Rightarrow> u64" where
  "stat_slot bs i = get64 (sub_list (8 * i) 8 bs)"

lemma length_put64 [simp]: "length (put64 w) = 8"
  by (rule length_put)

lemma length_stats_bytes [simp]: "length (stats_bytes vs) = 8 * length vs"
  by (induction vs) (simp_all add: stats_bytes_def)

lemma stat_slot_bytes: "i < length vs \<Longrightarrow> stat_slot (stats_bytes vs) i = vs ! i"
proof (induction vs arbitrary: i)
  case (Cons v vs)
  show ?case
  proof (cases i)
    case 0
    then show ?thesis by (simp add: stat_slot_def stats_bytes_def sub_list_def)
  next
    case (Suc j)
    then have "stat_slot (stats_bytes (v # vs)) i = stat_slot (stats_bytes vs) j"
      by (simp add: stat_slot_def stats_bytes_def sub_list_def)
    with Suc Cons show ?thesis by simp
  qed
qed simp

lemma stats_packet_fields:
  "packet_ok (add_tlv STATS_DATA_EXT (stats_bytes (ext_values b)) 96
       (add_tlv STATS_DATA (stats_bytes (stats_values b)) 32 (builder STATS_RESPONSE)))
     [(tlv_code STATS_DATA, stats_bytes (stats_values b)),
      (tlv_code STATS_DATA_EXT, stats_bytes (ext_values b))]"
proof -
  have "holds (add_tlv STATS_DATA (stats_bytes (stats_values b)) 32 (builder STATS_RESPONSE))
      [(tlv_code STATS_DATA, stats_bytes (stats_values b))]"
    using holds_add_tlv [where t = STATS_DATA and len = 32 and d = "stats_bytes (stats_values b)",
        OF holds_builder]
    by (simp add: stats_values_def)
  from holds_add_tlv [where t = STATS_DATA_EXT and len = 96 and d = "stats_bytes (ext_values b)", OF this]
  show ?thesis by (simp add: packet_ok_def ext_values_def)
qed

end
