(* ===== verification/Broker_Loop.thy ===== *)
theory Broker_Loop
  imports Subscribe Publish Control Startup
begin

text \<open>
  \<^verbatim>\<open>DnsMulticastBroker::start\<close> (\<^verbatim>\<open>src/broker/broker.cpp\<close>): the HELLO to the parent, the receive
  loop with its 4096-byte buffer, the dispatch, and the periodic cleanup. One turn of the
  loop is a function of what \<^verbatim>\<open>epoll_wait\<close> and \<^verbatim>\<open>recvfrom\<close> deliver and of the clock; the loop
  itself is a step relation, and the invariants are proved by induction on its runs.
\<close>

section \<open>The code\<close>

definition hello_packet :: "broker_config \<Rightarrow> byte list" where
  "hello_packet cfg =
     build (add_coordinates (cfg_lat cfg) (cfg_lon cfg) (add_service_name (broker_id cfg) (builder HELLO)))"

definition start_actions :: "broker \<Rightarrow> action list" where
  "start_actions b = (if has_parent b then [SendTo (parent_addr b) (hello_packet (config b))] else [])"

definition handle_message ::
    "env \<Rightarrow> time_t \<Rightarrow> time_t \<Rightarrow> tlv_msg \<Rightarrow> sockaddr \<Rightarrow> broker
      \<Rightarrow> crypto_error + broker \<times> action list" where
  "handle_message E t1 t2 msg addr b =
     (case msg_type msg of
        SUBSCRIBE \<Rightarrow> Inr (handle_subscribe E t1 msg addr b)
      | REGION_UPDATE \<Rightarrow> Inr (handle_region_update msg b)
      | PUBLISH \<Rightarrow> handle_publish E t1 t2 msg addr b
      | HEARTBEAT \<Rightarrow> Inr (handle_heartbeat t1 msg b, [])
      | HELLO \<Rightarrow> Inr (handle_hello msg addr b)
      | HELLO_ACK \<Rightarrow> Inr (b, [])
      | STATS_REQUEST \<Rightarrow> Inr (handle_stats_request addr b)
      | _ \<Rightarrow> Inr (b, []))"

definition recv_buffer :: nat where "recv_buffer = 4096"

text \<open>
  One ready event: the datagram at the socket, its sender, and the clock at the (at most two)
  calls of \<^verbatim>\<open>time\<close> its handler makes. \<^verbatim>\<open>recvfrom\<close> cuts the datagram to the buffer.
\<close>

record event =
  ev_bytes :: "byte list"
  ev_from :: sockaddr
  ev_t1 :: time_t
  ev_t2 :: time_t

definition receive :: "env \<Rightarrow> event \<Rightarrow> broker \<Rightarrow> crypto_error + broker \<times> action list" where
  "receive E ev b =
     (let bytes = take recv_buffer (ev_bytes ev)
      in if bytes = [] then Inr (b, [])
         else let msg = tlv_message bytes
              in if \<not> valid msg then Inr (b, [])
                 else handle_message E (ev_t1 ev) (ev_t2 ev) msg (ev_from ev) b)"

fun receive_all :: "env \<Rightarrow> event list \<Rightarrow> broker \<Rightarrow> crypto_error + broker \<times> action list" where
  "receive_all E [] b = Inr (b, [])"
| "receive_all E (ev # evs) b =
     (case receive E ev b of Inl e \<Rightarrow> Inl e
      | Inr (b1, out1) \<Rightarrow>
          (case receive_all E evs b1 of Inl e \<Rightarrow> Inl e
           | Inr (b2, out2) \<Rightarrow> Inr (b2, out1 @ out2)))"

definition CLEANUP_INTERVAL_SEC :: time_t where "CLEANUP_INTERVAL_SEC = 10"

text \<open>
  What \<^verbatim>\<open>epoll_wait\<close> returns: an interruption (\<^verbatim>\<open>EINTR\<close>), an error, or the ready events, with the
  clock at the end of the turn and in \<^verbatim>\<open>cleanupExpired\<close>.
\<close>

datatype wait_result = Interrupted | WaitError | Ready "event list" time_t time_t

record node =
  nd_broker :: broker
  nd_last_cleanup :: time_t
  nd_running :: bool

definition loop_turn :: "env \<Rightarrow> wait_result \<Rightarrow> node \<Rightarrow> crypto_error + node \<times> action list" where
  "loop_turn E w nd =
     (case w of
        Interrupted \<Rightarrow> Inr (nd, [])
      | WaitError \<Rightarrow> Inr (nd\<lparr>nd_running := False\<rparr>, [])
      | Ready evs now t_clean \<Rightarrow>
          (case receive_all E evs (nd_broker nd) of Inl e \<Rightarrow> Inl e
           | Inr (b1, out) \<Rightarrow>
               Inr (if now - nd_last_cleanup nd > CLEANUP_INTERVAL_SEC
                    then nd\<lparr>nd_broker := cleanup_expired t_clean b1, nd_last_cleanup := now\<rparr>
                    else nd\<lparr>nd_broker := b1\<rparr>, out)))"

section \<open>The loop as a step relation\<close>

inductive loop_step :: "env \<Rightarrow> node \<Rightarrow> action list \<Rightarrow> node \<Rightarrow> bool" for E where
  turn: "nd_running nd \<Longrightarrow> loop_turn E w nd = Inr (nd', out) \<Longrightarrow> loop_step E nd out nd'"

inductive loop_run :: "env \<Rightarrow> node \<Rightarrow> action list \<Rightarrow> node \<Rightarrow> bool" for E nd where
  start: "loop_run E nd [] nd"
| more: "loop_run E nd out1 nd1 \<Longrightarrow> loop_step E nd1 out2 nd2 \<Longrightarrow> loop_run E nd (out1 @ out2) nd2"

inductive_cases loop_stepE: "loop_step E nd out nd'"

definition start_node :: "time_t \<Rightarrow> broker \<Rightarrow> node" where
  "start_node t b = \<lparr>nd_broker = b, nd_last_cleanup = t, nd_running = True\<rparr>"

text \<open>
  How \<^verbatim>\<open>start\<close> enters the loop, given the outcomes of \<^verbatim>\<open>epoll_create1\<close> and \<^verbatim>\<open>epoll_ctl\<close>: it returns
  without a word when one of them fails, and otherwise says HELLO to the parent.
\<close>

definition broker_start :: "bool \<Rightarrow> bool \<Rightarrow> time_t \<Rightarrow> broker \<Rightarrow> (node \<times> action list) option" where
  "broker_start epoll_created socket_added now b =
     (if \<not> epoll_created then None
      else if \<not> socket_added then None
      else Some (start_node now b, start_actions b))"

section \<open>Well-formedness of every run\<close>

text \<open>What a handler keeps: a well-formed state, and everything the constructor fixed.\<close>

definition keeps :: "broker \<Rightarrow> broker \<Rightarrow> bool" where
  "keeps b b' \<longleftrightarrow> (broker_wf b \<longrightarrow> broker_wf b' \<and> same_setup b' b)"

lemma keeps_refl [simp]: "keeps b b"
  by (simp add: keeps_def)

lemma keeps_trans: "keeps a b \<Longrightarrow> keeps b c \<Longrightarrow> keeps a c"
  by (auto simp: keeps_def same_setup_def)

lemma handle_message_keeps:
  assumes "handle_message E t1 t2 msg addr b = Inr (b', out)"
  shows "keeps b b'"
proof (cases "msg_type msg")
  case SUBSCRIBE
  then show ?thesis
    using assms handle_subscribe_wf [of b E t1 msg addr b' out]
    by (simp add: handle_message_def keeps_def)
next
  case PUBLISH
  then show ?thesis
    using assms handle_publish_wf [of b E t1 t2 msg addr b' out]
    by (simp add: handle_message_def keeps_def)
next
  case HELLO
  then show ?thesis
    using assms handle_hello_wf [of b msg addr b' out] by (simp add: handle_message_def keeps_def)
next
  case REGION_UPDATE
  then show ?thesis
    using assms handle_region_update_wf [of b msg b' out] by (simp add: handle_message_def keeps_def)
next
  case STATS_REQUEST
  then show ?thesis
    using assms handle_stats_request_wf [of b addr b' out] by (simp add: handle_message_def keeps_def)
next
  case HEARTBEAT
  then show ?thesis
    using assms handle_heartbeat_wf [of b t1 msg] by (auto simp: handle_message_def keeps_def)
qed (use assms in \<open>simp_all add: handle_message_def\<close>)

lemma receive_keeps: "receive E ev b = Inr (b', out) \<Longrightarrow> keeps b b'"
  by (auto simp: receive_def Let_def split: if_splits dest: handle_message_keeps)

lemma receive_all_keeps: "receive_all E evs b = Inr (b', out) \<Longrightarrow> keeps b b'"
proof (induction evs arbitrary: b out)
  case (Cons ev evs)
  then obtain b1 out1 out2 where "receive E ev b = Inr (b1, out1)"
    and "receive_all E evs b1 = Inr (b', out2)"
    by (auto split: sum.splits prod.splits)
  with Cons.IH show ?case by (blast intro: keeps_trans receive_keeps)
qed simp

lemma loop_turn_keeps: "loop_turn E w nd = Inr (nd', out) \<Longrightarrow> keeps (nd_broker nd) (nd_broker nd')"
proof (cases w)
  case (Ready evs now t_clean)
  assume "loop_turn E w nd = Inr (nd', out)"
  then obtain b1 where b1: "receive_all E evs (nd_broker nd) = Inr (b1, out)"
    and nd': "nd_broker nd' = b1 \<or> nd_broker nd' = cleanup_expired t_clean b1"
    using Ready by (auto simp: loop_turn_def split: sum.splits if_splits)
  have "keeps b1 (cleanup_expired t_clean b1)" by (simp add: keeps_def cleanup_expired_wf)
  then show ?thesis using receive_all_keeps [OF b1] nd' by (auto intro: keeps_trans)
qed (auto simp: loop_turn_def)

lemma loop_run_keeps: "loop_run E nd out nd' \<Longrightarrow> keeps (nd_broker nd) (nd_broker nd')"
  by (induction rule: loop_run.induct) (auto elim!: loop_stepE dest: loop_turn_keeps intro: keeps_trans)

text \<open>The loop never stops at an error of the arithmetic: every turn has a result.\<close>

lemma handle_message_total:
  "broker_wf b \<Longrightarrow> \<exists>b' out. handle_message E t1 t2 msg addr b = Inr (b', out)"
  using handle_publish_total [of b E t1 t2 msg addr]
  by (cases "msg_type msg") (auto simp: handle_message_def intro: prod.exhaust)

lemma receive_total: "broker_wf b \<Longrightarrow> \<exists>b' out. receive E ev b = Inr (b', out)"
  using handle_message_total by (simp add: receive_def Let_def)

lemma receive_all_total: "broker_wf b \<Longrightarrow> \<exists>b' out. receive_all E evs b = Inr (b', out)"
proof (induction evs arbitrary: b)
  case (Cons ev evs)
  obtain b1 out1 where 1: "receive E ev b = Inr (b1, out1)"
    using receive_total [OF Cons.prems] by blast
  then have "broker_wf b1" using receive_keeps [OF 1] Cons.prems by (simp add: keeps_def)
  then obtain b2 out2 where "receive_all E evs b1 = Inr (b2, out2)" using Cons.IH by blast
  with 1 show ?case by simp
qed simp

lemma loop_turn_total: "broker_wf (nd_broker nd) \<Longrightarrow> \<exists>nd' out. loop_turn E w nd = Inr (nd', out)"
proof (cases w)
  case (Ready evs now t_clean)
  assume "broker_wf (nd_broker nd)"
  then obtain b1 out where "receive_all E evs (nd_broker nd) = Inr (b1, out)"
    using receive_all_total by blast
  then show ?thesis by (auto simp: loop_turn_def Ready)
qed (auto simp: loop_turn_def)

section \<open>What the receive loop ignores\<close>

lemma receive_invalid:
  "\<not> valid (tlv_message (take recv_buffer (ev_bytes ev))) \<Longrightarrow> receive E ev b = Inr (b, [])"
  by (simp add: receive_def Let_def)

lemma receive_too_long:
  assumes "packet_ok p fs" and "recv_buffer < length (build p)" and "ev_bytes ev = build p"
  shows "receive E ev b = Inr (b, [])"
  using truncated_invalid [OF assms(1,2)] assms(3) by (simp add: receive_invalid)

lemma receive_built:
  assumes "packet_ok p fs" and "length (build p) \<le> recv_buffer" and "ev_bytes ev = build p"
  shows "receive E ev b = handle_message E (ev_t1 ev) (ev_t2 ev) (tlv_message (build p)) (ev_from ev) b"
proof -
  have "build p \<noteq> []" using length_build [of p] by auto
  then show ?thesis using assms parse_build(1) [OF assms(1)] by (simp add: receive_def)
qed

end
