(* ===== verification/Delivery.thy ===== *)
theory Delivery
  imports Broker_Loop
begin

text \<open>
  What a client observes. The abstract view of the delivery rule: over a sequence of
  publications a subscriber gets exactly those that set a new record of closeness. Then the
  whole local half of \<^verbatim>\<open>handlePublish\<close> as one equation, the encrypted mode end to end, and what
  no step of a run can undo.
\<close>

section \<open>Records of closeness\<close>

record publication =
  pub_lat :: f32
  pub_lon :: f32
  pub_raw :: "byte list"

text \<open>The publications of one key, delivered one after the other to the group of that key.\<close>

fun deliver_sequence ::
    "(fp \<Rightarrow> fp) \<Rightarrow> publication list \<Rightarrow> geo_client list \<Rightarrow> geo_client list \<times> action list list" where
  "deliver_sequence C [] gs = (gs, [])"
| "deliver_sequence C (p # ps) gs =
     (let (gs1, out) = deliver_group C (pub_lat p) (pub_lon p) (pub_raw p) gs;
          (gs2, outs) = deliver_sequence C ps gs1
      in (gs2, out # outs))"

definition dist_to :: "(fp \<Rightarrow> fp) \<Rightarrow> geo_client \<Rightarrow> publication \<Rightarrow> fp" where
  "dist_to C g p = client_dist C (pub_lat p) (pub_lon p) g"

text \<open>
  The specification: the \<open>j\<close>-th publication is closer than what the client had at the start
  and than every earlier one (those at no measurable distance aside).
\<close>

definition sets_record :: "(fp \<Rightarrow> fp) \<Rightarrow> publication list \<Rightarrow> nat \<Rightarrow> geo_client \<Rightarrow> bool" where
  "sets_record C ps j g \<longleftrightarrow>
     flt (dist_to C g (ps ! j)) (cached_closest_dist g) \<and>
     (\<forall>i < j. dist_to C g (ps ! i) = NaN \<or> flt (dist_to C g (ps ! j)) (dist_to C g (ps ! i)))"

lemma sets_record_Suc:
  assumes "client_wf g"
  shows "sets_record C (p # ps) (Suc j) g
     \<longleftrightarrow> sets_record C ps j (after_delivery C (pub_lat p) (pub_lon p) g)"
proof -
  let ?g = "after_delivery C (pub_lat p) (pub_lon p) g"
  let ?d = "dist_to C g p" and ?e = "dist_to C g (ps ! j)" and ?c = "cached_closest_dist g"
  have same: "dist_to C ?g q = dist_to C g q" for q by (simp add: dist_to_def)
  have c: "?c \<noteq> NaN" using assms by (auto simp: client_wf_def)
  have "flt ?e ?c \<and> (?d = NaN \<or> flt ?e ?d) \<longleftrightarrow> flt ?e (cached_closest_dist ?g)"
  proof (cases "closer C (pub_lat p) (pub_lon p) g")
    case True
    then have "flt ?d ?c" by (simp add: closer_def dist_to_def)
    moreover from this have "?d \<noteq> NaN" by auto
    ultimately show ?thesis
      using True flt_trans by (auto simp: after_delivery_def dist_to_def [symmetric])
  next
    case False
    then have "\<not> flt ?d ?c" by (simp add: closer_def dist_to_def)
    then have "?d = NaN \<or> fle ?c ?d" using c not_flt_iff by blast
    then show ?thesis using False flt_fle_trans by (auto simp: after_delivery_def)
  qed
  then show ?thesis
    by (auto simp: sets_record_def same All_less_Suc2)
qed

theorem deliver_sequence_records:
  assumes "list_all client_wf gs" and "j < length ps"
  shows "snd (deliver_sequence C ps gs) ! j
       = map (\<lambda>g. SendTo (gc_addr g) (pub_raw (ps ! j))) (filter (sets_record C ps j) gs)"
  using assms
proof (induction ps arbitrary: gs j)
  case (Cons p ps)
  let ?after = "after_delivery C (pub_lat p) (pub_lon p)"
  show ?case
  proof (cases j)
    case 0
    have "sets_record C (p # ps) 0 = closer C (pub_lat p) (pub_lon p)"
      by (simp add: sets_record_def closer_def dist_to_def fun_eq_iff)
    with 0 show ?thesis by (simp add: deliver_group_spec split: prod.split)
  next
    case (Suc i)
    have wf: "list_all client_wf (map ?after gs)"
      using Cons.prems(1) by (simp add: list_all_iff after_delivery_wf)
    have "filter (sets_record C ps i) (map ?after gs)
        = map ?after (filter (sets_record C (p # ps) j) gs)"
      using Cons.prems(1) Suc
      by (auto simp: filter_map list_all_iff sets_record_Suc intro!: arg_cong [of _ _ "map ?after"] filter_cong)
    with Cons.IH [OF wf, of i] Suc Cons.prems(2) show ?thesis
      by (simp add: deliver_group_spec comp_def case_prod_beta)
  qed
qed simp

section \<open>The local half of handlePublish\<close>

text \<open>Whether the group's comparison lets the publication pass.\<close>

definition passes_match :: "env \<Rightarrow> broker \<Rightarrow> geo_client \<Rightarrow> string option \<Rightarrow> bool" where
  "passes_match E b gc0 bval_n =
     (case (he_enabled b, bval_n) of
        (True, Some bval) \<Rightarrow> blinded_m1 gc0 \<noteq> [] \<and>
          match_test (lib_gmp E) (he_n b) (he_mu b) (he_n_sq b) bval (blinded_m1 gc0) (blinded_m2 gc0) = Inr True
      | _ \<Rightarrow> True)"

definition brake_open :: "brake_dir \<Rightarrow> time_t \<Rightarrow> string \<Rightarrow> f32 \<Rightarrow> f32 \<Rightarrow> broker \<Rightarrow> bool" where
  "brake_open dir now key lat lon b =
     ((case dir of DirUp \<Rightarrow> brake_scope (config b) = Local | DirLocal \<Rightarrow> brake_scope (config b) = Upward) \<or>
      fst (brake_allows dir now key lat lon b))"

definition local_deliveries ::
    "env \<Rightarrow> time_t \<Rightarrow> tlv_msg \<Rightarrow> string \<Rightarrow> f32 \<Rightarrow> f32 \<Rightarrow> string option \<Rightarrow> broker \<Rightarrow> action list" where
  "local_deliveries E now msg key lat lon bval_n b =
     (case um_find (subscribers b) key of
        Some (gc0 # gs) \<Rightarrow>
          if brake_open DirLocal now key lat lon b \<and> passes_match E b gc0 bval_n
          then map (\<lambda>g. SendTo (gc_addr g) (data msg)) (filter (closer (lib_cos E) lat lon) (gc0 # gs))
          else []
      | _ \<Rightarrow> [])"

definition delivered_group ::
    "env \<Rightarrow> time_t \<Rightarrow> string \<Rightarrow> f32 \<Rightarrow> f32 \<Rightarrow> string option \<Rightarrow> broker \<Rightarrow> geo_client list" where
  "delivered_group E now key lat lon bval_n b =
     (case um_find (subscribers b) key of
        Some (gc0 # gs) \<Rightarrow>
          if brake_open DirLocal now key lat lon b \<and> passes_match E b gc0 bval_n
          then map (after_delivery (lib_cos E) lat lon) (gc0 # gs) else gc0 # gs
      | Some [] \<Rightarrow> []
      | None \<Rightarrow> [])"

lemma brake_open_cases:
  assumes "(if brake_scope (config b) = Local \<or> brake_scope (config b) = Both
      then brake_allows DirLocal now key lat lon b else (True, b)) = (ok, b1)"
  shows "ok = brake_open DirLocal now key lat lon b"
    and "subscribers b1 = subscribers b" and "he_enabled b1 = he_enabled b" and "he_n b1 = he_n b"
    and "he_mu b1 = he_mu b" and "he_n_sq b1 = he_n_sq b"
    and "stat_delivered_local b1 = stat_delivered_local b"
    and "children b1 = children b" and "stat_forward_up b1 = stat_forward_up b"
    and "stat_forward_down b1 = stat_forward_down b"
proof -
  have "ok = brake_open DirLocal now key lat lon b \<and>
    (b1 = b \<or> brake_allows DirLocal now key lat lon b = (ok, b1))"
    using assms by (cases "brake_scope (config b)") (simp_all add: brake_open_def)
  then show "ok = brake_open DirLocal now key lat lon b"
    "subscribers b1 = subscribers b" "he_enabled b1 = he_enabled b" "he_n b1 = he_n b"
    "he_mu b1 = he_mu b" "he_n_sq b1 = he_n_sq b" "stat_delivered_local b1 = stat_delivered_local b"
    "children b1 = children b" "stat_forward_up b1 = stat_forward_up b"
    "stat_forward_down b1 = stat_forward_down b"
    using brake_allows_frame [of DirLocal now key lat lon b ok b1] by auto
qed

lemma deliver_local_step:
  assumes "um_find (subscribers b) key = Some (gc0 # rest)"
    and "(if brake_scope (config b) = Local \<or> brake_scope (config b) = Both
      then brake_allows DirLocal now key lat lon b else (True, b)) = (ok, b1)"
  shows "deliver_local E now msg key lat lon bval_n b =
     (if \<not> ok then Inr (b1, [])
      else case (he_enabled b1, bval_n) of
             (True, Some bval) \<Rightarrow>
               if blinded_m1 gc0 = [] then Inr (b1, [])
               else (case execute_match E bval (blinded_m1 gc0) (blinded_m2 gc0) b1 of
                       Inl e \<Rightarrow> Inl e
                     | Inr (False, b2) \<Rightarrow> Inr (b2, [])
                     | Inr (True, b2) \<Rightarrow> Inr (deliver_all E key lat lon (data msg) b2))
           | _ \<Rightarrow> Inr (deliver_all E key lat lon (data msg) b1))"
  using assms by (simp add: deliver_local_def)

text \<open>The comparison touches its two counters only.\<close>

definition count_match :: "u64 \<Rightarrow> u64 \<Rightarrow> broker \<Rightarrow> broker" where
  "count_match c h b = b\<lparr>stat_match_calls := c, stat_match_hits := h\<rparr>"

lemma count_match_self: "\<exists>c h. b = count_match c h b"
  by (intro exI [of _ "stat_match_calls b"] exI [of _ "stat_match_hits b"]) (simp add: count_match_def)

lemma count_match_sel [simp]:
  "subscribers (count_match c h b) = subscribers b" "children (count_match c h b) = children b"
  "stat_delivered_local (count_match c h b) = stat_delivered_local b"
  "stat_forward_up (count_match c h b) = stat_forward_up b"
  "stat_forward_down (count_match c h b) = stat_forward_down b"
  by (simp_all add: count_match_def)

lemma execute_match_count:
  "execute_match E x y z b = Inr (r, b') \<Longrightarrow> \<exists>c h. b' = count_match c h b"
proof -
  assume "execute_match E x y z b = Inr (r, b')"
  then have "b' = count_match (stat_match_calls b + 1) (stat_match_hits b + (if r then 1 else 0)) b"
    unfolding count_match_def by (rule execute_match_frame)
  then show ?thesis by blast
qed

lemma deliver_local_passed:
  assumes grp: "um_find (subscribers b) key = Some (gc0 # rest)"
    and brake: "(if brake_scope (config b) = Local \<or> brake_scope (config b) = Both
      then brake_allows DirLocal now key lat lon b else (True, b)) = (ok, b1)"
    and run: "deliver_local E now msg key lat lon bval_n b = Inr (b', out)"
  shows "if ok \<and> passes_match E b gc0 bval_n
    then \<exists>c h. (b', out) = deliver_all E key lat lon (data msg) (count_match c h b1)
    else out = [] \<and> (\<exists>c h. b' = count_match c h b1)"
proof (cases "ok \<and> he_enabled b1 \<and> bval_n \<noteq> None \<and> blinded_m1 gc0 \<noteq> []")
  case True
  then obtain bval where bval: "bval_n = Some bval" "ok" "he_enabled b1" "blinded_m1 gc0 \<noteq> []" by blast
  obtain r b2 where m: "execute_match E bval (blinded_m1 gc0) (blinded_m2 gc0) b1 = Inr (r, b2)"
    and res: "if r then Inr (deliver_all E key lat lon (data msg) b2) = (Inr (b', out) :: crypto_error + _)
              else b' = b2 \<and> out = []"
    using run bval by (auto simp: deliver_local_step [OF grp brake] split: sum.splits bool.splits)
  have "r = passes_match E b gc0 bval_n"
    using execute_match_result [OF m] brake_open_cases [OF brake] bval by (simp add: passes_match_def)
  moreover obtain c h where "b2 = count_match c h b1" using execute_match_count [OF m] by blast
  ultimately show ?thesis using res bval by (cases r) (auto simp del: split_paired_Ex, metis)
next
  case False
  obtain c h where self: "b1 = count_match c h b1" using count_match_self by blast
  show ?thesis
  proof (cases "ok \<and> passes_match E b gc0 bval_n")
    case True
    then have "(b', out) = deliver_all E key lat lon (data msg) b1"
      using run False brake_open_cases(3) [OF brake]
      by (auto simp: deliver_local_step [OF grp brake] passes_match_def split: option.splits bool.splits)
    then have "\<exists>c h. (b', out) = deliver_all E key lat lon (data msg) (count_match c h b1)"
      using self by metis
    with True show ?thesis by simp
  next
    case no: False
    then have "b' = b1 \<and> out = []"
      using run False brake_open_cases(3) [OF brake]
      by (auto simp: deliver_local_step [OF grp brake] passes_match_def split: option.splits bool.splits if_splits)
    then show ?thesis using no self by auto
  qed
qed

theorem deliver_local_result:
  assumes run: "deliver_local E now msg key lat lon bval_n b = Inr (b', out)"
  shows "out = local_deliveries E now msg key lat lon bval_n b \<and>
    um_at [] (subscribers b') key = delivered_group E now key lat lon bval_n b \<and>
    (\<forall>k. k \<noteq> key \<longrightarrow> um_find (subscribers b') k = um_find (subscribers b) k) \<and>
    stat_delivered_local b' = stat_delivered_local b + word_of_nat (length out) \<and>
    children b' = children b \<and> stat_forward_up b' = stat_forward_up b \<and>
    stat_forward_down b' = stat_forward_down b"
proof -
  consider (none) "um_find (subscribers b) key = None" | (nil) "um_find (subscribers b) key = Some []"
    | (grp) gc0 rest where "um_find (subscribers b) key = Some (gc0 # rest)"
    by (metis neq_Nil_conv option.exhaust)
  then show ?thesis
  proof cases
    case none
    then show ?thesis
      using run by (simp add: deliver_local_def local_deliveries_def delivered_group_def um_at_def)
  next
    case nil
    then show ?thesis
      using run by (simp add: deliver_local_def local_deliveries_def delivered_group_def um_at_def)
  next
    case grp
    obtain ok b1 where 1: "(if brake_scope (config b) = Local \<or> brake_scope (config b) = Both
        then brake_allows DirLocal now key lat lon b else (True, b)) = (ok, b1)" by force
    note fr = brake_open_cases [OF 1] and res = deliver_local_passed [OF grp 1 run]
    show ?thesis
    proof (cases "ok \<and> passes_match E b gc0 bval_n")
      case True
      with res obtain c h where "(b', out) = deliver_all E key lat lon (data msg) (count_match c h b1)"
        by auto
      with True grp fr show ?thesis
        by (simp add: deliver_all_def deliver_group_spec local_deliveries_def delivered_group_def um_at_def)
    next
      case False
      with res obtain c h where "out = []" "b' = count_match c h b1" by auto
      with False grp fr show ?thesis
        by (auto simp: local_deliveries_def delivered_group_def um_at_def)
    qed
  qed
qed

section \<open>The counters count the datagrams\<close>

theorem handle_publish_counts:
  assumes wf: "broker_wf b" and run: "handle_publish E t_up t_local msg client b = Inr (b', out)"
  shows "stat_forward_up b' + stat_forward_down b' + stat_delivered_local b'
       = stat_forward_up b + stat_forward_down b + stat_delivered_local b + word_of_nat (length out)"
proof (cases "get_service_name msg")
  case None
  then show ?thesis using run by (auto simp: handle_publish_def)
next
  case (Some name)
  let ?b = "b\<lparr>stat_pub_received := stat_pub_received b + 1\<rparr>"
  let ?key = "pub_key_of E ?b name (get_blinded_value msg) (msg_flags msg)"
  let ?b1 = "cache_pub ?key \<lparr>cp_lat = msg_lat msg, cp_lon = msg_lon msg, raw_message = data msg\<rparr> ?b"
  have wf1: "broker_wf ?b1" using cache_pub_wf [of ?b] wf by simp
  have same: "stat_forward_up ?b1 = stat_forward_up b" "stat_forward_down ?b1 = stat_forward_down b"
    "stat_delivered_local ?b1 = stat_delivered_local b"
    by (simp_all add: cache_pub_def Let_def)
  show ?thesis
  proof (rule handle_publish_stages [OF run Some refl refl])
    fix b2 b3 out2 out3 out4
    assume 2: "forward_up t_up msg ?key (msg_lat msg) (msg_lon msg) (get_blinded_value msg)
        (msg_flags msg) ?b1 = (b2, out2)"
      and 3: "forward_down E msg ?key (msg_lat msg) (msg_lon msg) (get_blinded_value msg)
        (from_id_of (msg_flags msg) client ?b) b2 = (b3, out3)"
      and 4: "deliver_local E t_local msg ?key (msg_lat msg) (msg_lon msg) (get_blinded_value msg) b3
        = Inr (b', out4)"
      and out: "out = out2 @ out3 @ out4"
    have "broker_wf b2" using forward_up_wf [OF wf1 2] by blast
    from forward_down_result [OF this 3] forward_up_actions(1-3) [OF 2] deliver_local_result [OF 4]
    show ?thesis by (simp add: out same)
  qed
qed

section \<open>The brake over a run of publications\<close>

text \<open>Calls of \<^verbatim>\<open>brakeAllows\<close> in one direction, for any services and places, and the admitted ones.\<close>

record brake_call =
  bc_now :: time_t
  bc_service :: string
  bc_lat :: f32
  bc_lon :: f32

fun brake_run :: "brake_dir \<Rightarrow> brake_call list \<Rightarrow> broker \<Rightarrow> brake_call list" where
  "brake_run dir [] b = []"
| "brake_run dir (c # cs) b =
     (let (ok, b1) = brake_allows dir (bc_now c) (bc_service c) (bc_lat c) (bc_lon c) b
      in (if ok then [c] else []) @ brake_run dir cs b1)"

definition dir_windows :: "brake_dir \<Rightarrow> broker \<Rightarrow> windows" where
  "dir_windows dir b = (case dir of DirUp \<Rightarrow> brake_count_up b | DirLocal \<Rightarrow> brake_count_local b)"

definition in_window :: "string \<Rightarrow> nat \<Rightarrow> brake_call \<Rightarrow> bool" where
  "in_window s q c \<longleftrightarrow> bc_service c = s \<and> get_quadrant (bc_lat c) (bc_lon c) = q"

lemma brake_allows_step:
  assumes "brake_allows dir now s lat lon b = (ok, b1)"
  shows "ok = fst (window_step (brake_limit (config b)) (brake_window_sec (config b)) now
            (window_at (dir_windows dir b) s (get_quadrant lat lon)))"
    and "window_at (dir_windows dir b1) s' q =
      (if s' = s \<and> q = get_quadrant lat lon
       then snd (window_step (brake_limit (config b)) (brake_window_sec (config b)) now
              (window_at (dir_windows dir b) s q))
       else window_at (dir_windows dir b) s' q)"
    and "config b1 = config b"
proof -
  let ?q = "get_quadrant lat lon"
  obtain w where w: "window_step (brake_limit (config b)) (brake_window_sec (config b)) now
      (window_at (dir_windows dir b) s ?q) = (ok, w)"
    and b1: "dir_windows dir b1 = set_window s ?q w (dir_windows dir b)"
    using assms by (cases dir) (auto simp: dir_windows_def brake_allows_eq Let_def split: prod.splits)
  show "ok = fst (window_step (brake_limit (config b)) (brake_window_sec (config b)) now
      (window_at (dir_windows dir b) s ?q))" by (simp add: w)
  show "window_at (dir_windows dir b1) s' q =
      (if s' = s \<and> q = ?q
       then snd (window_step (brake_limit (config b)) (brake_window_sec (config b)) now
              (window_at (dir_windows dir b) s q))
       else window_at (dir_windows dir b) s' q)" by (simp add: b1 w)
  show "config b1 = config b" using brake_allows_frame [OF assms] by auto
qed

lemma brake_run_window:
  "map bc_now (filter (in_window s q) (brake_run dir cs b)) =
     rate_limiter.admitted (window_step (brake_limit (config b)) (brake_window_sec (config b)))
       (map bc_now (filter (in_window s q) cs)) (window_at (dir_windows dir b) s q)"
proof (induction cs arbitrary: b)
  case (Cons c cs)
  obtain ok b1 where 1: "brake_allows dir (bc_now c) (bc_service c) (bc_lat c) (bc_lon c) b = (ok, b1)"
    by force
  note st = brake_allows_step [OF 1]
  show ?case
  proof (cases "in_window s q c")
    case True
    then have "bc_service c = s" "get_quadrant (bc_lat c) (bc_lon c) = q" by (simp_all add: in_window_def)
    with True 1 st Cons.IH [of b1] show ?thesis by simp
  next
    case False
    then have "window_at (dir_windows dir b1) s q = window_at (dir_windows dir b) s q"
      using st(2) by (auto simp: in_window_def)
    with False 1 st(3) Cons.IH [of b1] show ?thesis by simp
  qed
qed simp

theorem brake_run_limit:
  assumes "broker_wf b" and "window_at (dir_windows dir b) s q = []"
    and "sorted (map bc_now cs)"
    and "ts = map bc_now (filter (in_window s q) (brake_run dir cs b))"
    and "i + nat (sint (brake_limit (config b))) < length ts"
  shows "ts ! (i + nat (sint (brake_limit (config b)))) - ts ! i > brake_window_sec (config b)"
proof -
  have inv: "window_inv (brake_limit (config b)) []" by (simp add: window_inv_def)
  have "sorted (map bc_now (filter (in_window s q) cs))" using assms(3) by (rule sorted_filter)
  from brake_window.at_most_limit [OF inv refl this] assms(5)
  show ?thesis
    unfolding assms(4) brake_run_window assms(2) by (simp add: brake_window.spaced_def)
qed

section \<open>Recorded distances never grow\<close>

text \<open>A later state of a client: the same client, at most as far from what it got.\<close>

definition client_le :: "geo_client \<Rightarrow> geo_client \<Rightarrow> bool" where
  "client_le g' g \<longleftrightarrow> gc_addr g' = gc_addr g \<and> gc_lat g' = gc_lat g \<and> gc_lon g' = gc_lon g \<and>
     blinded_m1 g' = blinded_m1 g \<and> blinded_m2 g' = blinded_m2 g \<and>
     fle (cached_closest_dist g') (cached_closest_dist g)"

definition extends :: "geo_client list \<Rightarrow> geo_client list \<Rightarrow> bool" where
  "extends gs gs' \<longleftrightarrow> (\<exists>ys zs. gs' = ys @ zs \<and> list_all2 client_le ys gs)"

definition groups_advance :: "broker \<Rightarrow> broker \<Rightarrow> bool" where
  "groups_advance b b' \<longleftrightarrow> (\<forall>k gs. um_find (subscribers b) k = Some gs \<longrightarrow>
     (\<exists>gs'. um_find (subscribers b') k = Some gs' \<and> extends gs gs'))"

lemma client_le_refl: "client_wf g \<Longrightarrow> client_le g g"
  by (auto simp: client_le_def client_wf_def)

lemma client_le_trans: "client_le a b \<Longrightarrow> client_le b c \<Longrightarrow> client_le a c"
  by (auto simp: client_le_def intro: fle_trans)

lemma extendsI: "list_all2 client_le ys gs \<Longrightarrow> extends gs (ys @ zs)"
  unfolding extends_def by blast

lemma clients_le_refl: "list_all client_wf gs \<Longrightarrow> list_all2 client_le gs gs"
  by (simp add: list_all_iff list_all2_same client_le_refl)

lemma extends_append: "list_all client_wf gs \<Longrightarrow> extends gs (gs @ zs)"
  by (intro extendsI clients_le_refl)

lemma extends_refl: "list_all client_wf gs \<Longrightarrow> extends gs gs"
  using extends_append [of gs "[]"] by simp

lemma extends_trans:
  assumes "extends a b" and "extends b c"
  shows "extends a c"
proof -
  obtain ya za where b: "b = ya @ za" "list_all2 client_le ya a" using assms(1) by (auto simp: extends_def)
  obtain yb zb where c: "c = yb @ zb" "list_all2 client_le yb b" using assms(2) by (auto simp: extends_def)
  obtain u v where uv: "yb = u @ v" "list_all2 client_le u ya"
    using c(2) unfolding b(1) by (auto simp: list_all2_append2)
  have "list_all2 client_le u a"
    using list_all2_trans [OF _ uv(2) b(2)] client_le_trans by blast
  then show ?thesis using c(1) uv(1) by (auto simp: extends_def)
qed

lemma extends_deliver:
  "list_all client_wf gs \<Longrightarrow> extends gs (map (after_delivery C lat lon) gs)"
  using extendsI [of "map (after_delivery C lat lon) gs" gs "[]"]
  by (simp add: client_le_def list_all2_map1 list_all2_same list_all_iff after_delivery_decreases)

lemma groups_advance_refl: "broker_wf b \<Longrightarrow> groups_advance b b"
  by (auto simp: groups_advance_def broker_wf_def groups_wf_def intro: extends_refl)

lemma groups_advance_same: "broker_wf b \<Longrightarrow> subscribers b' = subscribers b \<Longrightarrow> groups_advance b b'"
  by (auto simp: groups_advance_def broker_wf_def groups_wf_def intro: extends_refl)

lemma groups_advance_trans: "groups_advance a b \<Longrightarrow> groups_advance b c \<Longrightarrow> groups_advance a c"
  unfolding groups_advance_def by (meson extends_trans)

lemma wf_group: "broker_wf b \<Longrightarrow> um_find (subscribers b) k = Some gs \<Longrightarrow> list_all client_wf gs"
  by (auto simp: broker_wf_def groups_wf_def)

lemma um_put_advance:
  assumes "broker_wf b" and "subscribers b' = um_put key gs' (subscribers b)"
    and "\<And>gs. um_find (subscribers b) key = Some gs \<Longrightarrow> extends gs gs'"
  shows "groups_advance b b'"
  using assms groups_advance_refl [OF assms(1)] by (auto simp: groups_advance_def)

lemma subscribe_local_subscribers:
  assumes "subscribe_local E now msg name lat lon flags client b = (b', out)"
  shows "\<exists>d. subscribers b' = um_put (sub_key_of E b name (get_blinded_value msg))
    (um_at [] (subscribers b) (sub_key_of E b name (get_blinded_value msg)) @
      [(new_client client lat lon (get_blinded_value msg) (get_blinded_value_hi msg))
         \<lparr>cached_closest_dist := d\<rparr>]) (subscribers b)"
proof -
  let ?key = "sub_key_of E b name (get_blinded_value msg)"
  let ?gc = "new_client client lat lon (get_blinded_value msg) (get_blinded_value_hi msg)"
  let ?gs = "um_at [] (subscribers b) ?key"
  obtain b2 out2 where 2: "extend_region lat lon (add_subscriber now ?key ?gc b) = (b2, out2)" by force
  obtain b3 out3 where 3: "(if and flags QUERY_MODE \<noteq> 0 then query_cache E ?key lat lon client b2
      else (b2, [])) = (b3, out3)" by (meson surj_pair)
  have s2: "subscribers b2 = um_put ?key (?gs @ [?gc]) (subscribers b)"
    using 2 by (auto simp: extend_region_def Let_def add_subscriber_def)
  have put2: "um_put ?key v (um_put ?key w m) = um_put ?key v m" for v w :: "geo_client list" and m
    by (induction m) (auto simp: um_put_def)
  have "b3 = b2 \<or> (\<exists>d. subscribers b3 = um_put ?key (set_last_dist d (um_at [] (subscribers b2) ?key)) (subscribers b2))"
    using 3 by (auto simp: query_cache_def split: if_splits option.splits prod.splits)
  then have "\<exists>d. subscribers b3 = um_put ?key (?gs @ [?gc\<lparr>cached_closest_dist := d\<rparr>]) (subscribers b)"
  proof
    assume "b3 = b2"
    then show ?thesis using s2 by (intro exI [of _ "cached_closest_dist ?gc"]) simp
  next
    assume "\<exists>d. subscribers b3 = um_put ?key (set_last_dist d (um_at [] (subscribers b2) ?key)) (subscribers b2)"
    then show ?thesis using s2 by (auto simp: set_last_dist_def put2)
  qed
  moreover have "subscribers b' = subscribers b3"
    using assms 2 3 by (auto simp: subscribe_local_def Let_def propagate_subscription_def split: if_splits prod.splits)
  ultimately show ?thesis by simp
qed

lemma handle_subscribe_advance:
  assumes wf: "broker_wf b" and run: "handle_subscribe E now msg client b = (b', out)"
  shows "groups_advance b b'"
proof (cases "subscribers b' = subscribers b")
  case True
  then show ?thesis using wf by (intro groups_advance_same)
next
  case False
  let ?b = "b\<lparr>stat_sub_received := stat_sub_received b + 1\<rparr>"
  have "\<exists>name lat lon flags. subscribe_local E now msg name lat lon flags client ?b = (b', out)"
    using False run
    by (auto simp: handle_subscribe_def Let_def subscribe_from_child_def propagate_subscription_def
        split: option.splits if_splits)
  then obtain name lat lon flags where loc: "subscribe_local E now msg name lat lon flags client ?b = (b', out)"
    by blast
  obtain key g where "subscribers b' = um_put key (um_at [] (subscribers b) key @ [g]) (subscribers b)"
    using subscribe_local_subscribers [OF loc] by auto
  with wf show ?thesis
    by (rule um_put_advance) (simp add: um_at_def extends_append wf_group [OF wf])
qed

lemma handle_publish_advance:
  assumes wf: "broker_wf b" and run: "handle_publish E t_up t_local msg client b = Inr (b', out)"
  shows "groups_advance b b'"
proof (cases "get_service_name msg")
  case None
  then show ?thesis using run wf by (intro groups_advance_same) (auto simp: handle_publish_def)
next
  case (Some name)
  let ?b = "b\<lparr>stat_pub_received := stat_pub_received b + 1\<rparr>"
  let ?key = "pub_key_of E ?b name (get_blinded_value msg) (msg_flags msg)"
  let ?b1 = "cache_pub ?key \<lparr>cp_lat = msg_lat msg, cp_lon = msg_lon msg, raw_message = data msg\<rparr> ?b"
  have wf1: "broker_wf ?b1" using cache_pub_wf [of ?b] wf by simp
  show ?thesis
  proof (rule handle_publish_stages [OF run Some refl refl])
    fix b2 b3 out2 out3 out4
    assume 2: "forward_up t_up msg ?key (msg_lat msg) (msg_lon msg) (get_blinded_value msg)
        (msg_flags msg) ?b1 = (b2, out2)"
      and 3: "forward_down E msg ?key (msg_lat msg) (msg_lon msg) (get_blinded_value msg)
        (from_id_of (msg_flags msg) client ?b) b2 = (b3, out3)"
      and 4: "deliver_local E t_local msg ?key (msg_lat msg) (msg_lon msg) (get_blinded_value msg) b3
        = Inr (b', out4)"
    have "broker_wf b2" using forward_up_wf [OF wf1 2] by blast
    then have s3: "subscribers b3 = subscribers b"
      using forward_down_result [OF _ 3] forward_up_actions(4) [OF 2] by (simp add: cache_pub_def Let_def)
    note res = deliver_local_result [OF 4]
    show ?thesis unfolding groups_advance_def
    proof (intro allI impI)
      fix k gs assume k: "um_find (subscribers b) k = Some gs"
      have gwf: "list_all client_wf gs" and "gs \<noteq> []"
        using wf k by (auto simp: broker_wf_def groups_wf_def)
      then obtain g rest where gs: "gs = g # rest" by (cases gs) auto
      show "\<exists>gs'. um_find (subscribers b') k = Some gs' \<and> extends gs gs'"
      proof (cases "k = ?key")
        case True
        then have "um_at [] (subscribers b') k = gs \<or>
            um_at [] (subscribers b') k = map (after_delivery (lib_cos E) (msg_lat msg) (msg_lon msg)) gs"
          using res k gs s3 by (auto simp: delivered_group_def)
        then have "um_at [] (subscribers b') k \<noteq> []" "extends gs (um_at [] (subscribers b') k)"
          using gs extends_refl [OF gwf] extends_deliver [OF gwf] by auto
        then show ?thesis by (auto simp: um_at_def split: option.splits)
      next
        case False
        then show ?thesis using res k s3 extends_refl [OF gwf] by auto
      qed
    qed
  qed
qed

theorem handle_message_advance:
  assumes wf: "broker_wf b" and run: "handle_message E t1 t2 msg addr b = Inr (b', out)"
  shows "groups_advance b b'"
proof -
  have "msg_type msg = SUBSCRIBE \<or> msg_type msg = PUBLISH \<or> subscribers b' = subscribers b"
    using run
    by (cases "msg_type msg")
      (auto simp: handle_message_def handle_heartbeat_def handle_hello_def handle_region_update_def
        handle_stats_request_def snapshot_stats_def update_my_region_def Let_def
        split: option.splits prod.splits)
  then show ?thesis
    using run handle_subscribe_advance [OF wf] handle_publish_advance [OF wf] groups_advance_same [OF wf]
    by (auto simp: handle_message_def)
qed

section \<open>Encrypted mode end to end\<close>

text \<open>
  The broker and the proxy hold the same key; the group at the key of the publication was
  opened by a subscription the proxy blinded for \<open>name'\<close>.
\<close>

definition same_key :: "broker \<Rightarrow> heps \<Rightarrow> bool" where
  "same_key b h \<longleftrightarrow> he_enabled b \<and> he_n b = heps_n h \<and> he_mu b = heps_mu h \<and>
     he_n_sq b = heps_n h * heps_n h"

definition honest_key :: "heps \<Rightarrow> bool" where
  "honest_key h \<longleftrightarrow> (\<exists>p q. key_params p q (heps_paillier h)) \<and> heps_n h = kn (heps_paillier h) \<and>
     heps_mu h = kmu (heps_paillier h) \<and> scale_ok (kr_m (heps_paillier h)) (heps_n h)"

lemma encrypted_passes:
  assumes lib: "gmp_spec (lib_gmp E)" "rng_spec R" and key: "same_key b h" "honest_key h"
    and sub: "heps_blind_subscription (lib_hash E) (lib_gmp E) R h name' t = Some (Inr ((m1, m2), t'))"
    and cop: "draws_coprime R (heps_n h) t"
    and gc: "blinded_m1 gc0 = m1" "blinded_m2 gc0 = m2"
    and notif: "heps_blind_notification (lib_hash E) (lib_gmp E) R h name s = Inr (bval, s')"
  shows "passes_match E b gc0 (Some bval) \<longleftrightarrow> lib_hash E name = lib_hash E name'"
proof -
  obtain p q where "key_params p q (heps_paillier h)" using key(2) by (auto simp: honest_key_def)
  then have m: "match_test (lib_gmp E) (he_n b) (he_mu b) (he_n_sq b) bval m1 m2
      = Inr (lib_hash E name = lib_hash E name')"
    using gmp_spec.heps_match [OF lib(1) _ _ _ _ lib(2) notif sub cop] key
    by (auto simp: same_key_def honest_key_def)
  have "m1 \<noteq> []"
    using sub gmp_spec.mpz_to_hex_nonempty [OF lib(1)]
    by (auto simp: heps_blind_subscription_def Let_def split: option.splits sum.splits)
  then show ?thesis using m gc key(1) by (simp add: passes_match_def same_key_def)
qed

end
