(* ===== verification/Client.thy ===== *)
theory Client
  imports Config Delivery
begin

text \<open>
  \<^verbatim>\<open>clients/test_client.cpp\<close>: the command-line client. Its \<^verbatim>\<open>main\<close> is a function of the
  arguments, the file system, what the operating system answers and the random generator; its
  result is an exit code with nothing sent, an uncaught exception, or the datagram it sends. Then
  the loop of a subscriber over what its socket receives, and the line it prints for a publication.
  The other texts on the console are left out.
\<close>

section \<open>The code\<close>

datatype client_result = ExitCode int | Throws std_error | CryptoCrash crypto_error
  | Sends sockaddr "byte list"

definition is_plain_flag :: "string \<Rightarrow> bool" where
  "is_plain_flag a \<longleftrightarrow> a = ''--plaintext'' \<or> a = ''--no-encrypt''"

text \<open>The loop that takes the flag out of the positional arguments; \<^verbatim>\<open>argv[0]\<close> is kept.\<close>

definition split_args :: "string list \<Rightarrow> bool \<times> string list" where
  "split_args argv =
     (case argv of [] \<Rightarrow> (True, [])
      | a0 # rest \<Rightarrow> (\<not> list_ex is_plain_flag rest, a0 # filter (\<lambda>a. \<not> is_plain_flag a) rest))"

definition sub_builder ::
    "string \<Rightarrow> f32 \<Rightarrow> f32 \<Rightarrow> bool \<Rightarrow> (string \<times> string) option \<Rightarrow> tlv_builder" where
  "sub_builder name lat lon query bvals =
     (let b1 = add_coordinates lat lon (add_service_name name (builder SUBSCRIBE));
          b2 = (if query then add_flags QUERY_MODE b1 else b1)
      in case bvals of None \<Rightarrow> b2
         | Some (m1, m2) \<Rightarrow> add_blinded_value_hi m2 (add_blinded_value m1 b2))"

definition sub_packet ::
    "string \<Rightarrow> f32 \<Rightarrow> f32 \<Rightarrow> bool \<Rightarrow> (string \<times> string) option \<Rightarrow> byte list" where
  "sub_packet name lat lon query bvals = build (sub_builder name lat lon query bvals)"

definition pub_builder ::
    "string \<Rightarrow> f32 \<Rightarrow> f32 \<Rightarrow> string \<Rightarrow> string option \<Rightarrow> tlv_builder" where
  "pub_builder name lat lon payload bval =
     (let b1 = set_payload (bytes_of payload)
                 (add_coordinates lat lon (add_service_name name (builder PUBLISH)))
      in case bval of None \<Rightarrow> b1 | Some v \<Rightarrow> add_blinded_value v b1)"

definition pub_packet ::
    "string \<Rightarrow> f32 \<Rightarrow> f32 \<Rightarrow> string \<Rightarrow> string option \<Rightarrow> byte list" where
  "pub_packet name lat lon payload bval = build (pub_builder name lat lon payload bval)"

definition beat_packet :: "string \<Rightarrow> byte list" where
  "beat_packet name = build (add_service_name name (builder HEARTBEAT))"

text \<open>
  A subscriber gives up when it gets no socket or no port. The other two modes do not look at
  the outcome of \<^verbatim>\<open>socket\<close>: \<^verbatim>\<open>sendto\<close> then fails unseen, and the exit code is 0 all the same.
\<close>

definition sub_send :: "os \<Rightarrow> sockaddr \<Rightarrow> byte list \<Rightarrow> client_result" where
  "sub_send Os addr pkt =
     (if \<not> os_socket Os then ExitCode 1
      else if \<not> os_bind Os 0 then ExitCode 1
      else Sends addr pkt)"

definition plain_send :: "os \<Rightarrow> sockaddr \<Rightarrow> byte list \<Rightarrow> client_result" where
  "plain_send Os addr pkt = (if \<not> os_socket Os then ExitCode 0 else Sends addr pkt)"

definition client_sub ::
    "(string \<Rightarrow> u64) \<Rightarrow> gmp \<Rightarrow> 'r rng \<Rightarrow> os \<Rightarrow> bool \<Rightarrow> heps \<Rightarrow> sockaddr \<Rightarrow> string list \<Rightarrow> 'r
      \<Rightarrow> client_result option" where
  "client_sub H G R Os enc h addr args s =
     (if length args < 7 then Some (ExitCode 1)
      else case (stof (args ! 5), stof (args ! 6)) of
             (Inl e, _) \<Rightarrow> Some (Throws e)
           | (_, Inl e) \<Rightarrow> Some (Throws e)
           | (Inr lat, Inr lon) \<Rightarrow>
               let query = (8 \<le> length args \<and> args ! 7 = ''query'')
               in if \<not> enc then Some (sub_send Os addr (sub_packet (args ! 4) lat lon query None))
                  else case heps_blind_subscription H G R h (args ! 4) s of
                         None \<Rightarrow> None
                       | Some (Inl e) \<Rightarrow> Some (CryptoCrash e)
                       | Some (Inr (bv, _)) \<Rightarrow>
                           Some (sub_send Os addr (sub_packet (args ! 4) lat lon query (Some bv))))"

definition client_pub ::
    "(string \<Rightarrow> u64) \<Rightarrow> gmp \<Rightarrow> 'r rng \<Rightarrow> os \<Rightarrow> bool \<Rightarrow> heps \<Rightarrow> sockaddr \<Rightarrow> string list \<Rightarrow> 'r
      \<Rightarrow> client_result option" where
  "client_pub H G R Os enc h addr args s =
     (if length args < 8 then Some (ExitCode 1)
      else case (stof (args ! 5), stof (args ! 6)) of
             (Inl e, _) \<Rightarrow> Some (Throws e)
           | (_, Inl e) \<Rightarrow> Some (Throws e)
           | (Inr lat, Inr lon) \<Rightarrow>
               if \<not> enc then Some (plain_send Os addr (pub_packet (args ! 4) lat lon (args ! 7) None))
               else case heps_blind_notification H G R h (args ! 4) s of
                      Inl e \<Rightarrow> Some (CryptoCrash e)
                    | Inr (bval_n, _) \<Rightarrow>
                        Some (plain_send Os addr (pub_packet (args ! 4) lat lon (args ! 7) (Some bval_n))))"

text \<open>\<open>None\<close> is a draw of a nonce that never ends.\<close>

definition client_main ::
    "(string \<Rightarrow> u64) \<Rightarrow> gmp \<Rightarrow> 'r rng \<Rightarrow> os \<Rightarrow> file_system \<Rightarrow> string list \<Rightarrow> 'r \<Rightarrow> client_result option" where
  "client_main H G R Os fs argv s =
     (let (enc, args) = split_args argv
      in if length args < 4 then Some (ExitCode 1)
         else let mode = args ! 1
              in case stoi (args ! 3) of Inl e \<Rightarrow> Some (Throws e)
                 | Inr (port, _) \<Rightarrow>
                     let addr = \<lparr>sin_addr = (case inet_pton (args ! 2) of Some a \<Rightarrow> a | None \<Rightarrow> 0),
                                 sin_port = word_of_int port\<rparr>;
                         (loaded, h) = (if enc \<and> mode \<noteq> ''beat''
                                        then load_state G (read_file Os full_key_file fs) heps_default
                                        else (True, heps_default))
                     in if \<not> loaded then Some (ExitCode 1)
                        else if mode = ''sub'' then client_sub H G R Os enc h addr args s
                        else if mode = ''pub'' then client_pub H G R Os enc h addr args s
                        else if mode = ''beat'' then
                          (if length args < 5 then Some (ExitCode 1)
                           else Some (plain_send Os addr (beat_packet (args ! 4))))
                        else Some (ExitCode 1))"

text \<open>What a subscriber shows of a datagram.\<close>

record shown_pub =
  shown_name :: "string option"
  shown_coords :: "(f32 \<times> f32) option"
  shown_payload :: string

definition client_view :: "byte list \<Rightarrow> shown_pub option" where
  "client_view d =
     (let msg = tlv_message (take 4096 d)
      in if valid msg \<and> msg_type msg = PUBLISH
         then Some \<lparr>shown_name = get_service_name msg, shown_coords = get_coordinates msg,
                    shown_payload = (case get_payload msg of
                        Some p \<Rightarrow> if get_payload_size msg > 0 then string_of p else []
                      | None \<Rightarrow> [])\<rparr>
         else None)"

text \<open>
  The receive loop: what \<^verbatim>\<open>recv\<close> gives, \<open>None\<close> for a time-out or an error. \<^verbatim>\<open>recvUdp\<close> reports a
  datagram of no bytes as a time-out too, and the loop ends.
\<close>

fun client_listen :: "byte list option list \<Rightarrow> shown_pub list" where
  "client_listen [] = []"
| "client_listen (None # ds) = []"
| "client_listen (Some d # ds) =
     (if d = [] then []
      else (case client_view d of None \<Rightarrow> [] | Some p \<Rightarrow> [p]) @ client_listen ds)"

text \<open>
  The line a subscriber prints for it. \<open>nan\<close> is how the C library writes a not-a-number.
\<close>

definition received_line :: "string \<Rightarrow> shown_pub \<Rightarrow> string" where
  "received_line nan p =
     ''RECEIVED PUB: \"'' @ (case shown_name p of Some name \<Rightarrow> name | None \<Rightarrow> ''?'') @ ''\" @ ('' @
     (case shown_coords p of Some (lat, lon) \<Rightarrow> to_string nan (widen lat) | None \<Rightarrow> ''?'') @ '','' @
     (case shown_coords p of Some (lat, lon) \<Rightarrow> to_string nan (widen lon) | None \<Rightarrow> ''?'') @ '') payload=\"'' @
     shown_payload p @ ''\"''"

section \<open>The fields of the client's packets\<close>

lemma holds_service_coords:
  "length name < 2 ^ 16 \<Longrightarrow>
    holds (add_coordinates lat lon (add_service_name name (builder t)))
      [(tlv_code SERVICE_NAME, bytes_of name), (tlv_code COORDINATES, put32 lat @ put32 lon)]"
  using holds_add_coordinates [where lat = lat and lon = lon,
      OF holds_add_string [where t = SERVICE_NAME and s = name, OF holds_builder]]
  by (simp add: add_service_name_def)

definition sub_fields ::
    "string \<Rightarrow> f32 \<Rightarrow> f32 \<Rightarrow> bool \<Rightarrow> (string \<times> string) option \<Rightarrow> (u16 \<times> byte list) list" where
  "sub_fields name lat lon query bvals =
     [(tlv_code SERVICE_NAME, bytes_of name), (tlv_code COORDINATES, put32 lat @ put32 lon)] @
     (if query then [(tlv_code FLAGS, put32 QUERY_MODE)] else []) @
     (case bvals of None \<Rightarrow> []
      | Some (m1, m2) \<Rightarrow> [(tlv_code BLINDED_VALUE, bytes_of m1), (tlv_code BLINDED_VALUE_HI, bytes_of m2)])"

definition pub_fields ::
    "string \<Rightarrow> f32 \<Rightarrow> f32 \<Rightarrow> string option \<Rightarrow> (u16 \<times> byte list) list" where
  "pub_fields name lat lon bval =
     [(tlv_code SERVICE_NAME, bytes_of name), (tlv_code COORDINATES, put32 lat @ put32 lon)] @
     (case bval of None \<Rightarrow> [] | Some v \<Rightarrow> [(tlv_code BLINDED_VALUE, bytes_of v)])"

definition short_pair :: "(string \<times> string) option \<Rightarrow> bool" where
  "short_pair bvals \<longleftrightarrow> (case bvals of None \<Rightarrow> True | Some (m1, m2) \<Rightarrow> length m1 < 2 ^ 16 \<and> length m2 < 2 ^ 16)"

lemma payload_frame [simp]:
  "b_payload (add_string t v b) = b_payload b" "b_payload (add_coordinates lat lon b) = b_payload b"
  "b_payload (add_flags w b) = b_payload b" "b_payload (add_service_name v b) = b_payload b"
  "b_payload (add_blinded_value v b) = b_payload b" "b_payload (add_blinded_value_hi v b) = b_payload b"
  "b_type (add_string t v b) = b_type b" "b_type (add_coordinates lat lon b) = b_type b"
  "b_type (add_flags w b) = b_type b" "b_type (add_service_name v b) = b_type b"
  "b_type (add_blinded_value v b) = b_type b" "b_type (add_blinded_value_hi v b) = b_type b"
  by (simp_all add: adders)

lemma sub_builder_ok:
  assumes "length name < 2 ^ 16" and "short_pair bvals"
  shows "packet_ok (sub_builder name lat lon query bvals) (sub_fields name lat lon query bvals)"
proof -
  let ?b1 = "add_coordinates lat lon (add_service_name name (builder SUBSCRIBE))"
  let ?b2 = "if query then add_flags QUERY_MODE ?b1 else ?b1"
  let ?f2 = "[(tlv_code SERVICE_NAME, bytes_of name), (tlv_code COORDINATES, put32 lat @ put32 lon)] @
     (if query then [(tlv_code FLAGS, put32 QUERY_MODE)] else [])"
  have 2: "holds ?b2 ?f2"
    using holds_service_coords [OF assms(1)] holds_add_flags [OF holds_service_coords [OF assms(1)]]
    by auto
  show ?thesis
  proof (cases bvals)
    case None
    then show ?thesis using 2 by (auto simp: packet_ok_def sub_builder_def sub_fields_def)
  next
    case (Some mm)
    obtain m1 m2 where mm: "mm = (m1, m2)" by force
    have len: "length m1 < 2 ^ 16" "length m2 < 2 ^ 16" using assms(2) by (simp_all add: short_pair_def Some mm)
    have "holds (add_blinded_value_hi m2 (add_blinded_value m1 ?b2))
        ((?f2 @ [(tlv_code BLINDED_VALUE, bytes_of m1)]) @ [(tlv_code BLINDED_VALUE_HI, bytes_of m2)])"
      using holds_add_string [where t = BLINDED_VALUE_HI and s = m2,
          OF holds_add_string [where t = BLINDED_VALUE and s = m1, OF 2]] len
      by (simp add: add_blinded_value_def add_blinded_value_hi_def)
    then show ?thesis by (auto simp: packet_ok_def sub_builder_def sub_fields_def Some mm)
  qed
qed

lemma pub_builder_ok:
  assumes "length name < 2 ^ 16" and "length payload < 2 ^ 32" and "\<And>v. bval = Some v \<Longrightarrow> length v < 2 ^ 16"
  shows "packet_ok (pub_builder name lat lon payload bval) (pub_fields name lat lon bval)"
    and "b_payload (pub_builder name lat lon payload bval) = bytes_of payload"
proof -
  let ?b1 = "set_payload (bytes_of payload) (add_coordinates lat lon (add_service_name name (builder PUBLISH)))"
  have 1: "holds ?b1 [(tlv_code SERVICE_NAME, bytes_of name), (tlv_code COORDINATES, put32 lat @ put32 lon)]"
    using holds_service_coords [OF assms(1)] by simp
  show "packet_ok (pub_builder name lat lon payload bval) (pub_fields name lat lon bval)"
  proof (cases bval)
    case None
    then show ?thesis using 1 assms(2) by (simp add: packet_ok_def pub_builder_def pub_fields_def)
  next
    case (Some v)
    from holds_add_string [where t = BLINDED_VALUE and s = v, OF 1] show ?thesis
      using assms(2,3) Some
      by (simp add: packet_ok_def pub_builder_def pub_fields_def add_blinded_value_def)
  qed
  show "b_payload (pub_builder name lat lon payload bval) = bytes_of payload"
    by (simp add: pub_builder_def Let_def split: option.split)
qed

lemma client_types:
  "b_type (sub_builder name lat lon query bvals) = SUBSCRIBE"
  "b_type (pub_builder name lat lon payload bval) = PUBLISH"
  by (simp_all add: sub_builder_def pub_builder_def Let_def split: option.split)

section \<open>What the broker reads from them\<close>

lemma built_field:
  assumes "packet_ok p fs"
  shows "field_value (tlv_message (build p)) t = map_of fs (tlv_code t)"
  using parse_build(2) [OF assms] by (simp add: field_value_def)

lemma coords_field [simp]:
  "sub_list 0 4 (put32 w) = put32 w" "sub_list 0 4 (put32 lat @ put32 lon) = put32 lat" "sub_list 4 4 (put32 lat @ put32 lon) = put32 lon"
  by (simp_all add: sub_list_def)

lemma bytes_of_empty [simp]: "bytes_of s = [] \<longleftrightarrow> s = []"
  by (simp add: bytes_of_def)

lemma client_msg_type:
  "msg_type (tlv_message (sub_packet name lat lon query bvals)) = SUBSCRIBE"
  "msg_type (tlv_message (pub_packet name lat lon payload bval)) = PUBLISH"
  by (simp_all add: sub_packet_def pub_packet_def parse_build_type client_types msg_cast_def)

lemma sub_view:
  assumes "length name < 2 ^ 16" and "short_pair bvals"
    and m: "m = tlv_message (sub_packet name lat lon query bvals)"
  shows "get_service_name m = Some name"
    and "get_coordinates m = Some (lat, lon)" and "get_flags m = (if query then Some QUERY_MODE else None)"
    and "get_blinded_value m = map_option fst bvals" and "get_blinded_value_hi m = map_option snd bvals"
proof -
  have f: "field_value m t = map_of (sub_fields name lat lon query bvals) (tlv_code t)" for t
    unfolding m sub_packet_def by (rule built_field [OF sub_builder_ok [OF assms(1,2)]])
  show "get_service_name m = Some name" "get_coordinates m = Some (lat, lon)"
    "get_flags m = (if query then Some QUERY_MODE else None)"
    "get_blinded_value m = map_option fst bvals" "get_blinded_value_hi m = map_option snd bvals"
    using f by (simp_all add: m getter_values sub_fields_def split: option.split)
qed

lemma pub_view:
  assumes "length name < 2 ^ 16" and "length payload < 2 ^ 32" and "\<And>v. bval = Some v \<Longrightarrow> length v < 2 ^ 16"
    and m: "m = tlv_message (pub_packet name lat lon payload bval)"
  shows "get_service_name m = Some name" and "get_coordinates m = Some (lat, lon)"
    and "get_flags m = None" and "get_blinded_value m = bval"
    and "get_payload m = (if payload = [] then None else Some (bytes_of payload))"
proof -
  note ok = pub_builder_ok [OF assms(1-3)]
  have f: "field_value m t = map_of (pub_fields name lat lon bval) (tlv_code t)" for t
    unfolding m pub_packet_def by (rule built_field [OF ok(1)])
  show "get_service_name m = Some name" "get_coordinates m = Some (lat, lon)"
    "get_flags m = None" "get_blinded_value m = bval"
    using f by (simp_all add: m getter_values pub_fields_def split: option.split)
  show "get_payload m = (if payload = [] then None else Some (bytes_of payload))"
    using parse_build_payload [OF ok(1)] ok(2) by (simp add: m pub_packet_def)
qed

section \<open>Sizes\<close>

text \<open>
  Blinded values are residues modulo \<open>n\<^sup>2\<close>: with a modulus of at most 2048 bits they have at
  most 1024 hexadecimal digits, and the packets of the client fit the broker's buffer.
\<close>

lemma length_enc_fields: "length (enc_fields fs) = sum_list (map (\<lambda>f. 4 + length (snd f)) fs)"
  by (induction fs) simp_all

lemma length_sub_packet:
  assumes "length name < 2 ^ 16" and "short_pair bvals"
  shows "length (sub_packet name lat lon query bvals) = 24 + length name + (if query then 8 else 0) +
    (case bvals of None \<Rightarrow> 0 | Some (m1, m2) \<Rightarrow> 8 + length m1 + length m2)"
proof -
  have "b_payload (sub_builder name lat lon query bvals) = []"
    by (simp add: sub_builder_def Let_def split: option.split)
  then show ?thesis
    using sub_builder_ok [OF assms, of lat lon query]
    by (auto simp: sub_packet_def length_build packet_ok_def holds_def length_enc_fields sub_fields_def
        split: option.split)
qed

lemma length_pub_packet:
  assumes "length name < 2 ^ 16" and "length payload < 2 ^ 32" and "\<And>v. bval = Some v \<Longrightarrow> length v < 2 ^ 16"
  shows "length (pub_packet name lat lon payload bval) = 24 + length name + length payload +
    (case bval of None \<Rightarrow> 0 | Some v \<Rightarrow> 4 + length v)"
  using pub_builder_ok [where lat = lat and lon = lon, OF assms]
  by (auto simp: pub_packet_def length_build packet_ok_def holds_def length_enc_fields pub_fields_def
      split: option.split)

context gmp_spec
begin

lemma residue_hex_length:
  assumes "0 \<le> v" and "v < n * n" and "0 < n" and "n < 2 ^ 2048"
  shows "length (mpz_to_hex G v) \<le> 1024"
proof -
  have "n * n < 2 ^ 2048 * 2 ^ 2048" using assms(3,4) by (intro mult_strict_mono) simp_all
  also have "(2 ^ 2048 * 2 ^ 2048 :: int) = 2 ^ (4 * 1024)" by (simp flip: power_add)
  also have "\<dots> = (2 ^ 4) ^ 1024" by (rule power_mult)
  finally have "v < 16 ^ Suc 1023" using assms(2) by simp
  from get_str_length [OF assms(1) this] show ?thesis by (simp add: mpz_to_hex_def)
qed

lemma product_residue:
  assumes key: "key_params p q k" and "0 \<le> e1" and "0 \<le> e2"
  shows "0 \<le> (mpz_powm G a e1 (kn_sq k) * mpz_powm G b e2 (kn_sq k)) smod kn_sq k"
    and "(mpz_powm G a e1 (kn_sq k) * mpz_powm G b e2 (kn_sq k)) smod kn_sq k < kn k * kn k"
proof -
  have sq: "0 < kn_sq k" "kn_sq k = kn k * kn k" using key_params_pos(4) [OF key] key_params_sq [OF key] by simp_all
  have "0 \<le> mpz_powm G c e (kn_sq k)" if "0 \<le> e" for c e
    unfolding key_powm [OF key that] using sq by simp
  then have "0 \<le> mpz_powm G a e1 (kn_sq k) * mpz_powm G b e2 (kn_sq k)" using assms(2,3) by simp
  from smod_nonneg [OF this sq(1)] sq
  show "0 \<le> (mpz_powm G a e1 (kn_sq k) * mpz_powm G b e2 (kn_sq k)) smod kn_sq k"
    "(mpz_powm G a e1 (kn_sq k) * mpz_powm G b e2 (kn_sq k)) smod kn_sq k < kn k * kn k"
    by simp_all
qed

lemma notification_length:
  assumes key: "key_params p q (heps_paillier h)" and n: "kn (heps_paillier h) < 2 ^ 2048"
    and rng: "rng_spec R" "2 \<le> kr_m (heps_paillier h)"
    and run: "heps_blind_notification H G R h name s = Inr (bval, s')"
  shows "length bval \<le> 1024"
proof -
  note pos = key_params_pos [OF key]
  obtain r where r: "0 < r" "r < kr_m (heps_paillier h)"
    "bval = mpz_to_hex G (blind_notification_with G (heps_paillier h) (uint (H name)) r)"
    using notification_value [OF key rng run] by blast
  have "0 \<le> (kr_m (heps_paillier h) * uint (H name) + r) * klambda (heps_paillier h)"
    using r(1) pos(5,9) by simp
  from residue_hex_length [OF product_residue [OF key pos(7) this] _ n] pos(3) show ?thesis
    by (simp add: r(3) blind_notification_with_def Let_def)
qed

lemma subscription_length:
  assumes key: "key_params p q (heps_paillier h)" and n: "kn (heps_paillier h) < 2 ^ 2048"
    and run: "heps_blind_subscription H G R h name t = Some (Inr ((m1, m2), t'))"
  shows "length m1 \<le> 1024" and "length m2 \<le> 1024"
proof -
  note pos = key_params_pos [OF key]
  have e: "0 \<le> kr_m (heps_paillier h) * klambda (heps_paillier h)" using pos(5,9) by simp
  have "length (mpz_to_hex G b) \<le> 1024" if neg: "blind_negated G R h w s = Some (Inr (b, s'))" for w s b s'
  proof -
    obtain v where "b = blind_subscription_with G (heps_paillier h) v"
      using neg by (auto simp: blind_negated_def blind_subscription_def Let_def
          split: if_splits option.splits sum.splits)
    with residue_hex_length [OF product_residue [OF key pos(8) e] _ n] pos(3) show ?thesis
      by (simp add: blind_subscription_with_def Let_def)
  qed
  then show "length m1 \<le> 1024" "length m2 \<le> 1024"
    using run by (auto simp: heps_blind_subscription_def Let_def split: option.splits sum.splits)
qed

end

section \<open>From subscriber to publisher through one broker\<close>

lemma sub_flags [simp]: "and QUERY_MODE FROM_CHILD = 0"
  by (simp add: QUERY_MODE_def FROM_CHILD_def)

lemma receive_sub:
  assumes "length name < 2 ^ 16" and "short_pair bvals"
    and "ev_bytes ev = sub_packet name lat lon query bvals" and "length (ev_bytes ev) \<le> recv_buffer"
  shows "receive E ev b = Inr (subscribe_local E (ev_t1 ev) (tlv_message (ev_bytes ev)) name lat lon
    (if query then QUERY_MODE else 0) (ev_from ev) (b\<lparr>stat_sub_received := stat_sub_received b + 1\<rparr>))"
proof -
  note v = sub_view [OF assms(1,2) refl, of lat lon query]
  have "receive E ev b = handle_message E (ev_t1 ev) (ev_t2 ev) (tlv_message (ev_bytes ev)) (ev_from ev) b"
    using receive_built [OF sub_builder_ok [OF assms(1,2)]] assms(3,4) by (simp add: sub_packet_def)
  also have "\<dots> = Inr (handle_subscribe E (ev_t1 ev) (tlv_message (ev_bytes ev)) (ev_from ev) b)"
    using client_msg_type(1) by (simp add: handle_message_def assms(3))
  also have "handle_subscribe E (ev_t1 ev) (tlv_message (ev_bytes ev)) (ev_from ev) b
      = subscribe_local E (ev_t1 ev) (tlv_message (ev_bytes ev)) name lat lon
          (if query then QUERY_MODE else 0) (ev_from ev) (b\<lparr>stat_sub_received := stat_sub_received b + 1\<rparr>)"
    using v by (cases query) (simp_all add: handle_subscribe_def assms(3) Let_def)
  finally show ?thesis .
qed

lemma receive_pub:
  assumes "length name < 2 ^ 16" and "length payload < 2 ^ 32" and "\<And>v. bval = Some v \<Longrightarrow> length v < 2 ^ 16"
    and "ev_bytes ev = pub_packet name lat lon payload bval" and "length (ev_bytes ev) \<le> recv_buffer"
  shows "receive E ev b = handle_publish E (ev_t1 ev) (ev_t2 ev) (tlv_message (ev_bytes ev)) (ev_from ev) b"
proof -
  have "receive E ev b = handle_message E (ev_t1 ev) (ev_t2 ev) (tlv_message (ev_bytes ev)) (ev_from ev) b"
    using receive_built [OF pub_builder_ok(1) [OF assms(1-3)]] assms(4,5) by (simp add: pub_packet_def)
  then show ?thesis using client_msg_type(2) by (simp add: handle_message_def assms(4))
qed

text \<open>A subscription without a query: the group gets the client, nothing else of delivery changes.\<close>

lemma subscribe_no_query:
  assumes "subscribe_local E now msg name lat lon 0 client b = (b', out)"
    and "key = sub_key_of E b name (get_blinded_value msg)"
  shows "subscribers b' = um_put key (um_at [] (subscribers b) key @
      [new_client client lat lon (get_blinded_value msg) (get_blinded_value_hi msg)]) (subscribers b)"
    and "brake_count_local b' = brake_count_local b" and "same_setup b' b"
  using assms
  by (auto simp: subscribe_local_def Let_def extend_region_def add_subscriber_def
      propagate_subscription_def same_setup_def split: if_splits)

lemma forward_up_keeps:
  assumes "forward_up now msg key lat lon bval_n flags b = (b', out)"
  shows "brake_count_local b' = brake_count_local b" and "same_setup b' b"
proof -
  obtain ok b1 where 1: "(if brake_scope (config b) = Upward \<or> brake_scope (config b) = Both
      then brake_allows DirUp now key lat lon b else (True, b)) = (ok, b1)" by force
  have b1: "brake_count_local b1 = brake_count_local b \<and> same_setup b1 b"
    using 1 brake_allows_setup [of DirUp now key lat lon b ok b1]
    by (auto simp: brake_allows_eq Let_def split: if_splits prod.splits)
  have "b' = b \<or> b' = b1 \<or> b' = b1\<lparr>stat_forward_up := stat_forward_up b1 + 1\<rparr>"
    using assms 1 by (auto simp: forward_up_def Let_def split: if_splits)
  with b1 show "brake_count_local b' = brake_count_local b" and "same_setup b' b" by auto
qed

lemma offer_children_keeps:
  "offer_children E msg key lat lon bval_n from_id cs b = (b', out) \<Longrightarrow>
    brake_count_local b' = brake_count_local b \<and> same_setup b' b"
proof (induction cs arbitrary: b out)
  case (Cons c cs)
  obtain b1 out1 where 1: "offer_child E msg key lat lon bval_n from_id c b = (b1, out1)" by force
  obtain out2 where 2: "offer_children E msg key lat lon bval_n from_id cs b1 = (b', out2)"
    using Cons.prems 1 by (auto split: prod.splits)
  have "brake_count_local b1 = brake_count_local b \<and> same_setup b1 b"
    using 1 by (auto simp: offer_child_eq same_setup_def split: if_splits)
  with Cons.IH [OF 2] show ?case by (auto simp: same_setup_def)
qed simp

lemma forward_down_keeps:
  "forward_down E msg key lat lon bval_n from_id b = (b', out) \<Longrightarrow>
    brake_count_local b' = brake_count_local b \<and> same_setup b' b"
  by (auto simp: forward_down_def split: option.splits dest: offer_children_keeps)

lemma passes_match_setup:
  assumes "same_setup b' b" shows "passes_match E b' g bval = passes_match E b g bval"
proof -
  have "he_enabled b' = he_enabled b" "he_n b' = he_n b" "he_mu b' = he_mu b" "he_n_sq b' = he_n_sq b"
    using assms by (simp_all add: same_setup_def)
  then show ?thesis by (simp only: passes_match_def)
qed

text \<open>An empty window admits a publication.\<close>

lemma fresh_window_open:
  assumes "window_at (brake_count_local b) key (get_quadrant lat lon) = []"
    and "1 \<le> sint (brake_limit (config b))"
  shows "brake_open DirLocal now key lat lon b"
proof -
  have "window_step (brake_limit (config b)) (brake_window_sec (config b)) now [] = (True, [now])"
    using assms(2) by (simp add: window_step_def window_full_def)
  then show ?thesis using assms(1) by (simp add: brake_open_def brake_allows_eq)
qed

theorem publish_reaches_group:
  assumes wf: "broker_wf b" and run: "handle_publish E t_up t_local msg client b = Inr (b', out)"
    and name: "get_service_name msg = Some name"
    and key: "key = pub_key_of E b name (get_blinded_value msg) (msg_flags msg)"
    and grp: "um_find (subscribers b) key = Some (g # gs)"
    and open': "window_at (brake_count_local b) key (get_quadrant (msg_lat msg) (msg_lon msg)) = []"
      "1 \<le> sint (brake_limit (config b))"
    and pass: "passes_match E b g (get_blinded_value msg)"
  shows "\<exists>fwd. out = fwd @ map (\<lambda>g. SendTo (gc_addr g) (data msg))
     (filter (closer (lib_cos E) (msg_lat msg) (msg_lon msg)) (g # gs))"
proof -
  let ?b = "b\<lparr>stat_pub_received := stat_pub_received b + 1\<rparr>"
  have key': "key = pub_key_of E ?b name (get_blinded_value msg) (msg_flags msg)"
    using key by (simp add: pub_key_of_def)
  let ?b1 = "cache_pub key \<lparr>cp_lat = msg_lat msg, cp_lon = msg_lon msg, raw_message = data msg\<rparr> ?b"
  have wf1: "broker_wf ?b1" using cache_pub_wf [of ?b] wf by simp
  show ?thesis
  proof (rule handle_publish_stages [OF run name refl key'])
    fix b2 b3 out2 out3 out4
    assume 2: "forward_up t_up msg key (msg_lat msg) (msg_lon msg) (get_blinded_value msg)
        (msg_flags msg) ?b1 = (b2, out2)"
      and 3: "forward_down E msg key (msg_lat msg) (msg_lon msg) (get_blinded_value msg)
        (from_id_of (msg_flags msg) client ?b) b2 = (b3, out3)"
      and 4: "deliver_local E t_local msg key (msg_lat msg) (msg_lon msg) (get_blinded_value msg) b3
        = Inr (b', out4)"
      and out: "out = out2 @ out3 @ out4"
    have wf2: "broker_wf b2" using forward_up_wf [OF wf1 2] by blast
    have same: "same_setup b3 b" "brake_count_local b3 = brake_count_local b" "subscribers b3 = subscribers b"
      using forward_up_keeps [OF 2] forward_down_keeps [OF 3] forward_down_result [OF wf2 3]
        forward_up_actions(4) [OF 2]
      by (auto simp: same_setup_def cache_pub_def Let_def)
    have "brake_open DirLocal t_local key (msg_lat msg) (msg_lon msg) b3"
      using open' same by (intro fresh_window_open) (simp_all add: same_setup_def)
    then have "out4 = map (\<lambda>g. SendTo (gc_addr g) (data msg))
        (filter (closer (lib_cos E) (msg_lat msg) (msg_lon msg)) (g # gs))"
      using deliver_local_result [OF 4] grp pass passes_match_setup [OF same(1)]
      by (simp add: local_deliveries_def same(3))
    then show ?thesis using out by (intro exI [of _ "out2 @ out3"]) simp
  qed
qed

section \<open>Heartbeats\<close>

lemma beat_view:
  assumes "length name < 2 ^ 16"
  shows "valid (tlv_message (beat_packet name))"
    and "get_service_name (tlv_message (beat_packet name)) = Some name"
    and "msg_type (tlv_message (beat_packet name)) = HEARTBEAT"
proof -
  have "packet_ok (add_service_name name (builder HEARTBEAT)) [(tlv_code SERVICE_NAME, bytes_of name)]"
    using holds_add_string [where t = SERVICE_NAME and s = name, OF holds_builder [of HEARTBEAT]] assms
    by (simp add: packet_ok_def add_service_name_def)
  then show "valid (tlv_message (beat_packet name))"
    "get_service_name (tlv_message (beat_packet name)) = Some name"
    using parse_build(1) built_field [of _ _ SERVICE_NAME]
    by (simp_all add: beat_packet_def getter_values)
  show "msg_type (tlv_message (beat_packet name)) = HEARTBEAT"
    by (simp add: beat_packet_def parse_build_type msg_cast_def)
qed

lemma length_beat: "length (beat_packet name) = 12 + length name mod 2 ^ 16"
proof -
  have "holds (add_service_name name (builder HEARTBEAT)) [(tlv_code SERVICE_NAME, bytes_of (wire_string name))]"
    using holds_add_string [where t = SERVICE_NAME and s = name, OF holds_builder [of HEARTBEAT]]
    by (simp add: add_service_name_def)
  then show ?thesis
    by (simp add: beat_packet_def length_build holds_def wire_string_def min_def mod_less_eq_dividend)
qed

lemma receive_beat:
  assumes "length name < 4000" and "ev_bytes ev = beat_packet name"
  shows "receive E ev b = Inr (b\<lparr>last_active := um_put name (ev_t1 ev) (last_active b)\<rparr>, [])"
proof -
  have len: "length (ev_bytes ev) \<le> recv_buffer" "ev_bytes ev \<noteq> []"
    using assms length_beat [of name] by (auto simp: recv_buffer_def)
  then show ?thesis
    using assms beat_view [of name]
    by (simp add: receive_def handle_message_def handle_heartbeat_def Let_def)
qed

end
