(* ===== verification/End_To_End.thy ===== *)
theory End_To_End
  imports Client
begin

text \<open>
  The clients and the broker together: a client that subscribed through
  \<^verbatim>\<open>clients/test_client.cpp\<close> gets the publication a publisher sends the broker afterwards, in
  plaintext and in encrypted mode, where the broker never sees the name in the clear.
\<close>

section \<open>Subscribe, then publish\<close>

lemma client_dist_new [simp]:
  "client_dist C lat lon (new_client client slat slon m1 m2)
    = geo_distance C (widen lat) (widen lon) (widen slat) (widen slon)"
  "gc_addr (new_client client slat slon m1 m2) = client"
  "cached_closest_dist (new_client client slat slon m1 m2) = DBL_MAX"
  by (auto simp: client_dist_def new_client_def Let_def split: option.split)

lemma sub_then_pub:
  assumes wf: "broker_wf b" and len: "length name < 2 ^ 16" "short_pair bvals"
    and pub_len: "length payload < 2 ^ 32" "\<And>v. bval = Some v \<Longrightarrow> length v < 2 ^ 16"
    and sub: "ev_bytes ev1 = sub_packet name slat slon False bvals" "length (ev_bytes ev1) \<le> recv_buffer"
    and pub: "ev_bytes ev2 = pub_packet name lat lon payload bval" "length (ev_bytes ev2) \<le> recv_buffer"
    and key: "key = sub_key_of E b name (map_option fst bvals)" "key = pub_key_of E b name bval 0"
    and limit: "1 \<le> sint (brake_limit (config b))"
    and fresh: "window_at (brake_count_local b) key (get_quadrant lat lon) = []"
    and near: "flt (geo_distance (lib_cos E) (widen lat) (widen lon) (widen slat) (widen slon)) DBL_MAX"
    and pass: "passes_match E b (hd (um_at [] (subscribers b) key @
      [new_client (ev_from ev1) slat slon (map_option fst bvals) (map_option snd bvals)])) bval"
  shows "\<exists>b1 out1 b2 out2. receive E ev1 b = Inr (b1, out1) \<and> receive E ev2 b1 = Inr (b2, out2) \<and>
    SendTo (ev_from ev1) (ev_bytes ev2) \<in> set out2"
proof -
  let ?m1 = "tlv_message (ev_bytes ev1)" and ?m2 = "tlv_message (ev_bytes ev2)"
  let ?b = "b\<lparr>stat_sub_received := stat_sub_received b + 1\<rparr>"
  let ?new = "new_client (ev_from ev1) slat slon (map_option fst bvals) (map_option snd bvals)"
  let ?gs = "um_at [] (subscribers b) key @ [?new]"
  note v1 = sub_view [OF len sub(1) [THEN arg_cong [of _ _ tlv_message]]]
  note v2 = pub_view [OF len(1) pub_len pub(1) [THEN arg_cong [of _ _ tlv_message]]]
  obtain b1 out1 where loc: "subscribe_local E (ev_t1 ev1) ?m1 name slat slon 0 (ev_from ev1) ?b = (b1, out1)"
    by force
  have r1: "receive E ev1 b = Inr (b1, out1)"
    using receive_sub [OF len sub, of E b] loc by simp
  have wf1: "broker_wf b1" using receive_keeps [OF r1] wf by (simp add: keeps_def)
  have key1: "key = sub_key_of E ?b name (get_blinded_value ?m1)"
    using key(1) v1(4) by (simp add: sub_key_of_def)
  note st = subscribe_no_query [OF loc key1]
  have same: "same_setup b1 b" and win: "brake_count_local b1 = brake_count_local b"
    using st(2,3) by (simp_all add: same_setup_def)
  have grp: "um_find (subscribers b1) key = Some (hd ?gs # tl ?gs)"
    using st(1) v1(4,5) by simp
  obtain b2 out2 where r2: "receive E ev2 b1 = Inr (b2, out2)" using receive_total [OF wf1] by blast
  have run: "handle_publish E (ev_t1 ev2) (ev_t2 ev2) ?m2 (ev_from ev2) b1 = Inr (b2, out2)"
    using receive_pub [OF len(1) pub_len pub, of E b1] r2 by simp
  have at: "msg_lat ?m2 = lat" "msg_lon ?m2 = lon" "msg_flags ?m2 = 0"
    using v2(2,3) by (simp_all add: msg_lat_def msg_lon_def msg_flags_def)
  have key2: "key = pub_key_of E b1 name (get_blinded_value ?m2) (msg_flags ?m2)"
    using key(2) v2(4) same by (simp add: pub_key_of_def at same_setup_def)
  have "\<exists>fwd. out2 = fwd @ map (\<lambda>g. SendTo (gc_addr g) (data ?m2))
     (filter (closer (lib_cos E) (msg_lat ?m2) (msg_lon ?m2)) (hd ?gs # tl ?gs))"
  proof (rule publish_reaches_group [OF wf1 run v2(1) key2 grp])
    show "window_at (brake_count_local b1) key (get_quadrant (msg_lat ?m2) (msg_lon ?m2)) = []"
      using fresh win by (simp add: at)
    show "1 \<le> sint (brake_limit (config b1))" using limit same by (simp add: same_setup_def)
    show "passes_match E b1 (hd ?gs) (get_blinded_value ?m2)"
      using pass v2(4) passes_match_setup [OF same] by simp
  qed
  moreover have "hd ?gs # tl ?gs = ?gs" by simp
  moreover have "closer (lib_cos E) lat lon ?new" using near by (simp add: closer_def)
  ultimately have "SendTo (ev_from ev1) (ev_bytes ev2) \<in> set out2"
    by (auto simp: at simp del: list.collapse)
  with r1 r2 show ?thesis by blast
qed

lemma plain_packets_fit:
  assumes "length name + length payload \<le> 4000"
  shows "length (sub_packet name slat slon query None) \<le> recv_buffer"
    and "length (pub_packet name lat lon payload None) \<le> recv_buffer"
  using assms length_pub_packet [where name = name and payload = payload and bval = None
      and lat = lat and lon = lon]
  by (simp_all add: length_sub_packet short_pair_def recv_buffer_def)

theorem plain_sub_then_pub:
  assumes "broker_wf b" and "length name + length payload \<le> 4000"
    and "ev_bytes ev1 = sub_packet name slat slon False None"
    and "ev_bytes ev2 = pub_packet name lat lon payload None"
    and "1 \<le> sint (brake_limit (config b))"
    and "window_at (brake_count_local b) name (get_quadrant lat lon) = []"
    and "flt (geo_distance (lib_cos E) (widen lat) (widen lon) (widen slat) (widen slon)) DBL_MAX"
  shows "\<exists>b1 out1 b2 out2. receive E ev1 b = Inr (b1, out1) \<and> receive E ev2 b1 = Inr (b2, out2) \<and>
    SendTo (ev_from ev1) (ev_bytes ev2) \<in> set out2"
  using assms plain_packets_fit [OF assms(2)]
  by (intro sub_then_pub [where bvals = None and bval = None and key = name])
    (simp_all add: short_pair_def sub_key_of_def pub_key_of_def passes_match_def split: bool.split)

text \<open>
  The encrypted path: the group is stored under the hash of the name. With a modulus of at
  most 2048 bits and a short name and payload both packets fit the broker's buffer.
\<close>

lemma blinded_packets_fit:
  assumes lib: "gmp_spec G" "rng_spec R" and key: "honest_key h" "heps_n h < 2 ^ 2048"
    and sub: "heps_blind_subscription H G R h name t = Some (Inr ((m1, m2), t'))"
    and pub: "heps_blind_notification H G R h name' s = Inr (bval, s')"
    and len: "length name \<le> 2000" "length name' + length payload \<le> 3000"
  shows "length m1 \<le> 1024" and "length m2 \<le> 1024" and "length bval \<le> 1024"
    and "length (sub_packet name slat slon query (Some (m1, m2))) \<le> recv_buffer"
    and "length (pub_packet name' lat lon payload (Some bval)) \<le> recv_buffer"
proof -
  obtain p q where pq: "key_params p q (heps_paillier h)" using key(1) by (auto simp: honest_key_def)
  have n: "kn (heps_paillier h) < 2 ^ 2048" and rm: "2 \<le> kr_m (heps_paillier h)"
    using key unfolding honest_key_def scale_ok_def by (simp_all only:)
  show m: "length m1 \<le> 1024" "length m2 \<le> 1024"
    by (fact gmp_spec.subscription_length [OF lib(1) pq n sub])+
  show v: "length bval \<le> 1024" by (rule gmp_spec.notification_length [OF lib(1) pq n lib(2) rm pub])
  show "length (sub_packet name slat slon query (Some (m1, m2))) \<le> recv_buffer"
    using m len by (simp add: length_sub_packet short_pair_def recv_buffer_def)
  show "length (pub_packet name' lat lon payload (Some bval)) \<le> recv_buffer"
    using v len length_pub_packet [where name = name' and payload = payload and bval = "Some bval"
      and lat = lat and lon = lon] by (simp add: recv_buffer_def)
qed

theorem encrypted_sub_then_pub:
  assumes wf: "broker_wf b" and lib: "gmp_spec (lib_gmp E)" "rng_spec R"
    and key: "same_key b h" "honest_key h" "heps_n h < 2 ^ 2048"
    and sub: "heps_blind_subscription (lib_hash E) (lib_gmp E) R h name t = Some (Inr ((m1, m2), t'))"
    and cop: "draws_coprime R (heps_n h) t"
    and pub: "heps_blind_notification (lib_hash E) (lib_gmp E) R h name s = Inr (bval, s')"
    and len: "length name + length payload \<le> 2000"
    and ev1: "ev_bytes ev1 = sub_packet name slat slon False (Some (m1, m2))"
    and ev2: "ev_bytes ev2 = pub_packet name lat lon payload (Some bval)"
    and new: "um_find (subscribers b) (hash_service_name E name) = None"
    and limit: "1 \<le> sint (brake_limit (config b))"
    and fresh: "window_at (brake_count_local b) (hash_service_name E name) (get_quadrant lat lon) = []"
    and near: "flt (geo_distance (lib_cos E) (widen lat) (widen lon) (widen slat) (widen slon)) DBL_MAX"
  shows "\<exists>b1 out1 b2 out2. receive E ev1 b = Inr (b1, out1) \<and> receive E ev2 b1 = Inr (b2, out2) \<and>
    SendTo (ev_from ev1) (ev_bytes ev2) \<in> set out2"
proof -
  have "length name \<le> 2000" "length name + length payload \<le> 3000" using len by simp_all
  note fit = blinded_packets_fit [OF lib key(2,3) sub pub this]
  have en: "he_enabled b" using key(1) by (simp add: same_key_def)
  have "passes_match E b (new_client (ev_from ev1) slat slon (Some m1) (Some m2)) (Some bval)"
    using encrypted_passes [OF lib key(1,2) sub cop _ _ pub] by (simp add: new_client_def Let_def)
  then show ?thesis
    using len fit ev1 ev2 new en
    by (intro sub_then_pub [OF wf _ _ _ _ ev1 _ ev2 _ _ _ limit fresh near])
      (simp_all add: short_pair_def um_at_def sub_key_of_def pub_key_of_def)
qed

end
