(* ===== verification/Samples.thy ===== *)
theory Samples
  imports Config Delivery
begin

text \<open>
  Concrete inputs: a key of two Proth primes that satisfies every hypothesis on keys, an
  environment built from the reference GMP, and a small broker. The lemmas on the whole
  system are applied to them.
\<close>

section \<open>Proth's criterion\<close>

lemma odd_part:
  assumes "0 < (x :: nat)"
  obtains j t where "x = 2 ^ j * t" and "odd t"
proof -
  have "\<exists>j t. x = 2 ^ j * t \<and> odd t"
    using assms
  proof (induction x rule: less_induct)
    case (less x)
    show ?case
    proof (cases "odd x")
      case True
      then show ?thesis by (intro exI [of _ 0] exI [of _ x]) simp
    next
      case False
      then obtain y where y: "x = 2 * y" by (auto elim: evenE)
      then obtain j t where "y = 2 ^ j * t" "odd t" using less.IH [of y] less.prems by auto
      then show ?thesis using y by (intro exI [of _ "Suc j"] exI [of _ t]) simp
    qed
  qed
  then show thesis using that by blast
qed

text \<open>A prime that divides \<open>b ^ 2 ^ m + 1\<close> leaves one modulo a high power of two.\<close>

lemma order_of_two_power:
  assumes p: "is_prime p" "p \<noteq> 2" and "0 \<le> b" and dvd: "p dvd b ^ (2 ^ m) + 1"
  shows "2 ^ Suc m \<le> p - 1"
proof -
  have p2: "2 < p" using p by (simp add: is_prime_def)
  obtain j t where jt: "nat (p - 1) = 2 ^ j * t" and t: "odd t" using odd_part [of "nat (p - 1)"] p2 by auto
  have "\<not> p dvd b"
  proof
    assume "p dvd b"
    then have "p dvd b ^ (2 ^ m)" by (meson dvd_power dvd_trans zero_less_numeral zero_less_power)
    then have "p dvd 1" using dvd by (metis dvd_add_right_iff)
    then show False using p2 by (auto dest: zdvd_imp_le)
  qed
  from fermat_int [OF p(1) this assms(3)] have f: "b ^ (2 ^ j * t) mod p = 1 mod p" using jt p2 by simp
  have neg: "b ^ (2 ^ m) mod p = (- 1) mod p" using dvd by (simp add: mod_eq_dvd_iff)
  have "Suc m \<le> j"
  proof (rule ccontr)
    assume "\<not> Suc m \<le> j"
    then have m: "2 ^ m = (2 ^ j * 2 ^ (m - j) :: nat)" by (simp flip: power_add)
    have "(b ^ (2 ^ j * t)) ^ (2 ^ (m - j)) mod p = 1 mod p" using f by (metis power_mod power_one)
    moreover have "(b ^ (2 ^ j * t)) ^ (2 ^ (m - j)) = (b ^ (2 ^ m)) ^ t"
      by (simp add: m ac_simps flip: power_mult)
    moreover have "(b ^ (2 ^ m)) ^ t mod p = (- 1) ^ t mod p" using neg by (metis power_mod)
    ultimately have "(- 1) mod p = 1 mod p" using t by simp
    then have "p dvd 2" by (simp add: mod_eq_dvd_iff)
    then show False using p2 by (auto dest: zdvd_imp_le)
  qed
  then have "(2 :: nat) ^ Suc m \<le> 2 ^ j" by (intro power_increasing) simp_all
  also have "2 ^ j \<le> 2 ^ j * t" using t by (cases t) simp_all
  finally have "2 ^ Suc m \<le> nat (p - 1)" using jt by simp
  then have "int (2 ^ Suc m) \<le> p - 1" using p2 by (simp add: nat_le_eq_zle le_nat_iff)
  then show ?thesis by simp
qed

lemma small_prime_divisor:
  assumes "1 < n" and "\<not> is_prime n"
  obtains p where "is_prime p" and "p dvd n" and "p * p \<le> n"
proof -
  obtain d where d: "0 < d" "d dvd n" "d \<noteq> 1" "d \<noteq> n" using assms by (auto simp: is_prime_def)
  then obtain e where e: "n = d * e" by (elim dvdE)
  have "0 < d * e" using e assms(1) by linarith
  then have "0 < e" using d(1) by (simp add: zero_less_mult_iff)
  moreover have "e \<noteq> 1" using e d(4) by auto
  ultimately have e1: "1 < e" by linarith
  have d1: "1 < d" using d by simp
  define u where "u = min d e"
  have u: "1 < u" "u dvd n" "u * u \<le> n"
  proof -
    show "1 < u" using d1 e1 by (simp add: u_def)
    show "u dvd n" by (simp add: u_def e min_def)
    have "u * u \<le> d * e" using d1 e1 by (intro mult_mono) (simp_all add: u_def)
    then show "u * u \<le> n" by (simp add: e)
  qed
  obtain p where p: "is_prime (int p)" "p dvd nat u" using prime_divisor_exists [of "nat u"] u(1) by auto
  then have "int p dvd u" using u(1) by (simp add: nat_dvd_iff flip: int_dvd_int_iff)
  moreover from this have "int p \<le> u" using u(1) by (simp add: zdvd_imp_le)
  moreover from this have "int p * int p \<le> u * u" by (intro mult_mono) simp_all
  ultimately show thesis using that [of "int p"] p(1) u by (meson dvd_trans order_trans)
qed

lemma proth:
  assumes n: "n = k * 2 ^ Suc m + 1" and k: "0 < k" "k < 2 ^ Suc m" and "0 \<le> a"
    and wit: "(a ^ nat k) ^ (2 ^ m) mod n = n - 1"
  shows "is_prime n"
proof (rule ccontr)
  assume "\<not> is_prime n"
  moreover have n1: "1 < n" using n k by simp
  ultimately obtain p where p: "is_prime p" "p dvd n" "p * p \<le> n" by (elim small_prime_divisor)
  have "p \<noteq> 2" using p(2) n by auto
  have "(a ^ nat k) ^ (2 ^ m) mod n = (- 1) mod n" using wit n1 by (simp add: zmod_minus1)
  then have "n dvd (a ^ nat k) ^ (2 ^ m) + 1" by (simp add: mod_eq_dvd_iff)
  then have "p dvd (a ^ nat k) ^ (2 ^ m) + 1" using p(2) by (rule dvd_trans [rotated])
  from order_of_two_power [OF p(1) \<open>p \<noteq> 2\<close> _ this] have big: "2 ^ Suc m \<le> p - 1" using assms(4) by simp
  let ?u = "2 ^ Suc m :: int"
  have upos: "0 < ?u" by simp
  have "?u + 1 \<le> p" "0 \<le> p" using big upos by linarith+
  then have "(?u + 1) * (?u + 1) \<le> p * p" using upos by (intro mult_mono) linarith+
  moreover have "k * ?u \<le> ?u * ?u" using k upos by (intro mult_right_mono) simp_all
  moreover have "(?u + 1) * (?u + 1) = ?u * ?u + 2 * ?u + 1" by (simp add: algebra_simps)
  ultimately have "n < p * p" using n upos by linarith
  then show False using p(3) by simp
qed

text \<open>Repeated squaring, to check the witness of the criterion.\<close>

fun squares_mod :: "int \<Rightarrow> nat \<Rightarrow> int \<Rightarrow> int" where
  "squares_mod n 0 x = x mod n"
| "squares_mod n (Suc j) x = squares_mod n j (x * x mod n)"

lemma squares_mod: "squares_mod n j x = x ^ (2 ^ j) mod n"
proof (induction j arbitrary: x)
  case (Suc j)
  have "(x * x mod n) ^ 2 ^ j mod n = (x * x) ^ 2 ^ j mod n" by (rule power_mod)
  also have "(x * x) ^ 2 ^ j = x ^ 2 ^ Suc j" by (simp add: power_mult flip: power2_eq_square)
  finally show ?case by (simp add: Suc)
qed simp

lemma sample_prime_p: "is_prime 206158430209"
proof (rule proth [where k = 3 and m = 35 and a = 11])
  have "squares_mod 206158430209 35 (11 ^ nat 3) = 206158430209 - 1" by code_simp
  then show "((11 :: int) ^ nat 3) ^ 2 ^ 35 mod 206158430209 = 206158430209 - 1"
    by (simp only: squares_mod)
qed simp_all

lemma sample_prime_q: "is_prime 6597069766657"
proof (rule proth [where k = 3 and m = 40 and a = 5])
  have "squares_mod 6597069766657 40 (5 ^ nat 3) = 6597069766657 - 1" by code_simp
  then show "((5 :: int) ^ nat 3) ^ 2 ^ 40 mod 6597069766657 = 6597069766657 - 1"
    by (simp only: squares_mod)
qed simp_all

section \<open>The sample key\<close>

definition sample_key :: paillier where
  "sample_key =
     \<lparr>kp = 206158430209, kq = 6597069766657, kn = 1360041547073261049741313,
      kn_sq = 1360041547073261049741313 * 1360041547073261049741313, klambda = 6597069766656,
      kg = 1360041547073261049741314, kmu = 42501298345833249374207,
      ke_m = 12345, kd_m = 1360041547073261049741313 - 12345, kr_m = 1000\<rparr>"

lemma sample_key_params: "key_params 206158430209 6597069766657 sample_key"
proof -
  have "lcm (206158430209 - 1) (6597069766657 - 1 :: int) = 6597069766656"
    by (simp add: lcm_proj2_if_dvd_int)
  then show ?thesis
    unfolding key_params_def using sample_prime_p sample_prime_q by (simp add: sample_key_def)
qed

definition sample_heps :: heps where
  "sample_heps = \<lparr>heps_paillier = sample_key, heps_n = kn sample_key, heps_mu = kmu sample_key\<rparr>"

lemma sample_honest: "honest_key sample_heps"
  unfolding honest_key_def
proof (intro conjI)
  show "\<exists>p q. key_params p q (heps_paillier sample_heps)"
    using sample_key_params by (auto simp: sample_heps_def)
qed (simp_all add: sample_heps_def sample_key_def scale_ok_def)

lemma sample_small: "heps_n sample_heps < 2 ^ 2048"
  by (rule less_le_trans [of _ "2 ^ 81"]) (simp_all add: sample_heps_def sample_key_def)

text \<open>FNV-1a stands for the hash, a flat world for the cosine.\<close>

definition fnv1a :: "string \<Rightarrow> u64" where
  "fnv1a s = foldl (\<lambda>h c. xor h (of_char c) * 1099511628211) 14695981039346656037 s"

definition sample_env :: env where
  "sample_env = \<lparr>lib_cos = (\<lambda>_. Fin 1), lib_hash = fnv1a, lib_gmp = gmp_ref\<rparr>"

lemma sample_env_sel [simp]:
  "lib_cos sample_env = (\<lambda>_. Fin 1)" "lib_hash sample_env = fnv1a" "lib_gmp sample_env = gmp_ref"
  by (simp_all add: sample_env_def)

text \<open>The proxy's two operations have a result with the sample key.\<close>

lemma sample_draw: "pick_nonzero rng_ref 1360041547073261049741313 (1 # xs) = Some (1, xs)"
  by (subst pick_nonzero.simps) (simp add: rng_ref_def)

lemma sample_notification:
  "\<exists>bval s'. heps_blind_notification H G rng_ref sample_heps name s = Inr (bval, s')"
  by (cases s) (simp_all add: heps_blind_notification_def blind_notification_def sample_heps_def
      sample_key_def rng_ref_def Let_def)

lemma sample_subscription:
  "\<exists>m1 m2 t'. heps_blind_subscription H G rng_ref sample_heps name [1, 1] = Some (Inr ((m1, m2), t'))"
  by (simp add: heps_blind_subscription_def blind_negated_def encrypt_def blind_subscription_def
      sample_heps_def sample_key_def sample_draw Let_def)

lemma sample_coprime: "draws_coprime rng_ref (heps_n sample_heps) [1, 1]"
  by (simp add: draws_coprime_def sample_heps_def sample_key_def sample_draw)

section \<open>The sample brokers\<close>

definition sample_addr :: sockaddr where
  "sample_addr = \<lparr>sin_addr = 0x7f000001, sin_port = 7000\<rparr>"

definition sample_cfg :: broker_config where
  "sample_cfg = default_config\<lparr>broker_id := ''root'', listen_port := 5000\<rparr>"

definition sample_broker :: broker where
  "sample_broker = (blank_broker sample_addr sample_cfg)\<lparr>my_region := config_region sample_cfg\<rparr>"

definition sample_he_broker :: broker where
  "sample_he_broker = sample_broker\<lparr>he_n := kn sample_key, he_mu := kmu sample_key,
     he_n_sq := kn_sq sample_key, he_enabled := True\<rparr>"

lemmas sample_defs = sample_he_broker_def sample_broker_def sample_cfg_def default_config_def

lemma sample_broker_wf: "broker_wf sample_broker" "broker_wf sample_he_broker"
  by (simp_all add: sample_defs blank_broker_def broker_wf_def groups_wf_def caches_wf_def
      children_wf_def windows_wf_def window_inv_def crypto_wf_def sets_wf_def active_wf_def
      sample_key_def)

lemma sample_same_key: "same_key sample_he_broker sample_heps"
  by (simp add: same_key_def sample_he_broker_def sample_heps_def sample_key_def)

section \<open>A leaf that starts without a key file\<close>

definition sample_os :: os where
  "sample_os = \<lparr>os_socket = True, os_bind = (\<lambda>_. True), os_unlink = (\<lambda>_. True),
     os_open_write = (\<lambda>_. True), os_open_read = (\<lambda>_. True), os_umask = 0x12\<rparr>"

section \<open>Sample datagrams\<close>

lemma sample_zero_dist:
  "geo_distance (\<lambda>_. Fin 1) (Zero False) (Zero False) (Zero False) (Zero False) = Zero False"
  by (rule geo_distance_self) (simp_all add: fp_finite_def)

lemma sample_near: "flt (geo_distance (lib_cos sample_env) (widen 0) (widen 0) (widen 0) (widen 0)) DBL_MAX"
  using sample_zero_dist by (simp add: flt_def DBL_MAX_def)

definition sample_event :: "byte list \<Rightarrow> event" where
  "sample_event d = \<lparr>ev_bytes = d, ev_from = sample_addr, ev_t1 = 100, ev_t2 = 100\<rparr>"

lemma sample_event_sel [simp]:
  "ev_bytes (sample_event d) = d" "ev_from (sample_event d) = sample_addr"
  by (simp_all add: sample_event_def)

lemma sample_sel [simp]:
  "subscribers sample_broker = []" "subscribers sample_he_broker = []"
  "brake_count_local sample_broker = []" "brake_count_local sample_he_broker = []"
  "sint (brake_limit (config sample_broker)) = 2" "sint (brake_limit (config sample_he_broker)) = 2"
  by (simp_all add: sample_defs blank_broker_def)

section \<open>A whole start of the program\<close>

definition sample_file :: string where
  "sample_file = write_lines [''broker_id=leaf'', ''listen_port=5001'',
     ''parent_addr=127.0.0.1:5000'', ''coords=0,0'', ''brake_limit=2'']"

definition sample_fs :: file_system where
  "sample_fs = (\<lambda>p. if p = ''leaf.cfg'' then Some \<lparr>f_data = sample_file, f_mode = 0\<rparr> else None)"

lemma sample_parse:
  "\<exists>cfg. parse_config (Some sample_file) = Inr cfg \<and> cfg_parent_addr cfg = ''127.0.0.1:5000'' \<and>
    \<not> require_he cfg"
proof -
  have "(case parse_config (Some sample_file) of Inl e \<Rightarrow> False
     | Inr cfg \<Rightarrow> cfg_parent_addr cfg = ''127.0.0.1:5000'' \<and> \<not> require_he cfg)"
    by code_simp
  then show ?thesis by (auto split: sum.splits)
qed

lemma leaf_start:
  assumes "cfg_parent_addr cfg = ''127.0.0.1:5000''" and "\<not> require_he cfg" and "fs key_file = None"
  shows "\<exists>b logs. broker_new sample_env sample_os rng_ref sample_addr cfg fs [] = Inr (b, fs, [], logs)"
proof -
  have "find_char CHR '':'' ''127.0.0.1:5000'' = Some 9" "stoi ''5000'' = Inr (5000, 4)" by code_simp+
  then obtain pa where "resolve_parent (cfg_parent_addr cfg) sample_addr = Inr pa"
    by (simp add: resolve_parent_def assms(1) Let_def)
  then show ?thesis
    using assms by (simp add: broker_new_def sample_os_def init_crypto_def init_crypto_leaf_def
        read_file_def leaf_key_def Let_def)
qed

lemma sample_main:
  "\<exists>b logs. main_start sample_env sample_os rng_ref sample_addr [''broker'', ''leaf.cfg''] sample_fs []
    = Inr (b, sample_fs, [], logs)"
proof -
  obtain cfg where cfg: "parse_config (Some sample_file) = Inr cfg"
    "cfg_parent_addr cfg = ''127.0.0.1:5000''" "\<not> require_he cfg" using sample_parse by blast
  have "sample_fs key_file = None" by (simp add: sample_fs_def key_file_def)
  from leaf_start [where fs = sample_fs, OF cfg(2,3) this] cfg(1) show ?thesis
    by (auto simp: main_start_def read_file_def sample_os_def sample_fs_def)
qed

section \<open>Brokers with a child and with a subscriber\<close>

definition sample_parent_broker :: broker where
  "sample_parent_broker = sample_broker
     \<lparr>children := [(''c'', child_default\<lparr>ch_id := ''c'', ch_addr := sample_addr\<rparr>)],
      child_active := [(''a'', [''c'']), (''b'', [''c''])]\<rparr>"

lemma sample_parent_wf: "broker_wf sample_parent_broker"
  using sample_broker_wf(1)
  by (auto simp: sample_parent_broker_def broker_wf_def crypto_wf_def sets_wf_def active_wf_def
      children_wf_def um_inv_def um_find_def child_wf_def child_default_def DBL_MAX_def fle_def
      split: if_splits)

lemma zero_region_dist:
  assumes "ch_region c = region_default"
  shows "child_quad c 0 0 = 3" and "child_dist sample_env c 0 0 = Zero False"
proof -
  show q: "child_quad c 0 0 = 3"
    by (simp add: child_quad_def quadrant_of_def assms region_default_def fhalf_def)
  have "quadrant_centers (ch_region c) ! 3 = (Zero False, Zero False)"
    by (simp add: quadrant_centers_def assms region_default_def fhalf_def Let_def)
  then show "child_dist sample_env c 0 0 = Zero False"
    unfolding child_dist_def q Let_def sample_env_sel using sample_zero_dist by simp
qed

lemma sample_child_accepts: "child_accepts sample_env 0 0 ''p'' sample_parent_broker ''c''"
proof -
  let ?c = "child_default\<lparr>ch_id := ''c'', ch_addr := sample_addr\<rparr>"
  have "ch_region ?c = region_default" by (simp add: child_default_def)
  note d = zero_region_dist [OF this]
  have "flt (child_dist sample_env ?c 0 0) (closest_quad ?c ! child_quad ?c 0 0)"
    unfolding d by (simp add: child_default_def flt_def DBL_MAX_def)
  then show ?thesis by (simp add: child_accepts_def sample_parent_broker_def um_find_def)
qed

definition sample_sub_broker :: broker where
  "sample_sub_broker = sample_broker
     \<lparr>subscribers := [(''a'', [new_client sample_addr 0 0 None None])], last_active := [(''a'', 100)]\<rparr>"

lemma sample_sub_wf: "broker_wf sample_sub_broker"
  using sample_broker_wf(1)
  by (auto simp: sample_sub_broker_def broker_wf_def crypto_wf_def sets_wf_def active_wf_def
      groups_wf_def um_inv_def um_find_def split: if_splits)

end
