(* ===== verification/Observations.thy ===== *)
theory Observations
  imports End_To_End Samples
begin

text \<open>
  Behaviour of the code that differs from what its comments and documents mean it to do, each
  stated as a theorem of the model: heartbeats that do not reach encrypted groups, regions
  that forget their subscribers, quadrant distances shared by all services, a group closed by
  its first member, and coordinates that are not numbers.
\<close>

section \<open>Heartbeats and encrypted groups\<close>

text \<open>
  However many heartbeats a client sends for its service, the clock of the group its blinded
  subscription joined stands still, and the group expires with its subscribers.
\<close>

lemma beats_leave_group:
  assumes "\<forall>ev \<in> set evs. ev_bytes ev = beat_packet name" and "length name < 4000" and "key \<noteq> name"
  shows "\<exists>b'. receive_all E evs b = Inr (b', []) \<and> subscribers b' = subscribers b \<and>
    um_find (last_active b') key = um_find (last_active b) key"
  using assms(1)
proof (induction evs arbitrary: b)
  case (Cons ev evs)
  let ?b = "b\<lparr>last_active := um_put name (ev_t1 ev) (last_active b)\<rparr>"
  obtain b' where "receive_all E evs ?b = Inr (b', [])" "subscribers b' = subscribers ?b"
    "um_find (last_active b') key = um_find (last_active ?b) key" using Cons by fastforce
  then show ?case using receive_beat [of name ev E b] Cons.prems assms(2,3) by simp
qed simp

theorem beats_cannot_keep_encrypted_group:
  assumes wf: "broker_wf b" and beats: "\<forall>ev \<in> set evs. ev_bytes ev = beat_packet name"
    and name: "length name < 4000" "hash_service_name E name \<noteq> name"
    and late: "overdue now b (hash_service_name E name)"
  shows "\<exists>b'. receive_all E evs b = Inr (b', []) \<and>
    um_find (subscribers b') (hash_service_name E name) \<noteq> None \<and>
    um_find (subscribers (cleanup_expired now b')) (hash_service_name E name) = None"
proof -
  obtain b' where run: "receive_all E evs b = Inr (b', [])" and same: "subscribers b' = subscribers b"
    "um_find (last_active b') (hash_service_name E name) = um_find (last_active b) (hash_service_name E name)"
    using beats_leave_group [OF beats name, of E b] by blast
  have "broker_wf b'" using receive_all_keeps [OF run] wf by (simp add: keeps_def)
  moreover have "overdue now b' (hash_service_name E name)"
    using late same by (simp add: overdue_def um_at_def)
  ultimately have "um_find (subscribers (cleanup_expired now b')) (hash_service_name E name) = None"
    using cleanup_expired_finds(1) by simp
  then show ?thesis using run late same(1) by (auto simp: overdue_def)
qed

section \<open>The region and local subscribers\<close>

lemma handle_hello_region:
  assumes "handle_hello msg addr b = (b', out)" and "get_service_name msg = Some i"
    and "get_coordinates msg = Some (lat, lon)"
  shows "my_region b' = foldl (\<lambda>r (i, c). merge r (ch_region c)) (config_region (config b')) (children b')" and "um_find (children b') i \<noteq> None"
    and "ch_addr (the (um_find (children b') i)) = addr"
    and "ch_region (the (um_find (children b') i)) = point_region (widen lat) (widen lon)"
    and "out = [SendTo addr (hello_ack_packet (config b))]" and "config b' = config b"
    and "\<forall>k. k \<noteq> i \<longrightarrow> um_find (children b') k = um_find (children b) k"
  using assms by (auto simp: handle_hello_def Let_def update_my_region_def)

text \<open>A subscription puts its point into the region; the next HELLO of a child takes it out.\<close>

lemma subscribe_local_region:
  assumes "subscribe_local E now msg name lat lon flags client b = (b', out)"
  shows "my_region b' = grow_region (widen lat) (widen lon) (my_region b)" and "children b' = children b"
    and "config b' = config b"
  using assms
  by (auto simp: subscribe_local_def Let_def extend_region_def add_subscriber_def query_cache_def
      propagate_subscription_def split: if_splits option.splits prod.splits)

theorem hello_forgets_subscriber:
  assumes b1: "subscribe_local E now msg1 name lat lon flags client b = (b1, out1)"
    and b2: "handle_hello msg2 addr b1 = (b2, out2)"
    and msg2: "get_service_name msg2 = Some i" "get_coordinates msg2 = Some (clat, clon)"
    and num: "region_num (my_region b)" "widen lat \<noteq> NaN" "widen lon \<noteq> NaN"
    and other: "\<forall>(j, c) \<in> set (children b). region_le (ch_region c) u"
      "region_le (config_region (config b)) u" "region_le (point_region (widen clat) (widen clon)) u"
    and out: "\<not> contains u (widen lat) (widen lon)"
    and wf: "um_inv (children b)"
  shows "contains (my_region b1) (widen lat) (widen lon) \<and> \<not> contains (my_region b2) (widen lat) (widen lon)"
proof
  note s1 = subscribe_local_region [OF b1]
  show "contains (my_region b1) (widen lat) (widen lon)"
    using grow_region_contains [OF num] by (simp add: s1)
  note h = handle_hello_region [OF b2 msg2]
  have "um_inv (children b2)"
    using b2 wf msg2 s1(2) by (auto simp: handle_hello_def Let_def update_my_region_def um_invs)
  have "\<forall>(j, c) \<in> set (children b2). region_le (ch_region c) u"
  proof (intro ballI, clarify)
    fix j c assume "(j, c) \<in> set (children b2)"
    then have j: "um_find (children b2) j = Some c"
      using um_in_set_find [OF \<open>um_inv (children b2)\<close>] by simp
    show "region_le (ch_region c) u"
    proof (cases "j = i")
      case True
      then show ?thesis using h(4) j other(3) by simp
    next
      case False
      then have "um_find (children b) j = Some c" using h(7) j s1(2) by simp
      then have "(j, c) \<in> set (children b)" by (rule um_find_in_set)
      then show ?thesis using other(1) by blast
    qed
  qed
  then have "region_le (my_region b2) u"
    unfolding h(1) using other(2) by (intro foldl_merge_least) (simp_all add: h(6) s1(3))
  then show "\<not> contains (my_region b2) (widen lat) (widen lon)"
    using out region_le_contains by blast
qed

section \<open>Quadrant distances are shared by all services\<close>

text \<open>
  Once a child got a publication of one service, a publication of any other service at the
  same place is not sent to it.
\<close>

theorem child_suppressed_for_other_services:
  assumes wf: "broker_wf b" and run: "forward_down E msg key lat lon bval from_id b = (b1, out)"
    and sent: "i \<in> set (active_children b key)" "child_accepts E lat lon from_id b i"
    and wf1: "broker_wf b1" and run': "forward_down E msg' key' lat lon bval' from_id' b1 = (b2, out')"
  shows "\<exists>js. out' = map (child_sends msg' key' lat lon bval' b1) js \<and> i \<notin> set js \<and>
    set js \<subseteq> set (active_children b1 key')"
proof -
  obtain cs where cs: "um_find (child_active b) key = Some cs" "i \<in> set cs"
    using sent(1) by (cases "um_find (child_active b) key") (simp_all add: active_children_def)
  then have dist: "distinct cs" using wf by (auto simp: broker_wf_def sets_wf_def)
  obtain c where c: "um_find (children b) i = Some c"
    using sent(2) by (auto simp: child_accepts_def split: option.splits)
  have "offer_children E msg key lat lon bval from_id cs b = (b1, out)"
    using run cs by (simp add: forward_down_def)
  from offer_children_result [OF dist this]
  have c1: "um_find (children b1) i = Some (child_updated E lat lon c)" using cs(2) sent(2) c by simp
  have "length (closest_quad c) = 4" using wf c by (auto simp: broker_wf_def children_wf_def child_wf_def)
  then have "child_quad c lat lon < length (closest_quad c)"
    using quadrant_of_bound by (simp add: child_quad_def)
  then have "closest_quad (child_updated E lat lon c) ! child_quad c lat lon = child_dist E c lat lon"
    by (simp add: child_updated_def)
  moreover have "child_quad (child_updated E lat lon c) lat lon = child_quad c lat lon"
    "child_dist E (child_updated E lat lon c) lat lon = child_dist E c lat lon"
    by (simp_all add: child_updated_def child_quad_def child_dist_def Let_def)
  ultimately have "\<not> child_accepts E lat lon from_id' b1 i" by (simp add: child_accepts_def c1)
  then have "i \<notin> set (filter (child_accepts E lat lon from_id' b1) (active_children b1 key'))" by simp
  then show ?thesis using forward_down_result [OF wf1 run'] by (metis filter_is_subset)
qed

section \<open>A first member without the second blinded value\<close>

text \<open>
  A SUBSCRIBE with the first blinded value only opens the hashed group with an empty blinded
  value; no encrypted publication then reaches anyone in the group.
\<close>

theorem half_blinded_member_closes_group:
  assumes group: "um_find (subscribers b) key = Some (new_client client clat clon (Some m1) None # gs)"
    and "he_enabled b"
    and run: "deliver_local E now msg key lat lon (Some bval) b = Inr (b', out)"
  shows "out = []"
proof -
  have "\<not> passes_match E b (new_client client clat clon (Some m1) None) (Some bval)"
    using assms(2) by (simp add: passes_match_def new_client_def Let_def)
  then show ?thesis using deliver_local_result [OF run] group by (simp add: local_deliveries_def)
qed

section \<open>Coordinates that are not numbers\<close>

text \<open>The range test of the parser lets \<^verbatim>\<open>nan\<close> through, and no point is then in the region.\<close>

definition nan_config :: string where
  "nan_config = write_lines [''broker_id=a'', ''listen_port=5000'', ''coords=nan,nan'']"

lemma parse_nan_config:
  "\<exists>cfg. parse_config (Some nan_config) = Inr cfg \<and> widen (cfg_lat cfg) = NaN"
proof -
  have "(case parse_config (Some nan_config) of Inl e \<Rightarrow> False | Inr cfg \<Rightarrow> widen (cfg_lat cfg) = NaN)"
    by code_simp
  then show ?thesis by (auto split: sum.splits)
qed

end
