(* ===== verification/Logger.thy ===== *)
theory Logger
  imports Prelude
begin

text \<open>
  \<^verbatim>\<open>src/logger/logger.h\<close> and \<^verbatim>\<open>src/logger/logger.cpp\<close>: a queue under a mutex, a worker thread
  that drains it, and the destructor. Threads interleave, so the model is a step relation: the
  worker's program counter, the queue, the flag, and what has been printed. \<open>pushed\<close> is a
  history variable. Executions of the whole, with a worker that gets its turns, print everything
  that is pushed while the logger runs.
\<close>

section \<open>The code\<close>

text \<open>
  Where \<^verbatim>\<open>process\<close> is: before the test of \<^verbatim>\<open>running\<close> (without the lock), inside \<^verbatim>\<open>cv.wait\<close>, in
  the inner loop (holding the lock), or returned.
\<close>

datatype worker_pc = AtTest | Waiting | Draining | Returned

record logger =
  logs :: "string list"
  running :: bool
  pc :: worker_pc
  printed :: "string list"
  pushed :: "string list"

definition logger_new :: logger where
  "logger_new = \<lparr>logs = [], running = True, pc = AtTest, printed = [], pushed = []\<rparr>"

text \<open>The mutex is held while the worker drains; \<^verbatim>\<open>pushLog\<close> and the destructor wait for it.\<close>

definition mutex_free :: "logger \<Rightarrow> bool" where
  "mutex_free l \<longleftrightarrow> pc l \<noteq> Draining"

definition push_log :: "string \<Rightarrow> logger \<Rightarrow> logger" where
  "push_log msg l = l\<lparr>logs := logs l @ [msg], pushed := pushed l @ [msg]\<rparr>"

definition stop_running :: "logger \<Rightarrow> logger" where
  "stop_running l = l\<lparr>running := False\<rparr>"

text \<open>One step of \<^verbatim>\<open>process\<close>, or \<open>None\<close> when it cannot move.\<close>

definition worker_step :: "logger \<Rightarrow> logger option" where
  "worker_step l =
     (case pc l of
        AtTest \<Rightarrow> Some (if running l then l\<lparr>pc := Waiting\<rparr> else l\<lparr>pc := Returned\<rparr>)
      | Waiting \<Rightarrow> if logs l \<noteq> [] \<or> \<not> running l then Some (l\<lparr>pc := Draining\<rparr>) else None
      | Draining \<Rightarrow>
          (case logs l of [] \<Rightarrow> Some (l\<lparr>pc := AtTest\<rparr>)
           | m # ms \<Rightarrow> Some (l\<lparr>logs := ms, printed := printed l @ [m]\<rparr>))
      | Returned \<Rightarrow> None)"

inductive logger_step :: "logger \<Rightarrow> logger \<Rightarrow> bool" where
  push: "mutex_free l \<Longrightarrow> running l \<Longrightarrow> logger_step l (push_log msg l)"
| destroy: "mutex_free l \<Longrightarrow> running l \<Longrightarrow> logger_step l (stop_running l)"
| worker: "worker_step l = Some l' \<Longrightarrow> logger_step l l'"

inductive logger_reachable :: "logger \<Rightarrow> bool" where
  new: "logger_reachable logger_new"
| step: "logger_reachable l \<Longrightarrow> logger_step l l' \<Longrightarrow> logger_reachable l'"

inductive_cases logger_stepE: "logger_step l l'"

section \<open>Order and completeness\<close>

definition logger_inv :: "logger \<Rightarrow> bool" where
  "logger_inv l \<longleftrightarrow> pushed l = printed l @ logs l \<and> (pc l = Returned \<longrightarrow> \<not> running l)"

lemma worker_step_inv: "logger_inv l \<Longrightarrow> worker_step l = Some l' \<Longrightarrow> logger_inv l'"
  by (cases "pc l") (auto simp: logger_inv_def worker_step_def split: list.splits if_splits)

lemma logger_reachable_inv: "logger_reachable l \<Longrightarrow> logger_inv l"
proof (induction rule: logger_reachable.induct)
  case new
  then show ?case by (simp add: logger_inv_def logger_new_def)
next
  case (step l l')
  from step.hyps(2) show ?case
  proof (cases rule: logger_step.cases)
    case (push msg)
    then show ?thesis using step.IH by (simp add: logger_inv_def push_log_def)
  next
    case destroy
    then show ?thesis using step.IH by (simp add: logger_inv_def stop_running_def)
  next
    case worker
    then show ?thesis using step.IH by (blast intro: worker_step_inv)
  qed
qed

text \<open>
  With nothing else happening, a running worker prints the whole queue: \<open>worker_run n\<close> is \<open>n\<close>
  steps of the worker alone, and \<open>2 + length (logs l)\<close> of them are enough from the test.
\<close>

fun worker_run :: "nat \<Rightarrow> logger \<Rightarrow> logger" where
  "worker_run 0 l = l"
| "worker_run (Suc n) l = (case worker_step l of None \<Rightarrow> l | Some l' \<Rightarrow> worker_run n l')"

lemma worker_drains:
  "pc l = Draining \<Longrightarrow>
     worker_run (length (logs l)) l = l\<lparr>logs := [], printed := printed l @ logs l\<rparr>"
proof (induction "logs l" arbitrary: l)
  case Nil
  then show ?case by simp
next
  case (Cons m ms)
  let ?l = "l\<lparr>logs := ms, printed := printed l @ [m]\<rparr>"
  have "worker_step l = Some ?l" using Cons.hyps(2) Cons.prems by (simp add: worker_step_def Cons.hyps(2) [symmetric])
  moreover have "worker_run (length (logs ?l)) ?l = ?l\<lparr>logs := [], printed := printed ?l @ logs ?l\<rparr>"
    using Cons.prems by (intro Cons.hyps(1)) simp_all
  ultimately show ?case by (simp add: Cons.hyps(2) [symmetric])
qed

lemma worker_prints_all:
  assumes "pc l = AtTest" and "running l" and "logs l \<noteq> []"
  shows "worker_run (2 + length (logs l)) l = l\<lparr>pc := Draining, logs := [], printed := printed l @ logs l\<rparr>"
proof -
  have "worker_step l = Some (l\<lparr>pc := Waiting\<rparr>)" using assms by (simp add: worker_step_def)
  moreover have "worker_step (l\<lparr>pc := Waiting\<rparr>) = Some (l\<lparr>pc := Draining\<rparr>)"
    using assms by (simp add: worker_step_def)
  ultimately show ?thesis using worker_drains [of "l\<lparr>pc := Draining\<rparr>"] by simp
qed

text \<open>The worker always comes to rest, and after the destructor at its end.\<close>

definition worker_rank :: "logger \<Rightarrow> nat" where
  "worker_rank l = 3 * length (logs l) +
     (case pc l of Returned \<Rightarrow> 0 | AtTest \<Rightarrow> 1 | Draining \<Rightarrow> 2 | Waiting \<Rightarrow> 3)"

lemma worker_stops:
  assumes "\<not> running l" and "pc l \<noteq> Returned"
  shows "\<exists>l'. worker_step l = Some l' \<and> worker_rank l' < worker_rank l \<and> \<not> running l'"
  using assms by (cases "pc l"; cases "logs l") (auto simp: worker_step_def worker_rank_def)

lemma worker_returns: "\<not> running l \<Longrightarrow> pc (worker_run (worker_rank l) l) = Returned"
proof (induction "worker_rank l" arbitrary: l rule: less_induct)
  case less
  show ?case
  proof (cases "pc l = Returned")
    case True
    then have "worker_run n l = l" for n by (cases n) (simp_all add: worker_step_def)
    then show ?thesis using True by simp
  next
    case False
    obtain l' where l': "worker_step l = Some l'" "worker_rank l' < worker_rank l" "\<not> running l'"
      using worker_stops [OF less.prems False] by blast
    have mono: "pc (worker_run (n + k) x) = Returned" if "pc (worker_run n x) = Returned" for n k x
      using that
    proof (induction n arbitrary: x)
      case 0
      then show ?case by (cases k) (simp_all add: worker_step_def)
    next
      case (Suc n)
      then show ?case by (auto split: option.splits)
    qed
    have "pc (worker_run (worker_rank l') l') = Returned" by (rule less.hyps [OF l'(2,3)])
    then have "pc (worker_run (worker_rank l' + (worker_rank l - 1 - worker_rank l')) l') = Returned"
      by (rule mono)
    then have "pc (worker_run (worker_rank l - 1) l') = Returned" using l'(2) by simp
    then show ?thesis using l' by (cases "worker_rank l") simp_all
  qed
qed

section \<open>Every message is printed\<close>

text \<open>
  An endless execution, in which nothing may happen for a while, and a scheduler that lets the
  worker move again and again unless it waits for a message. As long as the destructor is not
  called, what was pushed is printed.
\<close>

definition logger_execution :: "(nat \<Rightarrow> logger) \<Rightarrow> bool" where
  "logger_execution f \<longleftrightarrow> f 0 = logger_new \<and> (\<forall>i. f (Suc i) = f i \<or> logger_step (f i) (f (Suc i)))"

definition worker_scheduled :: "(nat \<Rightarrow> logger) \<Rightarrow> bool" where
  "worker_scheduled f \<longleftrightarrow>
     (\<forall>i. \<exists>j \<ge> i. worker_step (f j) = None \<or> worker_step (f j) = Some (f (Suc j)))"

lemma execution_inv: "logger_execution f \<Longrightarrow> logger_inv (f i)"
proof -
  assume f: "logger_execution f"
  have "logger_reachable (f i)"
  proof (induction i)
    case 0
    then show ?case using f by (simp add: logger_execution_def logger_reachable.new)
  next
    case (Suc i)
    have "f (Suc i) = f i \<or> logger_step (f i) (f (Suc i))" using f by (simp add: logger_execution_def)
    with Suc show ?case by (auto intro: logger_reachable.step)
  qed
  then show ?thesis by (rule logger_reachable_inv)
qed

text \<open>What has been pushed, and what has been printed, only grows.\<close>

lemma logger_step_grows:
  assumes "logger_step l l'"
  shows "\<exists>more. pushed l' = pushed l @ more"
  using assms
  by (cases rule: logger_step.cases)
    (auto simp: push_log_def stop_running_def worker_step_def split: worker_pc.splits if_splits list.splits)

lemma execution_grows:
  assumes "logger_execution f" and "i \<le> j"
  shows "\<exists>more. pushed (f j) = pushed (f i) @ more"
  using assms(2)
proof (induction j rule: dec_induct)
  case (step j)
  have "f (Suc j) = f j \<or> logger_step (f j) (f (Suc j))" using assms(1) by (simp add: logger_execution_def)
  then obtain more where "pushed (f (Suc j)) = pushed (f j) @ more" using logger_step_grows by force
  with step.IH show ?case by auto
qed simp

text \<open>
  How far the worker is from having printed the first \<open>n\<close> messages: four steps a message, and the
  steps to its inner loop. A step of another thread leaves it; a step of the worker uses it up.
\<close>

definition backlog :: "nat \<Rightarrow> logger \<Rightarrow> nat" where
  "backlog n l = 4 * (n - length (printed l)) +
     (case pc l of AtTest \<Rightarrow> 3 | Waiting \<Rightarrow> 2 | Draining \<Rightarrow> 1 | Returned \<Rightarrow> 0)"

lemma worker_backlog:
  assumes "logger_inv l" and "running l" and "n \<le> length (pushed l)" and "length (printed l) < n"
  shows "\<exists>l'. worker_step l = Some l' \<and> backlog n l' < backlog n l"
  using assms
  by (cases "pc l"; cases "logs l") (auto simp: logger_inv_def worker_step_def backlog_def)

lemma step_backlog:
  assumes "logger_step l l'" and "logger_inv l" and "running l'"
    and "n \<le> length (pushed l)" and "length (printed l) < n"
  shows "backlog n l' \<le> backlog n l"
  using assms(1)
proof (cases rule: logger_step.cases)
  case (push msg)
  then show ?thesis by (simp add: push_log_def backlog_def)
next
  case destroy
  then show ?thesis using assms(3) by (simp add: stop_running_def)
next
  case worker
  then have "running l" using assms(3) by (auto simp: worker_step_def split: worker_pc.splits if_splits list.splits)
  from worker_backlog [OF assms(2) this assms(4,5)] worker show ?thesis by auto
qed

lemma worker_catches_up:
  assumes exe: "logger_execution f" and fair: "worker_scheduled f" and run: "\<And>i. running (f i)"
    and n: "n \<le> length (pushed (f i))"
  shows "\<exists>j \<ge> i. n \<le> length (printed (f j))"
proof (rule ccontr)
  assume never: "\<not> ?thesis"
  have behind: "length (printed (f j)) < n" if "i \<le> j" for j using never that by (meson not_less)
  have known: "n \<le> length (pushed (f j))" if "i \<le> j" for j
    using execution_grows [OF exe that] n by auto
  have down: "backlog n (f k) \<le> backlog n (f j)" if "i \<le> j" "j \<le> k" for j k
    using that(2)
  proof (induction k rule: dec_induct)
    case (step k)
    have k: "i \<le> k" using that(1) step.hyps by simp
    have "f (Suc k) = f k \<or> logger_step (f k) (f (Suc k))" using exe by (simp add: logger_execution_def)
    then have "backlog n (f (Suc k)) \<le> backlog n (f k)"
      using step_backlog [OF _ execution_inv [OF exe] run known [OF k] behind [OF k]] by auto
    with step.IH show ?case by simp
  qed simp
  have "\<exists>k > j. backlog n (f k) < backlog n (f j)" if "i \<le> j" for j
  proof -
    obtain k where k: "j \<le> k" "worker_step (f k) = None \<or> worker_step (f k) = Some (f (Suc k))"
      using fair by (auto simp: worker_scheduled_def)
    have "i \<le> k" using that k(1) by simp
    with worker_backlog [OF execution_inv [OF exe] run known behind] k(2)
    have "backlog n (f (Suc k)) < backlog n (f k)" by force
    then have "backlog n (f (Suc k)) < backlog n (f j)" using down [OF that k(1)] by simp
    then show ?thesis using k(1) by (intro exI [of _ "Suc k"]) simp
  qed
  then have "i \<le> j \<Longrightarrow> False" for j
    by (induction "backlog n (f j)" arbitrary: j rule: less_induct) (meson less_imp_le order_trans)
  then show False by blast
qed

text \<open>An execution: one message is pushed, then only the worker moves.\<close>

lemma worker_run_step:
  "worker_run (Suc n) l = (case worker_step (worker_run n l) of None \<Rightarrow> worker_run n l | Some l' \<Rightarrow> l')"
proof (induction n arbitrary: l)
  case (Suc n)
  show ?case
  proof (cases "worker_step l")
    case None
    then show ?thesis by simp
  next
    case (Some l')
    then show ?thesis using Suc [of l'] by (simp only: worker_run.simps option.case)
  qed
qed (simp split: option.split)

definition one_message :: "nat \<Rightarrow> logger" where
  "one_message i = (case i of 0 \<Rightarrow> logger_new | Suc n \<Rightarrow> worker_run n (push_log ''m'' logger_new))"

lemma one_message_steps:
  "logger_execution one_message" "worker_scheduled one_message" "running (one_message i)"
proof -
  have later: "one_message (Suc (Suc n)) = (case worker_step (one_message (Suc n)) of
      None \<Rightarrow> one_message (Suc n) | Some l' \<Rightarrow> l')" for n
    unfolding one_message_def nat.case worker_run_step ..
  have first: "logger_step (one_message 0) (one_message (Suc 0))"
    using logger_step.push [of logger_new "''m''"]
    by (simp add: one_message_def mutex_free_def logger_new_def)
  have "one_message (Suc i) = one_message i \<or> logger_step (one_message i) (one_message (Suc i))" for i
  proof (cases i)
    case (Suc n)
    then show ?thesis using later [of n] logger_step.worker [of "one_message (Suc n)"]
      by (auto split: option.splits)
  qed (simp add: first)
  then show "logger_execution one_message" by (simp add: logger_execution_def one_message_def)
  have "worker_step (one_message (Suc n)) = None \<or>
      worker_step (one_message (Suc n)) = Some (one_message (Suc (Suc n)))" for n
    using later [of n] by (auto split: option.splits)
  then show "worker_scheduled one_message" unfolding worker_scheduled_def by (meson le_SucI order_refl)
  have "running (worker_run n l) = running l" for n l
    by (induction n arbitrary: l)
      (auto simp: worker_step_def split: option.splits worker_pc.splits if_splits list.splits)
  then show "running (one_message i)"
    by (simp add: one_message_def logger_new_def push_log_def split: nat.split)
qed

text \<open>
  A message can be lost: pushed while the worker is between its inner loop and its test, it is
  still queued when the destructor clears the flag and the worker returns.
\<close>

definition lossy_state :: logger where
  "lossy_state = \<lparr>logs = [''m''], running = False, pc = Returned, printed = [], pushed = [''m'']\<rparr>"

lemma lossy_reachable: "logger_reachable lossy_state"
proof -
  let ?l1 = "push_log ''m'' logger_new"
  let ?l2 = "stop_running ?l1"
  have "logger_reachable ?l1"
    by (rule logger_reachable.step [OF logger_reachable.new logger_step.push])
      (simp_all add: mutex_free_def logger_new_def)
  then have "logger_reachable ?l2"
    by (rule logger_reachable.step [OF _ logger_step.destroy])
      (simp_all add: mutex_free_def logger_new_def push_log_def)
  moreover have "worker_step ?l2 = Some lossy_state"
    by (simp add: worker_step_def stop_running_def push_log_def logger_new_def lossy_state_def)
  ultimately show ?thesis by (rule logger_reachable.step [OF _ logger_step.worker])
qed

end
