(* ===== verification/Outgoing.thy ===== *)
theory Outgoing
  imports End_To_End
begin

text \<open>
  The datagrams a broker sends: what a receiver reads from each, and which of them a handler
  can send where. Every one is a valid message of five types; a SUBSCRIBE of a broker always
  has the flag FROM_CHILD, a PUBLISH goes up with FROM_CHILD and down with FROM_PARENT.
\<close>

section \<open>What a receiver reads\<close>

lemma holds_key_coords:
  "holds (add_coordinates lat lon (add_service_name key (builder t)))
     [(tlv_code SERVICE_NAME, bytes_of (wire_string key)), (tlv_code COORDINATES, put32 lat @ put32 lon)]"
  using holds_add_coordinates [where lat = lat and lon = lon,
      OF holds_add_string [where t = SERVICE_NAME and s = key, OF holds_builder]]
  by (simp add: add_service_name_def)

definition forward_fields ::
    "string \<Rightarrow> f32 \<Rightarrow> f32 \<Rightarrow> string option \<Rightarrow> u32 \<Rightarrow> (u16 \<times> byte list) list" where
  "forward_fields key lat lon bval flag =
     [(tlv_code SERVICE_NAME, bytes_of (wire_string key)), (tlv_code COORDINATES, put32 lat @ put32 lon)] @
     (case bval of None \<Rightarrow> [] | Some v \<Rightarrow> [(tlv_code BLINDED_VALUE, bytes_of (wire_string v))]) @
     [(tlv_code FLAGS, put32 flag)]"

lemma payload_size: "get_payload m = Some p \<Longrightarrow> length p < 2 ^ 32 \<and> 0 < get_payload_size m"
  using unat_bound [of "payload_len m"]
  by (auto simp: get_payload_def get_payload_size_def unat_gt_0 split: if_splits)

lemma holds_blinded_opt:
  "holds b fs \<Longrightarrow> holds (case bval of Some v \<Rightarrow> add_blinded_value v b | None \<Rightarrow> b)
     (fs @ (case bval of None \<Rightarrow> [] | Some v \<Rightarrow> [(tlv_code BLINDED_VALUE, bytes_of (wire_string v))]))"
  using holds_add_string [where t = BLINDED_VALUE]
  by (auto simp: add_blinded_value_def split: option.split)

lemma forward_built:
  obtains p where "forward_packet msg key lat lon bval flag = build p"
    and "packet_ok p (forward_fields key lat lon bval flag)" and "b_type p = PUBLISH"
    and "b_payload p = (case get_payload msg of None \<Rightarrow> [] | Some x \<Rightarrow> x)"
proof -
  let ?b0 = "add_coordinates lat lon (add_service_name key (builder PUBLISH))"
  let ?pl = "case get_payload msg of None \<Rightarrow> [] | Some x \<Rightarrow> x"
  let ?b1 = "if get_payload msg = None then ?b0 else set_payload ?pl ?b0"
  let ?b2 = "case bval of Some v \<Rightarrow> add_blinded_value v ?b1 | None \<Rightarrow> ?b1"
  let ?f1 = "[(tlv_code SERVICE_NAME, bytes_of (wire_string key)),
      (tlv_code COORDINATES, put32 lat @ put32 lon)]"
  have 1: "holds ?b1 ?f1" "b_type ?b1 = PUBLISH" "b_payload ?b1 = ?pl"
    using holds_key_coords [of lat lon key PUBLISH] by simp_all
  note 2 = holds_blinded_opt [OF 1(1), of bval]
  have t: "b_type ?b2 = PUBLISH" "b_payload ?b2 = ?pl"
    using 1(2,3) by (cases bval; simp)+
  have "forward_packet msg key lat lon bval flag = build (add_flags flag ?b2)"
    using payload_size [of msg] by (simp add: forward_packet_def Let_def split: option.split)
  moreover have "packet_ok (add_flags flag ?b2) (forward_fields key lat lon bval flag)"
    using holds_add_flags [OF 2, of flag] t(2) payload_size [of msg]
    by (auto simp: packet_ok_def forward_fields_def split: option.split)
  ultimately show ?thesis using that [of "add_flags flag ?b2"] t by simp
qed

lemma forward_view:
  assumes "m = tlv_message (forward_packet msg key lat lon bval flag)"
  shows "valid m" and "msg_type m = PUBLISH" and "get_service_name m = Some (wire_string key)"
    and "get_coordinates m = Some (lat, lon)" and "msg_flags m = flag"
    and "get_blinded_value m = map_option wire_string bval"
    and "get_payload m = (case get_payload msg of None \<Rightarrow> None | Some x \<Rightarrow> if x = [] then None else Some x)"
proof -
  obtain p where p: "forward_packet msg key lat lon bval flag = build p"
    "packet_ok p (forward_fields key lat lon bval flag)" "b_type p = PUBLISH"
    "b_payload p = (case get_payload msg of None \<Rightarrow> [] | Some x \<Rightarrow> x)"
    by (rule forward_built)
  note f = built_field [OF p(2), folded p(1), folded assms]
  show "valid m" using parse_build(1) [OF p(2)] by (simp add: assms p(1))
  show "msg_type m = PUBLISH" by (simp add: assms p(1,3) parse_build_type msg_cast_def)
  have m: "\<exists>d. m = tlv_message d" using assms by blast
  show "get_service_name m = Some (wire_string key)" "get_coordinates m = Some (lat, lon)"
    "msg_flags m = flag" "get_blinded_value m = map_option wire_string bval"
    using m f by (cases bval; auto simp: getter_values forward_fields_def msg_flags_def)+
  show "get_payload m = (case get_payload msg of None \<Rightarrow> None | Some x \<Rightarrow> if x = [] then None else Some x)"
    using parse_build_payload [OF p(2)] by (auto simp: assms p(1,4) split: option.split)
qed

lemma subscribe_ok:
  "packet_ok (add_flags FROM_CHILD (add_coordinates lat lon (add_service_name key (builder SUBSCRIBE))))
     [(tlv_code SERVICE_NAME, bytes_of (wire_string key)), (tlv_code COORDINATES, put32 lat @ put32 lon),
      (tlv_code FLAGS, put32 FROM_CHILD)]"
  using holds_add_flags [OF holds_key_coords [of lat lon key SUBSCRIBE], of FROM_CHILD]
  by (simp add: packet_ok_def)

lemma subscribe_view:
  assumes "m = tlv_message (subscribe_packet cfg key)"
  shows "valid m" and "msg_type m = SUBSCRIBE" and "get_service_name m = Some (wire_string key)"
    and "get_coordinates m = Some (cfg_lat cfg, cfg_lon cfg)" and "msg_flags m = FROM_CHILD"
proof -
  note ok = subscribe_ok [of "cfg_lat cfg" "cfg_lon cfg" key]
  note m = assms [unfolded subscribe_packet_def]
  show "valid m" using parse_build(1) [OF ok] by (simp add: m)
  show "msg_type m = SUBSCRIBE" by (simp add: m parse_build_type msg_cast_def)
  show "get_service_name m = Some (wire_string key)" "get_coordinates m = Some (cfg_lat cfg, cfg_lon cfg)"
    "msg_flags m = FROM_CHILD"
    using built_field [OF ok] by (simp_all add: m getter_values msg_flags_def)
qed

lemma region_ok:
  "packet_ok (add_region (my_region b) (add_service_name (broker_id (config b)) (builder REGION_UPDATE)))
     ([(tlv_code SERVICE_NAME, bytes_of (wire_string (broker_id (config b))))] @
      [(tlv_code REGION, region_bytes (my_region b))])"
proof -
  let ?p = "add_region (my_region b) (add_service_name (broker_id (config b)) (builder REGION_UPDATE))"
  have "holds ?p ([(tlv_code SERVICE_NAME, bytes_of (wire_string (broker_id (config b))))] @
      [(tlv_code REGION, region_bytes (my_region b))])"
    using holds_add_region [where r = "my_region b",
        OF holds_add_string [where t = SERVICE_NAME and s = "broker_id (config b)", OF holds_builder]]
    by (simp add: add_service_name_def)
  moreover have "b_payload ?p = []" by (simp add: adders)
  ultimately show ?thesis by (simp add: packet_ok_def)
qed

lemma region_view:
  "valid (tlv_message (region_packet b))" "msg_type (tlv_message (region_packet b)) = REGION_UPDATE"
  using parse_build(1) [OF region_ok [of b]]
  by (simp_all add: region_packet_def parse_build_type adders msg_cast_def)

lemma name_packet_ok:
  "packet_ok (add_service_name name (builder t)) [(tlv_code SERVICE_NAME, bytes_of (wire_string name))]"
  using holds_add_string [where t = SERVICE_NAME and s = name, OF holds_builder]
  by (simp add: packet_ok_def add_service_name_def)

lemma hello_ack_view:
  "valid (tlv_message (hello_ack_packet cfg))" "msg_type (tlv_message (hello_ack_packet cfg)) = HELLO_ACK"
  using parse_build(1) [OF name_packet_ok]
  by (simp_all add: hello_ack_packet_def parse_build_type msg_cast_def)

lemma hello_view:
  "valid (tlv_message (hello_packet cfg))" "msg_type (tlv_message (hello_packet cfg)) = HELLO"
proof -
  have "packet_ok (add_coordinates lat lon (add_service_name key (builder HELLO)))
     [(tlv_code SERVICE_NAME, bytes_of (wire_string key)), (tlv_code COORDINATES, put32 lat @ put32 lon)]"
    for key lat lon
    using holds_key_coords [of lat lon key HELLO] by (simp add: packet_ok_def)
  from parse_build(1) [OF this] show "valid (tlv_message (hello_packet cfg))" by (simp add: hello_packet_def)
  show "msg_type (tlv_message (hello_packet cfg)) = HELLO"
    by (simp add: hello_packet_def parse_build_type msg_cast_def)
qed

lemma stats_view:
  "valid (tlv_message (stats_packet b))" "msg_type (tlv_message (stats_packet b)) = STATS_RESPONSE"
  using parse_build(1) [OF stats_packet_fields [of b]]
  by (simp_all add: stats_packet_def parse_build_type msg_cast_def)

text \<open>A built packet is accepted as a whole or not at all, whatever buffer it is received in.\<close>

definition whole :: "byte list \<Rightarrow> bool" where
  "whole d \<longleftrightarrow> valid (tlv_message d) \<and> (\<forall>n < length d. \<not> valid (tlv_message (take n d)))"

lemma built_whole: "packet_ok p fs \<Longrightarrow> whole (build p)"
  using parse_build(1) truncated_invalid by (auto simp: whole_def)

lemma whole_valid [simp]: "whole d \<Longrightarrow> valid (tlv_message d)"
  by (simp add: whole_def)

lemma whole_forward [simp]: "whole (forward_packet msg key lat lon bval flag)"
  by (metis built_whole forward_built)

lemma whole_packets [simp]:
  "whole (subscribe_packet cfg key)" "whole (region_packet b)" "whole (hello_ack_packet cfg)"
  "whole (stats_packet b)"
  unfolding subscribe_packet_def region_packet_def hello_ack_packet_def stats_packet_def
  by (rule built_whole, rule subscribe_ok region_ok name_packet_ok stats_packet_fields)+

lemmas packet_views = forward_view(1,2,5) [OF refl] subscribe_view(1,2,5) [OF refl] region_view
  hello_ack_view stats_view

section \<open>What a handler can send where\<close>

text \<open>A datagram on its way up, on its way down, and a publication passed on as it was received.\<close>

definition is_up :: "byte list \<Rightarrow> bool" where
  "is_up d \<longleftrightarrow> whole d \<and>
     (msg_type (tlv_message d) = REGION_UPDATE \<or>
      msg_type (tlv_message d) \<in> {SUBSCRIBE, PUBLISH} \<and> msg_flags (tlv_message d) = FROM_CHILD)"

definition is_down :: "byte list \<Rightarrow> bool" where
  "is_down d \<longleftrightarrow> whole d \<and> msg_type (tlv_message d) = PUBLISH \<and>
     msg_flags (tlv_message d) = FROM_PARENT"

definition is_reply :: "byte list \<Rightarrow> bool" where
  "is_reply d \<longleftrightarrow> whole d \<and> msg_type (tlv_message d) \<in> {HELLO_ACK, STATS_RESPONSE}"

text \<open>
  The cases: up to the parent, and never in reaction to a publication of the parent; down to a
  child; a publication to a subscriber; a cached publication or a reply to the sender.
\<close>

definition client_addrs :: "broker \<Rightarrow> sockaddr set" where
  "client_addrs b = {gc_addr g |g k gs. um_find (subscribers b) k = Some gs \<and> g \<in> set gs}"

definition child_addrs :: "broker \<Rightarrow> sockaddr set" where
  "child_addrs b = {ch_addr c |c k. um_find (children b) k = Some c}"

definition cached_raws :: "broker \<Rightarrow> byte list set" where
  "cached_raws b = {raw_message p |p k ps. um_find (pub_cache b) k = Some ps \<and> p \<in> set ps}"

definition from_parent :: "tlv_msg \<Rightarrow> bool" where
  "from_parent msg \<longleftrightarrow> msg_type msg = PUBLISH \<and> and (msg_flags msg) FROM_PARENT \<noteq> 0"

definition can_send :: "broker \<Rightarrow> tlv_msg \<Rightarrow> sockaddr \<Rightarrow> action \<Rightarrow> bool" where
  "can_send b msg addr act \<longleftrightarrow>
     (has_parent b \<and> out_dest act = parent_addr b \<and> is_up (out_data act) \<and> \<not> from_parent msg \<and>
        msg_type msg \<in> {PUBLISH, SUBSCRIBE, REGION_UPDATE} \<and>
        (msg_type msg = PUBLISH \<longleftrightarrow> msg_type (tlv_message (out_data act)) = PUBLISH)) \<or>
     (msg_type msg = PUBLISH \<and> out_dest act \<in> child_addrs b \<and> is_down (out_data act)) \<or>
     (msg_type msg = PUBLISH \<and> out_dest act \<in> client_addrs b \<and> out_data act = data msg) \<or>
     (msg_type msg = SUBSCRIBE \<and> and (msg_flags msg) FROM_CHILD = 0 \<and> out_dest act = addr \<and>
        out_data act \<in> cached_raws b) \<or>
     (msg_type msg \<in> {HELLO, STATS_REQUEST} \<and> out_dest act = addr \<and> is_reply (out_data act))"

lemma forward_up_when:
  assumes "forward_up now msg key lat lon bval_n flags b = (b', out)" and "act \<in> set out"
  shows "has_parent b" and "and flags FROM_PARENT = 0" and "out_dest act = parent_addr b"
    and "out_data act = forward_packet msg key lat lon bval_n FROM_CHILD"
  using assms forward_up_actions(7) [OF assms(1)]
  by (auto simp: forward_up_def split: if_splits prod.splits)

lemma local_deliveries_in:
  assumes "act \<in> set (local_deliveries E now msg key lat lon bval_n b)"
  shows "\<exists>gs. um_find (subscribers b) key = Some gs \<and> (\<exists>g \<in> set gs. act = SendTo (gc_addr g) (data msg))"
proof (cases "um_find (subscribers b) key")
  case (Some gs)
  then show ?thesis using assms by (cases gs) (auto simp: local_deliveries_def split: if_splits)
qed (use assms in \<open>simp add: local_deliveries_def\<close>)

text \<open>What a publication leaves alone: the parent, and which child has which address.\<close>

definition child_table :: "broker \<Rightarrow> (string \<times> sockaddr) list" where
  "child_table b = map (\<lambda>(i, c). (i, ch_addr c)) (children b)"

definition neighbours :: "broker \<Rightarrow> bool \<times> sockaddr \<times> (string \<times> sockaddr) list" where
  "neighbours b = (has_parent b, parent_addr b, child_table b)"

lemma find_child_Cons: "find_child ((i, c) # cs) a = (if ch_addr c = a then i else find_child cs a)"
  by (auto simp: sockaddr_eq)

lemma find_child_find:
  "find_child cs a = (case find (\<lambda>(i, d). d = a) (map (\<lambda>(i, c). (i, ch_addr c)) cs) of
     None \<Rightarrow> [] | Some (i, d) \<Rightarrow> i)"
  by (induction cs) (auto simp: find_child_Cons simp del: find_child.simps(2))

lemma find_child_table: "child_table b' = child_table b \<Longrightarrow> find_child_by_addr a b' = find_child_by_addr a b"
  unfolding find_child_by_addr_def child_table_def find_child_find by simp

lemma child_table_cong: "children b' = children b \<Longrightarrow> child_table b' = child_table b"
  by (simp add: child_table_def)

lemma child_table_put:
  assumes "um_find (children b) i = Some c" and "ch_addr c' = ch_addr c" and "um_inv (children b)"
    and "children b' = um_put i c' (children b)"
  shows "child_table b' = child_table b"
proof -
  have "map (\<lambda>(i, c). (i, ch_addr c)) (AList.update i c' m) = map (\<lambda>(i, c). (i, ch_addr c)) m"
    if "map_of m i = Some c" for m :: "(string \<times> child_broker) list"
    using that assms(2) by (induction m) (auto split: if_splits)
  then show ?thesis using assms(1,4) by (simp add: child_table_def um_find_def um_put_def)
qed

lemma offer_children_table:
  "um_inv (children b) \<Longrightarrow> offer_children E msg key lat lon bval from_id cs b = (b', out) \<Longrightarrow>
    child_table b' = child_table b"
proof (induction cs arbitrary: b out)
  case (Cons i cs)
  obtain b1 out1 where 1: "offer_child E msg key lat lon bval from_id i b = (b1, out1)" by force
  then obtain out2 where 2: "offer_children E msg key lat lon bval from_id cs b1 = (b', out2)"
    using Cons.prems by (auto split: prod.splits)
  have "um_inv (children b1) \<and> child_table b1 = child_table b"
  proof (cases "child_accepts E lat lon from_id b i")
    case True
    then obtain c where c: "um_find (children b) i = Some c"
      by (auto simp: child_accepts_def split: option.splits)
    with True 1 have "children b1 = um_put i (child_updated E lat lon c) (children b)"
      by (auto simp: offer_child_eq)
    from child_table_put [OF c _ Cons.prems(1) this] this Cons.prems(1) show ?thesis
      by (simp add: child_updated_def um.inv_put)
  qed (use 1 Cons.prems(1) in \<open>simp add: offer_child_eq\<close>)
  with Cons.IH [OF _ 2] show ?case by simp
qed simp

lemma child_accepts_cong: "children b' = children b \<Longrightarrow> child_accepts E lat lon i b' = child_accepts E lat lon i b"
  by (simp add: child_accepts_def fun_eq_iff)

text \<open>What a publication sends, in order: up, to the children, to the subscribers.\<close>

lemma publish_out:
  assumes wf: "broker_wf b" and run: "handle_publish E t_up t_local msg client b = Inr (b', out)"
    and name: "get_service_name msg = Some name"
    and key: "key = pub_key_of E b name (get_blinded_value msg) (msg_flags msg)"
  obtains ups locals where
    "out = ups @ map (child_sends msg key (msg_lat msg) (msg_lon msg) (get_blinded_value msg) b)
      (filter (child_accepts E (msg_lat msg) (msg_lon msg) (from_id_of (msg_flags msg) client b) b)
        (active_children b key)) @ locals"
    and "ups = [] \<or> has_parent b \<and> and (msg_flags msg) FROM_PARENT = 0 \<and> ups = [SendTo (parent_addr b)
      (forward_packet msg key (msg_lat msg) (msg_lon msg) (get_blinded_value msg) FROM_CHILD)]"
    and "\<forall>act \<in> set locals. out_dest act \<in> client_addrs b \<and> out_data act = data msg"
    and "neighbours b' = neighbours b"
proof -
  let ?b = "b\<lparr>stat_pub_received := stat_pub_received b + 1\<rparr>"
  let ?b1 = "cache_pub key \<lparr>cp_lat = msg_lat msg, cp_lon = msg_lon msg, raw_message = data msg\<rparr> ?b"
  let ?from = "from_id_of (msg_flags msg) client"
  have key': "key = pub_key_of E ?b name (get_blinded_value msg) (msg_flags msg)"
    using key by (simp add: pub_key_of_def)
  have wf1: "broker_wf ?b1" using cache_pub_wf [of ?b] wf by simp
  have same: "has_parent ?b1 = has_parent b" "parent_addr ?b1 = parent_addr b"
    "children ?b1 = children b" "subscribers ?b1 = subscribers b" "child_active ?b1 = child_active b"
    by (simp_all add: cache_pub_def Let_def)
  show thesis
  proof (rule handle_publish_stages [OF run name refl key'])
    fix b2 b3 out2 out3 out4
    assume 2: "forward_up t_up msg key (msg_lat msg) (msg_lon msg) (get_blinded_value msg)
        (msg_flags msg) ?b1 = (b2, out2)"
      and 3: "forward_down E msg key (msg_lat msg) (msg_lon msg) (get_blinded_value msg) (?from ?b) b2 = (b3, out3)"
      and 4: "deliver_local E t_local msg key (msg_lat msg) (msg_lon msg) (get_blinded_value msg) b3
        = Inr (b', out4)"
      and out: "out = out2 @ out3 @ out4"
    note fup = forward_up_actions [OF 2]
    have wf2: "broker_wf b2" using forward_up_wf [OF wf1 2] by blast
    have b2: "children b2 = children b" "child_active b2 = child_active b" "subscribers b2 = subscribers b"
      using fup(4-6) same by simp_all
    have from_same: "?from ?b = ?from b" by (simp add: from_id_of_def find_child_by_addr_def)
    note d = forward_down_result [OF wf2 3]
    have "child_sends msg key (msg_lat msg) (msg_lon msg) (get_blinded_value msg) b2
        = child_sends msg key (msg_lat msg) (msg_lon msg) (get_blinded_value msg) b"
      by (simp add: child_sends_def b2(1) fun_eq_iff)
    then have down: "out3 = map (child_sends msg key (msg_lat msg) (msg_lon msg) (get_blinded_value msg) b)
        (filter (child_accepts E (msg_lat msg) (msg_lon msg) (?from b) b) (active_children b key))"
      using d from_same child_accepts_cong [OF b2(1)] by (simp add: active_children_def b2(2))
    have up: "out2 = [] \<or> has_parent b \<and> and (msg_flags msg) FROM_PARENT = 0 \<and> out2 = [SendTo (parent_addr b)
        (forward_packet msg key (msg_lat msg) (msg_lon msg) (get_blinded_value msg) FROM_CHILD)]"
      using fup(7) forward_up_when [OF 2] same by (cases out2) auto
    have "subscribers b3 = subscribers b" using d b2(3) by simp
    then have loc: "\<forall>act \<in> set out4. out_dest act \<in> client_addrs b \<and> out_data act = data msg"
      using deliver_local_result [OF 4] local_deliveries_in by (fastforce simp: client_addrs_def)
    have "um_inv (children b2)" using wf2 by (simp add: broker_wf_def children_wf_def)
    then have "child_table b3 = child_table b2"
      using 3 offer_children_table by (fastforce simp: forward_down_def split: option.splits)
    moreover have "child_table b' = child_table b3" using deliver_local_result [OF 4] child_table_cong by blast
    moreover have "child_table b2 = child_table b" using b2(1) by (rule child_table_cong)
    moreover have "same_setup b' b" using handle_publish_wf [OF wf run] by simp
    ultimately have "neighbours b' = neighbours b" by (simp add: neighbours_def same_setup_def)
    with that [OF _ up loc] out down show thesis by simp
  qed
qed

text \<open>The three ways of a publication: to the parent, to a child, to a subscriber.\<close>

lemma publish_action_cases:
  assumes wf: "broker_wf b" and run: "handle_publish E t_up t_local msg client b = Inr (b', out)"
    and act: "act \<in> set out" and name: "get_service_name msg = Some name"
    and key: "key = pub_key_of E b name (get_blinded_value msg) (msg_flags msg)"
  obtains (up) "has_parent b" and "and (msg_flags msg) FROM_PARENT = 0"
      and "act = SendTo (parent_addr b)
        (forward_packet msg key (msg_lat msg) (msg_lon msg) (get_blinded_value msg) FROM_CHILD)"
  | (down) i c where "um_find (children b) i = Some c"
      and "act = SendTo (ch_addr c)
        (forward_packet msg key (msg_lat msg) (msg_lon msg) (get_blinded_value msg) FROM_PARENT)"
  | (subscriber) "out_dest act \<in> client_addrs b" and "out_data act = data msg"
proof (rule publish_out [OF wf run name key])
  fix ups locals
  assume out: "out = ups @ map (child_sends msg key (msg_lat msg) (msg_lon msg) (get_blinded_value msg) b)
      (filter (child_accepts E (msg_lat msg) (msg_lon msg) (from_id_of (msg_flags msg) client b) b)
        (active_children b key)) @ locals"
    and ups: "ups = [] \<or> has_parent b \<and> and (msg_flags msg) FROM_PARENT = 0 \<and> ups = [SendTo (parent_addr b)
      (forward_packet msg key (msg_lat msg) (msg_lon msg) (get_blinded_value msg) FROM_CHILD)]"
    and loc: "\<forall>act \<in> set locals. out_dest act \<in> client_addrs b \<and> out_data act = data msg"
  from act out consider "act \<in> set ups" | i where
      "child_accepts E (msg_lat msg) (msg_lon msg) (from_id_of (msg_flags msg) client b) b i"
      "act = child_sends msg key (msg_lat msg) (msg_lon msg) (get_blinded_value msg) b i"
    | "act \<in> set locals" by auto
  then show thesis
  proof cases
    case 1
    then show thesis using ups up by auto
  next
    case (2 i)
    then obtain c where "um_find (children b) i = Some c" by (auto simp: child_accepts_def split: option.splits)
    with 2(2) show thesis by (intro down) (simp_all add: child_sends_def)
  next
    case 3
    then show thesis using loc subscriber by blast
  qed
qed

lemma publish_sends:
  assumes wf: "broker_wf b" and run: "handle_publish E t_up t_local msg client b = Inr (b', out)"
    and act: "act \<in> set out" and ty: "msg_type msg = PUBLISH"
  shows "can_send b msg client act"
proof (cases "get_service_name msg")
  case None
  then show ?thesis using run act by (simp add: handle_publish_def)
next
  case (Some name)
  from publish_action_cases [OF wf run act Some refl] show ?thesis
    by cases (auto simp: can_send_def is_up_def is_down_def packet_views from_parent_def
        child_addrs_def client_addrs_def ty)
qed

lemma propagate_sends:
  assumes "propagate_subscription key b = (b', out)" and "act \<in> set out"
  shows "has_parent b \<and> act = SendTo (parent_addr b) (subscribe_packet (config b) key)"
  using assms by (auto simp: propagate_subscription_def split: if_splits)

lemma query_cache_sends:
  assumes "query_cache E key lat lon client b = (b', out)" and "act \<in> set out"
  shows "out_dest act = client \<and> out_data act \<in> cached_raws b"
proof -
  obtain ps best d where ps: "um_find (pub_cache b) key = Some ps"
    and c: "closest_cached (lib_cos E) lat lon (None, DBL_MAX) ps = (Some best, d)"
    and act: "act = SendTo client (raw_message best)"
    using assms by (auto simp: query_cache_def split: option.splits if_splits prod.splits)
  from closest_cached_result [OF c] have "best \<in> set ps" by auto
  then show ?thesis using ps act by (auto simp: cached_raws_def)
qed

text \<open>The three ways a client's subscription can be answered.\<close>

lemma subscribe_action_cases:
  assumes loc: "subscribe_local E now msg name lat lon flags client b = (b', out)" and act: "act \<in> set out"
    and key: "key = sub_key_of E b name (get_blinded_value msg)"
  obtains (region) b2 where "has_parent b" and "config b2 = config b"
      and "act = SendTo (parent_addr b) (region_packet b2)"
  | (query) "out_dest act = client" and "out_data act \<in> cached_raws b"
  | (announce) "has_parent b" and "act = SendTo (parent_addr b) (subscribe_packet (config b) key)"
proof -
  obtain b2 out2 where 2: "extend_region lat lon (add_subscriber now key
      (new_client client lat lon (get_blinded_value msg) (get_blinded_value_hi msg)) b) = (b2, out2)" by force
  obtain b3 out3 where 3: "(if and flags QUERY_MODE \<noteq> 0 then query_cache E key lat lon client b2
      else (b2, [])) = (b3, out3)" by (meson surj_pair)
  obtain out4 where 4: "propagate_subscription key b3 = (b', out4)" and out: "out = out2 @ out3 @ out4"
    using loc 2 3 unfolding key by (auto simp: subscribe_local_def Let_def split: prod.splits)
  have same: "has_parent b2 = has_parent b" "parent_addr b2 = parent_addr b" "pub_cache b2 = pub_cache b"
    "config b2 = config b"
    using 2 by (auto simp: extend_region_def Let_def add_subscriber_def)
  have same3: "has_parent b3 = has_parent b" "parent_addr b3 = parent_addr b" "config b3 = config b"
    using 3 same by (auto simp: query_cache_def split: if_splits option.splits prod.splits)
  consider "act \<in> set out2" | "act \<in> set out3" | "act \<in> set out4" using act out by auto
  then show thesis
  proof cases
    case 1
    then have "has_parent b \<and> act = SendTo (parent_addr b) (region_packet b2)"
      using 2 same by (auto simp: extend_region_def Let_def add_subscriber_def
          send_region_update_to_parent_def split: if_splits)
    then show thesis using region [of b2] same(4) by blast
  next
    case 2
    then have "out_dest act = client \<and> out_data act \<in> cached_raws b2"
      using 3 by (auto split: if_splits dest: query_cache_sends)
    then show thesis by (intro query) (simp_all add: cached_raws_def same)
  next
    case 3
    from propagate_sends [OF 4 this] show thesis using announce same3 by simp
  qed
qed

lemma subscribe_sends:
  assumes run: "handle_subscribe E now msg client b = (b', out)"
    and act: "act \<in> set out" and ty: "msg_type msg = SUBSCRIBE"
  shows "can_send b msg client act"
proof -
  let ?b = "b\<lparr>stat_sub_received := stat_sub_received b + 1\<rparr>"
  obtain name where name: "get_service_name msg = Some name"
    using run act by (auto simp: handle_subscribe_def Let_def split: option.splits)
  have up: "can_send b msg client (SendTo (parent_addr b) d)"
    if "has_parent b" "is_up d" "msg_type (tlv_message d) \<noteq> PUBLISH" for d
    using that by (simp add: can_send_def from_parent_def ty)
  show ?thesis
  proof (cases "and (msg_flags msg) FROM_CHILD = 0")
    case False
    then have "subscribe_from_child name client ?b = (b', out)"
      using run name by (simp add: handle_subscribe_def Let_def msg_flags_def)
    then have "has_parent b \<and> (\<exists>key. act = SendTo (parent_addr b) (subscribe_packet (config b) key))"
      using act by (auto simp: subscribe_from_child_def Let_def split: if_splits dest!: propagate_sends)
    then show ?thesis using up by (auto simp: is_up_def packet_views)
  next
    case True
    obtain lat lon where loc: "subscribe_local E now msg name lat lon (msg_flags msg) client ?b = (b', out)"
      using run name True by (simp add: handle_subscribe_def Let_def msg_flags_def)
    show ?thesis
    proof (rule subscribe_action_cases [OF loc act refl])
      fix b2 assume "has_parent ?b" "act = SendTo (parent_addr ?b) (region_packet b2)"
      then show ?thesis using up [of "region_packet b2"] by (auto simp: is_up_def packet_views)
    next
      assume "out_dest act = client" "out_data act \<in> cached_raws ?b"
      then show ?thesis using True by (simp add: can_send_def ty cached_raws_def)
    next
      assume "has_parent ?b"
        "act = SendTo (parent_addr ?b) (subscribe_packet (config ?b) (sub_key_of E ?b name (get_blinded_value msg)))"
      then show ?thesis using up by (auto simp: is_up_def packet_views)
    qed
  qed
qed

theorem handler_sends:
  assumes "broker_wf b" and "handle_message E t1 t2 msg addr b = Inr (b', out)" and "act \<in> set out"
  shows "can_send b msg addr act"
proof (cases "msg_type msg")
  case SUBSCRIBE
  then show ?thesis
    using assms subscribe_sends [of E t1 msg addr b b' out act] by (simp add: handle_message_def)
next
  case PUBLISH
  then show ?thesis
    using assms publish_sends [of b E t1 t2 msg addr b' out act] by (simp add: handle_message_def)
next
  case HELLO
  then show ?thesis
    using assms(2,3)
    by (auto simp: handle_message_def handle_hello_def Let_def can_send_def is_reply_def packet_views
        split: option.splits prod.splits)
next
  case REGION_UPDATE
  then show ?thesis
    using assms(2,3)
    by (auto simp: handle_message_def handle_region_update_def Let_def can_send_def is_up_def packet_views
        update_my_region_def send_region_update_to_parent_def from_parent_def split: option.splits if_splits)
next
  case STATS_REQUEST
  then show ?thesis
    using assms(2,3)
    by (auto simp: handle_message_def handle_stats_request_def Let_def can_send_def is_reply_def packet_views)
qed (use assms in \<open>simp_all add: handle_message_def\<close>)

section \<open>The caches hold publications\<close>

text \<open>The two members the forwarding stages leave alone.\<close>

definition aside :: "broker \<Rightarrow> broker \<Rightarrow> bool" where
  "aside b b' \<longleftrightarrow> pub_cache b' = pub_cache b \<and> ot_parent b' = ot_parent b"

lemma aside_refl [simp]: "aside b b"
  by (simp add: aside_def)

lemma aside_trans: "aside a b \<Longrightarrow> aside b c \<Longrightarrow> aside a c"
  by (simp add: aside_def)

lemma brake_aside: "brake_allows dir now key lat lon b = (ok, b') \<Longrightarrow> aside b b'"
  by (drule brake_allows_frame) (auto simp: aside_def)

lemma forward_up_aside:
  assumes "forward_up now msg key lat lon bval_n flags b = (b', out)"
  shows "aside b b'"
proof -
  obtain ok b1 where 1: "(if brake_scope (config b) = Upward \<or> brake_scope (config b) = Both
      then brake_allows DirUp now key lat lon b else (True, b)) = (ok, b1)" by force
  have "aside b b1" using 1 by (auto split: if_splits dest: brake_aside)
  moreover have "b' = b \<or> b' = b1 \<or> b' = b1\<lparr>stat_forward_up := stat_forward_up b1 + 1\<rparr>"
    using assms 1 by (auto simp: forward_up_def Let_def split: if_splits)
  ultimately show ?thesis by (auto simp: aside_def)
qed

lemma offer_children_aside:
  "offer_children E msg key lat lon bval_n from_id cs b = (b', out) \<Longrightarrow> aside b b'"
proof (induction cs arbitrary: b out)
  case (Cons c cs)
  obtain b1 out1 where 1: "offer_child E msg key lat lon bval_n from_id c b = (b1, out1)" by force
  then have "aside b b1" by (auto simp: offer_child_eq aside_def split: if_splits)
  with Cons 1 show ?case by (auto split: prod.splits intro: aside_trans)
qed simp

lemma forward_down_aside:
  "forward_down E msg key lat lon bval_n from_id b = (b', out) \<Longrightarrow> aside b b'"
  by (auto simp: forward_down_def split: option.splits dest: offer_children_aside)

lemma deliver_local_aside:
  assumes "deliver_local E now msg key lat lon bval_n b = Inr (b', out)"
  shows "aside b b'"
proof (cases "\<exists>g gs. um_find (subscribers b) key = Some (g # gs)")
  case False
  then show ?thesis using assms by (auto simp: deliver_local_def split: option.splits list.splits)
next
  case True
  then obtain g gs where grp: "um_find (subscribers b) key = Some (g # gs)" by blast
  obtain ok b1 where 1: "(if brake_scope (config b) = Local \<or> brake_scope (config b) = Both
      then brake_allows DirLocal now key lat lon b else (True, b)) = (ok, b1)" by force
  then have b1: "aside b b1" by (auto split: if_splits dest: brake_aside)
  have "\<exists>c h. b' = count_match c h b1 \<or> b' = fst (deliver_all E key lat lon (data msg) (count_match c h b1))"
    using deliver_local_passed [OF grp 1 assms] by (metis fst_conv)
  then show ?thesis
    using b1 by (auto simp: aside_def deliver_all_def deliver_group_spec count_match_def)
qed

lemma publish_aside:
  assumes "handle_publish E t_up t_local msg client b = Inr (b', out)"
    and "get_service_name msg = Some name"
  shows "\<exists>key. aside (cache_pub key \<lparr>cp_lat = msg_lat msg, cp_lon = msg_lon msg, raw_message = data msg\<rparr>
    (b\<lparr>stat_pub_received := stat_pub_received b + 1\<rparr>)) b'"
  by (rule handle_publish_stages [OF assms refl refl])
    (blast intro: aside_trans dest: forward_up_aside forward_down_aside deliver_local_aside)

lemma cached_rawsI: "um_find (pub_cache b) k = Some ps \<Longrightarrow> p \<in> set ps \<Longrightarrow> raw_message p \<in> cached_raws b"
  unfolding cached_raws_def by blast

lemma cached_raws_same: "pub_cache b' = pub_cache b \<Longrightarrow> cached_raws b' = cached_raws b"
  by (simp add: cached_raws_def)

lemma cache_pub_raws: "cached_raws (cache_pub key cp b) \<subseteq> cached_raws b \<union> {raw_message cp}"
proof -
  let ?ps = "um_at [] (pub_cache b) key @ [cp]"
  have ps: "raw_message ` set ?ps \<subseteq> cached_raws b \<union> {raw_message cp}"
    by (cases "um_find (pub_cache b) key") (auto simp: um_at_def intro: cached_rawsI)
  then have "raw_message ` set (drop 1 ?ps) \<subseteq> cached_raws b \<union> {raw_message cp}"
    using set_drop_subset [of 1 ?ps] by (meson image_mono subset_trans)
  with ps show ?thesis
    by (auto simp: cache_pub_def Let_def cached_raws_def split: if_splits)
qed

definition cache_typed :: "broker \<Rightarrow> bool" where
  "cache_typed b \<longleftrightarrow> (\<forall>d \<in> cached_raws b. valid (tlv_message d) \<and> msg_type (tlv_message d) = PUBLISH)"

lemma publish_cache_typed:
  assumes run: "handle_publish E t_up t_local (tlv_message d) client b = Inr (b', out)"
    and ok: "cache_typed b" "valid (tlv_message d)" "msg_type (tlv_message d) = PUBLISH"
  shows "cache_typed b' \<and> ot_parent b' = ot_parent b"
proof (cases "get_service_name (tlv_message d)")
  case None
  then have "aside b b'" using run by (auto simp: handle_publish_def aside_def)
  then show ?thesis using ok(1) cached_raws_same [of b' b] by (simp add: cache_typed_def aside_def)
next
  case (Some name)
  let ?b = "b\<lparr>stat_pub_received := stat_pub_received b + 1\<rparr>"
  let ?cp = "\<lparr>cp_lat = msg_lat (tlv_message d), cp_lon = msg_lon (tlv_message d),
      raw_message = data (tlv_message d)\<rparr>"
  obtain key where a: "aside (cache_pub key ?cp ?b) b'" using publish_aside [OF run Some] by blast
  then have "cached_raws b' \<subseteq> cached_raws b \<union> {d}"
    using cache_pub_raws [of key ?cp ?b] by (simp add: cached_raws_def aside_def)
  with ok a show ?thesis by (auto simp: cache_typed_def aside_def cache_pub_def Let_def)
qed

lemma subscribe_cache: "handle_subscribe E now msg client b = (b', out) \<Longrightarrow> pub_cache b' = pub_cache b"
  by (auto simp: handle_subscribe_def subscribe_from_child_def subscribe_local_def
      propagate_subscription_def add_subscriber_def extend_region_def query_cache_def Let_def
      split: option.splits prod.splits if_splits)

lemma other_aside:
  assumes "handle_message E t1 t2 msg addr b = Inr (b', out)"
    and "msg_type msg \<noteq> PUBLISH" and "msg_type msg \<noteq> SUBSCRIBE"
  shows "aside b b'"
  using assms
  by (cases "msg_type msg")
    (auto simp: handle_message_def handle_heartbeat_def handle_hello_def handle_region_update_def
      handle_stats_request_def snapshot_stats_def update_my_region_def aside_def Let_def
      split: option.splits prod.splits if_splits)

lemma handle_message_cache_typed:
  assumes run: "handle_message E t1 t2 (tlv_message d) addr b = Inr (b', out)"
    and ok: "cache_typed b" "valid (tlv_message d)"
  shows "cache_typed b'"
proof (cases "msg_type (tlv_message d) = PUBLISH")
  case True
  then show ?thesis
    using run publish_cache_typed [of E t1 t2 d addr b b' out] ok by (simp add: handle_message_def)
next
  case False
  then have "pub_cache b' = pub_cache b"
    using run other_aside [OF run False] subscribe_cache [of E t1 "tlv_message d" addr b b' out]
    by (cases "msg_type (tlv_message d) = SUBSCRIBE") (simp_all add: handle_message_def aside_def)
  from cached_raws_same [OF this] ok(1) show ?thesis by (simp add: cache_typed_def)
qed

lemma cleanup_raws: "cached_raws (cleanup_expired now b) \<subseteq> cached_raws b"
proof -
  have "cached_raws (cleanup_one now k b) \<subseteq> cached_raws b" for k b
    by (auto simp: cleanup_one_def Let_def expire_group_def cached_raws_def split: if_splits)
  then have "cached_raws (fold (cleanup_one now) ks b) \<subseteq> cached_raws b" for ks
    by (induction ks arbitrary: b) (simp, fastforce)
  then show ?thesis by (simp add: cleanup_expired_def)
qed

section \<open>Announcements to the parent\<close>

text \<open>The SUBSCRIBE for a key, and the SUBSCRIBEs among the datagrams sent.\<close>

definition announce :: "broker \<Rightarrow> string \<Rightarrow> action" where
  "announce b key = SendTo (parent_addr b) (subscribe_packet (config b) key)"

definition announcements :: "action list \<Rightarrow> action list" where
  "announcements out = filter (\<lambda>a. msg_type (tlv_message (out_data a)) = SUBSCRIBE) out"

lemma announcements_append [simp]: "announcements (xs @ ys) = announcements xs @ announcements ys"
  by (simp add: announcements_def)

lemma announcements_Nil [simp]: "announcements [] = []"
  by (simp add: announcements_def)

text \<open>Each key that enters \<^verbatim>\<open>ot_parent_\<close> is announced when it enters.\<close>

definition announced :: "broker \<Rightarrow> action list \<Rightarrow> broker \<Rightarrow> bool" where
  "announced b out b' \<longleftrightarrow>
     (\<exists>ks. announcements out = map (announce b) ks \<and> ot_parent b' = rev ks @ ot_parent b)"

lemma announced_none: "announcements out = [] \<Longrightarrow> ot_parent b' = ot_parent b \<Longrightarrow> announced b out b'"
  by (simp add: announced_def)

lemma announced_trans:
  assumes "announced a out b" and "announced b out' c" and "same_setup b a"
  shows "announced a (out @ out') c"
proof -
  obtain ks where ks: "announcements out = map (announce a) ks" "ot_parent b = rev ks @ ot_parent a"
    using assms(1) by (auto simp: announced_def)
  obtain ls where ls: "announcements out' = map (announce b) ls" "ot_parent c = rev ls @ ot_parent b"
    using assms(2) by (auto simp: announced_def)
  have "announce b = announce a" using assms(3) by (simp add: announce_def same_setup_def fun_eq_iff)
  then show ?thesis unfolding announced_def using ks ls by (intro exI [of _ "ks @ ls"]) simp
qed

lemma propagate_announced:
  assumes "propagate_subscription key b = (b', out)"
  shows "announced b out b'"
proof (cases "has_parent b \<and> key \<notin> set (ot_parent b)")
  case True
  then have "announcements out = map (announce b) [key] \<and> ot_parent b' = rev [key] @ ot_parent b"
    using assms by (auto simp: propagate_subscription_def announcements_def announce_def packet_views)
  then show ?thesis unfolding announced_def by blast
next
  case False
  then show ?thesis using assms by (intro announced_none) (auto simp: propagate_subscription_def)
qed

lemma announce_cong: "parent_addr b = parent_addr a \<Longrightarrow> config b = config a \<Longrightarrow> announce b = announce a"
  by (simp add: announce_def fun_eq_iff)

lemma announced_cong:
  assumes "announced a out b'" and "parent_addr b = parent_addr a" and "config b = config a"
    and "ot_parent b = ot_parent a"
  shows "announced b out b'"
  using assms(1,4) unfolding announced_def announce_cong [OF assms(2,3)] by simp

lemma subscribe_announced:
  assumes run: "handle_subscribe E now msg client b = (b', out)" and typed: "cache_typed b"
  shows "announced b out b'"
proof (cases "get_service_name msg")
  case None
  then show ?thesis using run by (intro announced_none) (auto simp: handle_subscribe_def)
next
  case (Some name)
  let ?b = "b\<lparr>stat_sub_received := stat_sub_received b + 1\<rparr>"
  show ?thesis
  proof (cases "and (msg_flags msg) FROM_CHILD = 0")
    case False
    then have sub: "subscribe_from_child name client ?b = (b', out)"
      using run Some by (simp add: handle_subscribe_def Let_def msg_flags_def)
    show ?thesis
    proof (cases "find_child_by_addr client ?b = []")
      case True
      then show ?thesis using sub by (intro announced_none) (auto simp: subscribe_from_child_def)
    next
      case False
      with sub show ?thesis
        by (auto simp: subscribe_from_child_def Let_def
            dest!: propagate_announced elim!: announced_cong)
    qed
  next
    case True
    obtain lat lon where loc: "subscribe_local E now msg name lat lon (msg_flags msg) client ?b = (b', out)"
      using run Some True by (simp add: handle_subscribe_def Let_def msg_flags_def)
    let ?key = "sub_key_of E ?b name (get_blinded_value msg)"
    obtain b2 out2 where 2: "extend_region lat lon (add_subscriber now ?key
        (new_client client lat lon (get_blinded_value msg) (get_blinded_value_hi msg)) ?b) = (b2, out2)" by force
    obtain b3 out3 where 3: "(if and (msg_flags msg) QUERY_MODE \<noteq> 0 then query_cache E ?key lat lon client b2
        else (b2, [])) = (b3, out3)" by (meson surj_pair)
    obtain out4 where 4: "propagate_subscription ?key b3 = (b', out4)" and out: "out = out2 @ out3 @ out4"
      using loc 2 3 by (auto simp: subscribe_local_def Let_def split: prod.splits)
    have same: "parent_addr b2 = parent_addr b" "pub_cache b2 = pub_cache b" "config b2 = config b"
      "ot_parent b2 = ot_parent b"
      using 2 by (auto simp: extend_region_def Let_def add_subscriber_def)
    have same3: "parent_addr b3 = parent_addr b" "config b3 = config b" "ot_parent b3 = ot_parent b"
      using 3 same by (auto simp: query_cache_def split: if_splits option.splits prod.splits)
    have "announcements out2 = []"
      using 2 by (auto simp: extend_region_def Let_def announcements_def send_region_update_to_parent_def
          packet_views split: if_splits)
    moreover have "announcements out3 = []"
    proof -
      have "msg_type (tlv_message (out_data a)) = PUBLISH" if "a \<in> set out3" for a
      proof -
        have "out_data a \<in> cached_raws b2"
          using 3 that by (auto split: if_splits dest: query_cache_sends)
        then show ?thesis using typed cached_raws_same [OF same(2)] by (auto simp: cache_typed_def)
      qed
      then show ?thesis by (auto simp: announcements_def filter_empty_conv)
    qed
    moreover have "announced b out4 b'" using announced_cong [OF propagate_announced [OF 4]] same3 by simp
    ultimately show ?thesis by (simp add: announced_def out)
  qed
qed

section \<open>Every datagram of every run\<close>

definition broker_speaks :: "byte list \<Rightarrow> bool" where
  "broker_speaks d \<longleftrightarrow> valid (tlv_message d) \<and>
     msg_type (tlv_message d) \<in> {SUBSCRIBE, PUBLISH, REGION_UPDATE, HELLO_ACK, STATS_RESPONSE}"

lemma can_send_speaks:
  assumes "can_send b (tlv_message d) addr act" and "cache_typed b" and "valid (tlv_message d)"
  shows "broker_speaks (out_data act)"
  using assms
  by (auto simp: can_send_def broker_speaks_def is_up_def is_down_def is_reply_def cache_typed_def)

lemma publish_no_announcement:
  assumes "broker_wf b" and "handle_message E t1 t2 (tlv_message d) addr b = Inr (b', out)"
    and "msg_type (tlv_message d) = PUBLISH"
  shows "announcements out = []"
proof -
  have "msg_type (tlv_message (out_data a)) = PUBLISH" if "a \<in> set out" for a
    using handler_sends [OF assms(1,2) that] assms(3) by (auto simp: can_send_def is_down_def)
  then show ?thesis by (auto simp: announcements_def filter_empty_conv)
qed

lemma other_no_announcement:
  assumes "handle_message E t1 t2 msg addr b = Inr (b', out)"
    and "msg_type msg \<noteq> PUBLISH" and "msg_type msg \<noteq> SUBSCRIBE"
  shows "announcements out = []"
  using assms
  by (cases "msg_type msg")
    (auto simp: handle_message_def handle_hello_def handle_region_update_def handle_stats_request_def
      send_region_update_to_parent_def announcements_def packet_views Let_def
      split: option.splits prod.splits if_splits)

lemma handle_message_announced:
  assumes wf: "broker_wf b" and run: "handle_message E t1 t2 (tlv_message d) addr b = Inr (b', out)"
    and ok: "cache_typed b" "valid (tlv_message d)"
  shows "announced b out b'"
proof -
  consider "msg_type (tlv_message d) = PUBLISH" | "msg_type (tlv_message d) = SUBSCRIBE"
    | "msg_type (tlv_message d) \<noteq> PUBLISH" "msg_type (tlv_message d) \<noteq> SUBSCRIBE" by blast
  then show ?thesis
  proof cases
    case 1
    then have "ot_parent b' = ot_parent b"
      using run publish_cache_typed [of E t1 t2 d addr b b' out] ok by (simp add: handle_message_def)
    with publish_no_announcement [OF wf run 1] show ?thesis by (rule announced_none)
  next
    case 2
    then show ?thesis
      using run ok(1) subscribe_announced [of E t1 "tlv_message d" addr b b' out]
      by (simp add: handle_message_def)
  next
    case 3
    with other_no_announcement [OF run 3] other_aside [OF run 3] show ?thesis
      by (intro announced_none) (simp_all add: aside_def)
  qed
qed

text \<open>What one step of a run adds, and what it keeps.\<close>

definition speaks_from :: "broker \<Rightarrow> action list \<Rightarrow> broker \<Rightarrow> bool" where
  "speaks_from b out b' \<longleftrightarrow> (broker_wf b \<and> cache_typed b \<longrightarrow>
     cache_typed b' \<and> announced b out b' \<and> (\<forall>a \<in> set out. broker_speaks (out_data a)))"

lemma speaks_from_none: "cached_raws b' \<subseteq> cached_raws b \<Longrightarrow> ot_parent b' = ot_parent b \<Longrightarrow> speaks_from b [] b'"
  by (auto simp: speaks_from_def cache_typed_def intro: announced_none)

lemma speaks_from_trans:
  assumes "speaks_from a out b" and "keeps a b" and "speaks_from b out' c"
  shows "speaks_from a (out @ out') c"
  using assms by (auto simp: speaks_from_def keeps_def intro: announced_trans)

lemma receive_speaks: "receive E ev b = Inr (b', out) \<Longrightarrow> speaks_from b out b'"
  using speaks_from_none [of b b]
  by (auto simp: receive_def Let_def speaks_from_def split: if_splits
      dest: handle_message_cache_typed handle_message_announced can_send_speaks [OF handler_sends])

lemma receive_all_speaks: "receive_all E evs b = Inr (b', out) \<Longrightarrow> speaks_from b out b'"
proof (induction evs arbitrary: b out)
  case (Cons ev evs)
  then obtain b1 out1 out2 where "receive E ev b = Inr (b1, out1)"
    and "receive_all E evs b1 = Inr (b', out2)" and "out = out1 @ out2"
    by (auto split: sum.splits prod.splits)
  with Cons.IH show ?case by (blast intro: speaks_from_trans receive_speaks receive_keeps)
qed (simp add: speaks_from_none)

lemma cleanup_ot_parent: "ot_parent (cleanup_expired now b) = ot_parent b"
proof -
  have "ot_parent (cleanup_one now k b) = ot_parent b" for k b
    by (simp add: cleanup_one_def Let_def expire_group_def)
  then have "ot_parent (fold (cleanup_one now) ks b) = ot_parent b" for ks
    by (induction ks arbitrary: b) simp_all
  then show ?thesis by (simp add: cleanup_expired_def)
qed

lemma loop_turn_speaks:
  assumes "loop_turn E w nd = Inr (nd', out)"
  shows "speaks_from (nd_broker nd) out (nd_broker nd')"
proof (cases w)
  case (Ready evs now t_clean)
  then obtain b1 where b1: "receive_all E evs (nd_broker nd) = Inr (b1, out)"
    and nd': "nd_broker nd' = b1 \<or> nd_broker nd' = cleanup_expired t_clean b1"
    using assms by (auto simp: loop_turn_def split: sum.splits if_splits)
  have "speaks_from b1 [] (cleanup_expired t_clean b1)"
    by (rule speaks_from_none [OF cleanup_raws cleanup_ot_parent])
  from speaks_from_trans [OF receive_all_speaks [OF b1] receive_all_keeps [OF b1] this]
  show ?thesis using receive_all_speaks [OF b1] nd' by auto
qed (use assms in \<open>auto simp: loop_turn_def intro: speaks_from_none\<close>)

lemma loop_run_speaks: "loop_run E nd out nd' \<Longrightarrow> speaks_from (nd_broker nd) out (nd_broker nd')"
  by (induction rule: loop_run.induct)
    (auto elim!: loop_stepE dest: loop_turn_speaks loop_run_keeps intro: speaks_from_trans speaks_from_none)

end
