(* ===== verification/Network.thy ===== *)
theory Network
  imports Outgoing "HOL-Library.Multiset"
begin

text \<open>
  Several brokers and the network between them: \<^verbatim>\<open>main\<close> started on several machines. The state
  is a broker for some addresses and the datagrams in flight; a step hands a datagram to the
  broker at its destination, or takes it away (it is lost, or reaches a client). When the
  parents form a tree, no datagram can travel for ever: every run comes to an end, and one without
  losses ends with nothing in flight.
\<close>

section \<open>The system\<close>

record packet =
  pk_src :: sockaddr
  pk_dst :: sockaddr
  pk_body :: "byte list"

record network =
  brokers :: "sockaddr \<Rightarrow> broker option"
  in_flight :: "packet multiset"

definition emit :: "sockaddr \<Rightarrow> action \<Rightarrow> packet" where
  "emit a act = \<lparr>pk_src = a, pk_dst = out_dest act, pk_body = out_data act\<rparr>"

definition after_delivery_to :: "packet \<Rightarrow> broker \<Rightarrow> action list \<Rightarrow> network \<Rightarrow> network" where
  "after_delivery_to p b out N =
     N\<lparr>brokers := (brokers N)(pk_dst p \<mapsto> b),
       in_flight := (in_flight N - {#p#}) + mset (map (emit (pk_dst p)) out)\<rparr>"

inductive net_step :: "env \<Rightarrow> network \<Rightarrow> network \<Rightarrow> bool" for E where
  deliver: "p \<in># in_flight N \<Longrightarrow> brokers N (pk_dst p) = Some b \<Longrightarrow>
    ev_bytes ev = pk_body p \<Longrightarrow> ev_from ev = pk_src p \<Longrightarrow> receive E ev b = Inr (b', out) \<Longrightarrow>
    net_step E N (after_delivery_to p b' out N)"
| gone: "p \<in># in_flight N \<Longrightarrow> net_step E N (N\<lparr>in_flight := in_flight N - {#p#}\<rparr>)"

inductive_cases net_stepE: "net_step E N N'"

section \<open>A tree of brokers\<close>

text \<open>What the receiver parses: the datagram cut to its buffer.\<close>

definition pk_msg :: "packet \<Rightarrow> tlv_msg" where
  "pk_msg p = tlv_message (take recv_buffer (pk_body p))"

text \<open>
  The parent of a broker is at smaller depth, its children are at greater depth, and its
  subscribers are not brokers; a broker that says HELLO says it to a broker above it, and a
  SUBSCRIBE from a broker has its flag.
\<close>

definition broker_placed :: "(sockaddr \<Rightarrow> nat) \<Rightarrow> (sockaddr \<Rightarrow> bool) \<Rightarrow> sockaddr \<Rightarrow> broker \<Rightarrow> bool" where
  "broker_placed depth is_broker a b \<longleftrightarrow> broker_wf b \<and>
     (has_parent b \<and> is_broker (parent_addr b) \<longrightarrow> depth (parent_addr b) < depth a) \<and>
     (\<forall>c \<in> child_addrs b. is_broker c \<longrightarrow> depth a < depth c) \<and>
     (\<forall>c \<in> client_addrs b. \<not> is_broker c)"

definition packet_placed :: "(sockaddr \<Rightarrow> nat) \<Rightarrow> (sockaddr \<Rightarrow> bool) \<Rightarrow> packet \<Rightarrow> bool" where
  "packet_placed depth is_broker p \<longleftrightarrow>
     (is_broker (pk_dst p) \<and> is_broker (pk_src p) \<and> valid (pk_msg p) \<longrightarrow>
        (msg_type (pk_msg p) = HELLO \<longrightarrow> depth (pk_dst p) < depth (pk_src p)) \<and>
        (msg_type (pk_msg p) = SUBSCRIBE \<longrightarrow> and (msg_flags (pk_msg p)) FROM_CHILD \<noteq> 0))"

definition at_broker :: "network \<Rightarrow> sockaddr \<Rightarrow> bool" where
  "at_broker N a \<longleftrightarrow> brokers N a \<noteq> None"

definition broker_tree :: "(sockaddr \<Rightarrow> nat) \<Rightarrow> nat \<Rightarrow> network \<Rightarrow> bool" where
  "broker_tree depth D N \<longleftrightarrow>
     (\<forall>a b. brokers N a = Some b \<longrightarrow> depth a \<le> D \<and> broker_placed depth (at_broker N) a b) \<and>
     (\<forall>p. p \<in># in_flight N \<longrightarrow> packet_placed depth (at_broker N) p)"

section \<open>Addresses a broker knows\<close>

lemma client_addrs_group: "um_find (subscribers b) k = Some gs \<Longrightarrow> gc_addr ` set gs \<subseteq> client_addrs b"
  by (auto simp: client_addrs_def)

lemma client_addrs_same: "subscribers b' = subscribers b \<Longrightarrow> client_addrs b' = client_addrs b"
  by (simp add: client_addrs_def)

lemma child_addrs_same: "children b' = children b \<Longrightarrow> child_addrs b' = child_addrs b"
  by (simp add: child_addrs_def)

lemma client_addrs_put:
  assumes "subscribers b' = um_put k gs (subscribers b)" and "gc_addr ` set gs \<subseteq> A"
  shows "client_addrs b' \<subseteq> client_addrs b \<union> A"
proof
  fix a assume "a \<in> client_addrs b'"
  then obtain g k' gs' where a: "a = gc_addr g" "g \<in> set gs'" "um_find (subscribers b') k' = Some gs'"
    by (auto simp: client_addrs_def)
  show "a \<in> client_addrs b \<union> A"
  proof (cases "k' = k")
    case True
    then show ?thesis using a assms by auto
  next
    case False
    then show ?thesis using a assms(1) client_addrs_group [of b k' gs'] by auto
  qed
qed

lemma child_addrs_put:
  assumes "children b' = um_put i c (children b)"
  shows "child_addrs b' \<subseteq> insert (ch_addr c) (child_addrs b)"
  using assms by (fastforce simp: child_addrs_def split: if_splits)

lemma offer_child_addrs:
  assumes "offer_child E msg key lat lon bval_n from_id i b = (b', out)"
  shows "child_addrs b' \<subseteq> child_addrs b"
proof (cases "child_accepts E lat lon from_id b i")
  case True
  then obtain c where c: "um_find (children b) i = Some c"
    by (auto simp: child_accepts_def split: option.splits)
  then have "children b' = um_put i (child_updated E lat lon c) (children b)"
    using assms True by (auto simp: offer_child_eq)
  moreover have "ch_addr (child_updated E lat lon c) \<in> child_addrs b"
    using c by (auto simp: child_updated_def child_addrs_def)
  ultimately show ?thesis using child_addrs_put [of b' i _ b] by blast
qed (use assms in \<open>simp add: offer_child_eq\<close>)

lemma offer_children_addrs:
  "offer_children E msg key lat lon bval_n from_id cs b = (b', out) \<Longrightarrow> child_addrs b' \<subseteq> child_addrs b"
proof (induction cs arbitrary: b out)
  case (Cons c cs)
  obtain b1 out1 where 1: "offer_child E msg key lat lon bval_n from_id c b = (b1, out1)" by force
  then obtain out2 where "offer_children E msg key lat lon bval_n from_id cs b1 = (b', out2)"
    using Cons.prems by (auto split: prod.splits)
  from Cons.IH [OF this] offer_child_addrs [OF 1] show ?case by blast
qed simp

lemma forward_down_addrs:
  "forward_down E msg key lat lon bval_n from_id b = (b', out) \<Longrightarrow> child_addrs b' \<subseteq> child_addrs b"
  by (auto simp: forward_down_def split: option.splits dest: offer_children_addrs)

lemma delivered_addrs:
  assumes "deliver_local E now msg key lat lon bval_n b = Inr (b', out)"
  shows "client_addrs b' \<subseteq> client_addrs b"
proof
  fix a assume "a \<in> client_addrs b'"
  then obtain g k gs where a: "a = gc_addr g" "g \<in> set gs" "um_find (subscribers b') k = Some gs"
    by (auto simp: client_addrs_def)
  note res = deliver_local_result [OF assms]
  show "a \<in> client_addrs b"
  proof (cases "k = key")
    case False
    then show ?thesis using a res client_addrs_group [of b k gs] by auto
  next
    case True
    then have g: "g \<in> set (delivered_group E now key lat lon bval_n b)" using a res by (auto simp: um_at_def)
    show ?thesis
    proof (cases "um_find (subscribers b) key")
      case None
      then show ?thesis using g by (simp add: delivered_group_def)
    next
      case (Some gs0)
      then have "gc_addr g \<in> gc_addr ` set gs0"
        using g by (cases gs0) (auto simp: delivered_group_def split: if_splits)
      then show ?thesis using a(1) client_addrs_group [OF Some] by blast
    qed
  qed
qed

lemma publish_addrs:
  assumes wf: "broker_wf b" and run: "handle_publish E t_up t_local msg client b = Inr (b', out)"
  shows "client_addrs b' \<subseteq> client_addrs b \<and> child_addrs b' \<subseteq> child_addrs b"
proof (cases "get_service_name msg")
  case None
  then have "subscribers b' = subscribers b" "children b' = children b"
    using run by (auto simp: handle_publish_def)
  from client_addrs_same [OF this(1)] child_addrs_same [OF this(2)] show ?thesis by simp
next
  case (Some name)
  let ?b = "b\<lparr>stat_pub_received := stat_pub_received b + 1\<rparr>"
  let ?key = "pub_key_of E ?b name (get_blinded_value msg) (msg_flags msg)"
  let ?b1 = "cache_pub ?key \<lparr>cp_lat = msg_lat msg, cp_lon = msg_lon msg, raw_message = data msg\<rparr> ?b"
  have wf1: "broker_wf ?b1" using cache_pub_wf [of ?b] wf by simp
  show ?thesis
  proof (rule handle_publish_stages [OF run Some refl refl])
    fix b2 b3 out2 out3 out4
    assume 2: "forward_up t_up msg ?key (msg_lat msg) (msg_lon msg) (get_blinded_value msg)
        (msg_flags msg) ?b1 = (b2, out2)"
      and 3: "forward_down E msg ?key (msg_lat msg) (msg_lon msg) (get_blinded_value msg)
        (from_id_of (msg_flags msg) client ?b) b2 = (b3, out3)"
      and 4: "deliver_local E t_local msg ?key (msg_lat msg) (msg_lon msg) (get_blinded_value msg) b3
        = Inr (b', out4)"
    have wf2: "broker_wf b2" using forward_up_wf [OF wf1 2] by blast
    have b2: "subscribers b2 = subscribers b" "children b2 = children b"
      using forward_up_actions(4,5) [OF 2] by (simp_all add: cache_pub_def Let_def)
    have "client_addrs b3 = client_addrs b"
      using forward_down_result [OF wf2 3] b2 by (simp add: client_addrs_def)
    moreover have "child_addrs b3 \<subseteq> child_addrs b"
      using forward_down_addrs [OF 3] child_addrs_same [OF b2(2)] by simp
    moreover have "child_addrs b' = child_addrs b3" using deliver_local_result [OF 4] child_addrs_same by blast
    ultimately show ?thesis using delivered_addrs [OF 4] by blast
  qed
qed

lemma subscribe_addrs:
  assumes "handle_subscribe E now msg client b = (b', out)"
  shows "client_addrs b' \<subseteq> client_addrs b \<union> (if and (msg_flags msg) FROM_CHILD = 0 then {client} else {})"
    and "children b' = children b"
proof -
  let ?b = "b\<lparr>stat_sub_received := stat_sub_received b + 1\<rparr>"
  show "children b' = children b"
    using assms
    by (auto simp: handle_subscribe_def subscribe_from_child_def subscribe_local_def
        propagate_subscription_def add_subscriber_def extend_region_def query_cache_def Let_def
        split: option.splits prod.splits if_splits)
  show "client_addrs b' \<subseteq> client_addrs b \<union> (if and (msg_flags msg) FROM_CHILD = 0 then {client} else {})"
  proof (cases "get_service_name msg = None \<or> and (msg_flags msg) FROM_CHILD \<noteq> 0")
    case True
    then have "subscribers b' = subscribers b"
      using assms
      by (auto simp: handle_subscribe_def Let_def subscribe_from_child_def propagate_subscription_def
          msg_flags_def split: option.splits if_splits)
    from client_addrs_same [OF this] show ?thesis by simp
  next
    case False
    then obtain name lat lon where loc: "subscribe_local E now msg name lat lon (msg_flags msg) client ?b = (b', out)"
      using assms by (auto simp: handle_subscribe_def Let_def msg_flags_def)
    let ?key = "sub_key_of E ?b name (get_blinded_value msg)"
    obtain d where d: "subscribers b' = um_put ?key (um_at [] (subscribers b) ?key @
        [(new_client client lat lon (get_blinded_value msg) (get_blinded_value_hi msg))
           \<lparr>cached_closest_dist := d\<rparr>]) (subscribers b)"
      using subscribe_local_subscribers [OF loc] by auto
    have "gc_addr ` set (um_at [] (subscribers b) ?key) \<subseteq> client_addrs b"
      using client_addrs_group [of b ?key] by (cases "um_find (subscribers b) ?key") (auto simp: um_at_def)
    then have "client_addrs b' \<subseteq> client_addrs b \<union> (client_addrs b \<union> {client})"
      by (intro client_addrs_put [OF d]) auto
    then show ?thesis using False by simp
  qed
qed

lemma hello_children:
  assumes "handle_hello msg addr b = (b', out)"
  shows "children b' = children b \<or> (\<exists>i c. ch_addr c = addr \<and> children b' = um_put i c (children b))"
proof (cases "get_service_name msg = None \<or> get_coordinates msg = None")
  case True
  then show ?thesis using assms by (auto simp: handle_hello_def split: option.splits)
next
  case False
  then obtain i lat lon where "get_service_name msg = Some i" "get_coordinates msg = Some (lat, lon)" by auto
  then have "children b' = um_put i ((um_at child_default (children b) i)\<lparr>ch_id := i, ch_addr := addr,
      ch_lat := lat, ch_lon := lon, ch_region := point_region (widen lat) (widen lon)\<rparr>) (children b)"
    using assms by (auto simp: handle_hello_def update_my_region_def Let_def)
  moreover have "ch_addr ((um_at child_default (children b) i)\<lparr>ch_id := i, ch_addr := addr,
      ch_lat := lat, ch_lon := lon, ch_region := point_region (widen lat) (widen lon)\<rparr>) = addr" by simp
  ultimately show ?thesis by blast
qed

lemma region_update_children:
  assumes "handle_region_update msg b = (b', out)"
  shows "child_addrs b' \<subseteq> child_addrs b"
proof (cases "\<exists>i r c. get_service_name msg = Some i \<and> get_region msg = Some r \<and> um_find (children b) i = Some c")
  case False
  then have "b' = b" using assms by (auto simp: handle_region_update_def split: option.splits)
  then show ?thesis by simp
next
  case True
  then obtain i r c where c: "get_service_name msg = Some i" "get_region msg = Some r"
    "um_find (children b) i = Some c" by blast
  then have b': "children b' = um_put i (c\<lparr>ch_region := r\<rparr>) (children b)"
    using assms by (auto simp: handle_region_update_def update_my_region_def Let_def)
  have "ch_addr (c\<lparr>ch_region := r\<rparr>) \<in> child_addrs b" using c(3) by (auto simp: child_addrs_def)
  with child_addrs_put [OF b'] show ?thesis by blast
qed

lemma message_addrs:
  assumes "broker_wf b" and run: "handle_message E t1 t2 msg addr b = Inr (b', out)"
  shows "client_addrs b' \<subseteq> client_addrs b \<union>
      (if msg_type msg = SUBSCRIBE \<and> and (msg_flags msg) FROM_CHILD = 0 then {addr} else {})"
    and "child_addrs b' \<subseteq> child_addrs b \<union> (if msg_type msg = HELLO then {addr} else {})"
proof -
  show "client_addrs b' \<subseteq> client_addrs b \<union>
      (if msg_type msg = SUBSCRIBE \<and> and (msg_flags msg) FROM_CHILD = 0 then {addr} else {})"
  proof (cases "msg_type msg = SUBSCRIBE \<or> msg_type msg = PUBLISH")
    case True
    then show ?thesis
      using run subscribe_addrs(1) [of E t1 msg addr b b' out]
        publish_addrs [OF assms(1), of E t1 t2 msg addr b' out]
      by (auto simp: handle_message_def)
  next
    case False
    then have "subscribers b' = subscribers b"
      using run
      by (cases "msg_type msg")
        (auto simp: handle_message_def handle_heartbeat_def handle_hello_def handle_region_update_def
          handle_stats_request_def snapshot_stats_def update_my_region_def Let_def
          split: option.splits prod.splits)
    from client_addrs_same [OF this] show ?thesis by simp
  qed
  have other: "msg_type msg \<notin> {SUBSCRIBE, PUBLISH, HELLO, REGION_UPDATE} \<Longrightarrow> children b' = children b"
    using run
    by (cases "msg_type msg")
      (auto simp: handle_message_def handle_heartbeat_def handle_stats_request_def snapshot_stats_def
        Let_def split: option.splits)
  show "child_addrs b' \<subseteq> child_addrs b \<union> (if msg_type msg = HELLO then {addr} else {})"
  proof (cases "msg_type msg \<in> {SUBSCRIBE, PUBLISH, HELLO, REGION_UPDATE}")
    case False
    with child_addrs_same [OF other] show ?thesis by simp
  next
    case True
    then consider "msg_type msg = SUBSCRIBE" | "msg_type msg = PUBLISH" | "msg_type msg = HELLO"
      | "msg_type msg = REGION_UPDATE" by blast
    then show ?thesis
    proof cases
      case 1
      then show ?thesis using run subscribe_addrs(2) [of E t1 msg addr b b' out] child_addrs_same [of b' b]
        by (simp add: handle_message_def)
    next
      case 2
      then show ?thesis using run publish_addrs [OF assms(1), of E t1 t2 msg addr b' out]
        by (simp add: handle_message_def)
    next
      case 3
      then have "handle_hello msg addr b = (b', out)" using run by (simp add: handle_message_def)
      from hello_children [OF this] show ?thesis
        using 3 child_addrs_put [of b' _ _ b] child_addrs_same [of b' b] by auto
    next
      case 4
      then have "handle_region_update msg b = (b', out)" using run by (simp add: handle_message_def)
      from region_update_children [OF this] show ?thesis by auto
    qed
  qed
qed

section \<open>No datagram travels for ever\<close>

lemma receive_cases:
  assumes "receive E ev b = Inr (b', out)" and "m = tlv_message (take recv_buffer (ev_bytes ev))"
  obtains (dropped) "b' = b" "out = []"
  | (handled) "valid m" "handle_message E (ev_t1 ev) (ev_t2 ev) m (ev_from ev) b = Inr (b', out)"
proof (cases "take recv_buffer (ev_bytes ev) = [] \<or> \<not> valid m")
  case True
  then show thesis using assms dropped by (auto simp: receive_def Let_def split: if_splits)
next
  case False
  then show thesis using assms handled by (simp add: receive_def)
qed

lemma whole_cut:
  assumes "whole d" and "valid (tlv_message (take n d))"
  shows "tlv_message (take n d) = tlv_message d"
proof -
  have "length d \<le> n" using assms unfolding whole_def by (meson not_less)
  then have "take n d = d" by simp
  then show ?thesis by (rule arg_cong)
qed

lemma emit_sel [simp]:
  "pk_src (emit a act) = a" "pk_dst (emit a act) = out_dest act" "pk_body (emit a act) = out_data act"
  by (simp_all add: emit_def)

lemma emit_msg: "whole (out_data act) \<Longrightarrow> valid (pk_msg (emit a act)) \<Longrightarrow> pk_msg (emit a act) = tlv_message (out_data act)"
  using whole_cut [of "out_data act" recv_buffer] by (simp add: pk_msg_def)

text \<open>
  How many hops a datagram still has in it, in a tree of depth \<open>D\<close>: one on its way down has at
  most the levels below it, one on its way up also those above it.
\<close>

definition hops :: "(sockaddr \<Rightarrow> nat) \<Rightarrow> nat \<Rightarrow> (sockaddr \<Rightarrow> bool) \<Rightarrow> packet \<Rightarrow> nat" where
  "hops depth D is_broker p =
     (let m = pk_msg p; k = depth (pk_dst p)
      in if \<not> is_broker (pk_dst p) then 0
         else if \<not> valid m then 1
         else if msg_type m = PUBLISH then (if from_parent m then 1 + (D - k) else 2 + D + k)
         else if msg_type m \<in> {SUBSCRIBE, REGION_UPDATE} then 2 + k
         else if msg_type m \<in> {HELLO, STATS_REQUEST} then 2
         else 1)"

lemma direction_flags [simp]: "FROM_PARENT \<noteq> 0" "FROM_CHILD \<noteq> 0" "and FROM_CHILD FROM_PARENT = 0"
  by (simp_all add: FROM_PARENT_def FROM_CHILD_def)

lemma up_hops:
  assumes "is_up (out_data act)" and "depth (out_dest act) < k"
  shows "hops depth D is_broker (emit a act) <
      (if msg_type (tlv_message (out_data act)) = PUBLISH then 2 + D + k else 2 + k)"
    and "packet_placed depth is_broker (emit a act)"
proof -
  have "whole (out_data act)" using assms(1) by (simp add: is_up_def)
  note m = emit_msg [OF this, of a]
  show "hops depth D is_broker (emit a act) <
      (if msg_type (tlv_message (out_data act)) = PUBLISH then 2 + D + k else 2 + k)"
    using assms m by (auto simp: hops_def Let_def is_up_def from_parent_def)
  show "packet_placed depth is_broker (emit a act)"
    using assms m by (auto simp: packet_placed_def is_up_def)
qed

lemma down_hops:
  assumes "is_down (out_data act)" and "k < depth (out_dest act)" and "depth (out_dest act) \<le> D"
  shows "hops depth D is_broker (emit a act) < 1 + (D - k)"
    and "packet_placed depth is_broker (emit a act)"
proof -
  have "whole (out_data act)" using assms(1) by (simp add: is_down_def)
  note m = emit_msg [OF this, of a]
  show "hops depth D is_broker (emit a act) < 1 + (D - k)"
    using assms m by (auto simp: hops_def Let_def is_down_def from_parent_def)
  show "packet_placed depth is_broker (emit a act)"
    using assms m by (auto simp: packet_placed_def is_down_def)
qed

lemma reply_hops:
  assumes "is_reply (out_data act)"
  shows "hops depth D is_broker (emit a act) < 2" and "packet_placed depth is_broker (emit a act)"
proof -
  have "whole (out_data act)" using assms(1) by (simp add: is_reply_def)
  note m = emit_msg [OF this, of a]
  show "hops depth D is_broker (emit a act) < 2"
    using assms m by (auto simp: hops_def Let_def is_reply_def)
  show "packet_placed depth is_broker (emit a act)"
    using assms m by (auto simp: packet_placed_def is_reply_def)
qed

lemma sent_hops:
  assumes send: "can_send b (pk_msg p) (pk_src p) act" and valid: "valid (pk_msg p)"
    and b: "broker_placed depth is_broker (pk_dst p) b" and p: "packet_placed depth is_broker p"
    and at: "is_broker (pk_dst p)" and D: "\<forall>a. is_broker a \<longrightarrow> depth a \<le> D"
  shows "hops depth D is_broker (emit (pk_dst p) act) < hops depth D is_broker p \<and>
    packet_placed depth is_broker (emit (pk_dst p) act)"
proof (cases "is_broker (out_dest act)")
  case False
  then show ?thesis using at by (auto simp: hops_def packet_placed_def Let_def)
next
  case True
  let ?k = "depth (pk_dst p)" and ?m = "pk_msg p"
  have clients: "out_dest act \<notin> client_addrs b" using b True by (auto simp: broker_placed_def)
  have src: "msg_type ?m = SUBSCRIBE \<and> and (msg_flags ?m) FROM_CHILD = 0 \<longrightarrow> out_dest act \<noteq> pk_src p"
    using p at valid True by (auto simp: packet_placed_def)
  consider (up) "has_parent b" "out_dest act = parent_addr b" "is_up (out_data act)" "\<not> from_parent ?m"
      "msg_type ?m \<in> {PUBLISH, SUBSCRIBE, REGION_UPDATE}"
      "msg_type ?m = PUBLISH \<longleftrightarrow> msg_type (tlv_message (out_data act)) = PUBLISH"
    | (down) "msg_type ?m = PUBLISH" "out_dest act \<in> child_addrs b" "is_down (out_data act)"
    | (reply) "msg_type ?m \<in> {HELLO, STATS_REQUEST}" "is_reply (out_data act)"
    using send clients src unfolding can_send_def by blast
  then show ?thesis
  proof cases
    case up
    have "depth (out_dest act) < ?k" using b True up(1,2) by (simp add: broker_placed_def)
    note less = up_hops [where depth = depth and a = "pk_dst p" and is_broker = is_broker, OF up(3) this]
    from less(1) [of D] less(2) up(4-6) show ?thesis
      using at valid by (auto simp: hops_def [of depth D is_broker p] Let_def split: if_splits)
  next
    case down
    have "?k < depth (out_dest act)" using b True down(2) by (simp add: broker_placed_def)
    note less = down_hops [where depth = depth and a = "pk_dst p" and is_broker = is_broker, OF down(3) this]
    have "depth (out_dest act) \<le> D" using D True by blast
    from less [OF this] down(1) show ?thesis
      using at valid by (auto simp: hops_def [of depth D is_broker p] Let_def)
  next
    case reply
    note less = reply_hops [where depth = depth and a = "pk_dst p" and is_broker = is_broker, OF reply(2)]
    from less(1) [of D] less(2) reply(1) show ?thesis
      using at valid by (auto simp: hops_def [of depth D is_broker p] Let_def)
  qed
qed

lemma placed_after:
  assumes b: "broker_placed depth is_broker (pk_dst p) b" and p: "packet_placed depth is_broker p"
    and at: "is_broker (pk_dst p)" and valid: "valid (pk_msg p)"
    and run: "handle_message E t1 t2 (pk_msg p) (pk_src p) b = Inr (b', out)"
  shows "broker_placed depth is_broker (pk_dst p) b'"
proof -
  have wf: "broker_wf b" using b by (simp add: broker_placed_def)
  then have "broker_wf b' \<and> same_setup b' b" using handle_message_keeps [OF run] by (simp add: keeps_def)
  moreover have "\<not> is_broker c" if "c \<in> client_addrs b'" for c
    using message_addrs(1) [OF wf run] that b p at valid
    by (auto simp: broker_placed_def packet_placed_def split: if_splits)
  moreover have "depth (pk_dst p) < depth c" if "c \<in> child_addrs b'" "is_broker c" for c
    using message_addrs(2) [OF wf run] that b p at valid
    by (auto simp: broker_placed_def packet_placed_def split: if_splits)
  ultimately show ?thesis using b by (simp add: broker_placed_def same_setup_def)
qed

text \<open>A step keeps the tree, keeps the places of the brokers, and uses up hops.\<close>

definition hop_measure :: "(sockaddr \<Rightarrow> nat) \<Rightarrow> nat \<Rightarrow> network \<Rightarrow> nat multiset" where
  "hop_measure depth D N = image_mset (hops depth D (at_broker N)) (in_flight N)"

lemma at_broker_after [simp]:
  "at_broker N (pk_dst p) \<Longrightarrow> at_broker (after_delivery_to p b out N) = at_broker N"
  by (auto simp: at_broker_def after_delivery_to_def fun_eq_iff)

lemma at_broker_gone [simp]: "at_broker (N\<lparr>in_flight := ps\<rparr>) = at_broker N"
  by (simp add: at_broker_def fun_eq_iff)

lemma deliver_step:
  assumes tree: "broker_tree depth D N" and p: "p \<in># in_flight N" and b: "brokers N (pk_dst p) = Some b"
    and ev: "ev_bytes ev = pk_body p" "ev_from ev = pk_src p" and run: "receive E ev b = Inr (b', out)"
  shows "broker_placed depth (at_broker N) (pk_dst p) b' \<and>
    (\<forall>act \<in> set out. hops depth D (at_broker N) (emit (pk_dst p) act) < hops depth D (at_broker N) p \<and>
       packet_placed depth (at_broker N) (emit (pk_dst p) act))"
proof -
  have at: "at_broker N (pk_dst p)" using b by (simp add: at_broker_def)
  have placed: "broker_placed depth (at_broker N) (pk_dst p) b" "packet_placed depth (at_broker N) p"
    using tree p b by (auto simp: broker_tree_def)
  have D: "\<forall>a. at_broker N a \<longrightarrow> depth a \<le> D" using tree by (auto simp: broker_tree_def at_broker_def)
  have m: "pk_msg p = tlv_message (take recv_buffer (ev_bytes ev))" by (simp add: pk_msg_def ev)
  from run m show ?thesis
  proof (cases rule: receive_cases)
    case dropped
    then show ?thesis using placed(1) by simp
  next
    case handled
    have wf: "broker_wf b" using placed(1) by (simp add: broker_placed_def)
    note run' = handled(2) [unfolded ev(2)]
    have "broker_placed depth (at_broker N) (pk_dst p) b'"
      by (rule placed_after [OF placed at handled(1) run'])
    moreover have "\<forall>act \<in> set out. hops depth D (at_broker N) (emit (pk_dst p) act) < hops depth D (at_broker N) p \<and>
       packet_placed depth (at_broker N) (emit (pk_dst p) act)"
      using sent_hops [OF handler_sends [OF wf run'] handled(1) placed at D] by blast
    ultimately show ?thesis ..
  qed
qed

lemma step_tree:
  assumes "net_step E N N'" and tree: "broker_tree depth D N"
  shows "broker_tree depth D N' \<and> at_broker N' = at_broker N"
  using assms(1)
proof (cases rule: net_step.cases)
  case (deliver p b ev b' out)
  have at: "at_broker N (pk_dst p)" using deliver by (simp add: at_broker_def)
  note st = deliver_step [OF tree deliver(2-6)]
  have "packet_placed depth (at_broker N) q" if "q \<in># in_flight N'" for q
    using that tree st deliver(1)
    by (auto simp: after_delivery_to_def broker_tree_def dest: in_diffD)
  moreover have "depth a \<le> D \<and> broker_placed depth (at_broker N) a c" if "brokers N' a = Some c" for a c
    using that tree st deliver(1,3)
    by (auto simp: after_delivery_to_def broker_tree_def split: if_splits)
  moreover have "at_broker N' = at_broker N" using at by (simp add: deliver(1))
  ultimately show ?thesis unfolding broker_tree_def by simp
next
  case (gone p)
  then show ?thesis using tree by (auto simp: broker_tree_def dest: in_diffD)
qed

lemma step_measure:
  assumes "net_step E N N'" and tree: "broker_tree depth D N"
  shows "(hop_measure depth D N', hop_measure depth D N) \<in> mult1 {(x, y). x < y}"
proof -
  have at: "at_broker N' = at_broker N" using step_tree [OF assms] by simp
  let ?h = "hops depth D (at_broker N)"
  have split: "hop_measure depth D N = add_mset (?h p) (image_mset ?h (in_flight N - {#p#}))"
    if "p \<in># in_flight N" for p
    using that by (simp add: hop_measure_def flip: image_mset_add_mset)
  from assms(1) show ?thesis
  proof (cases rule: net_step.cases)
    case (deliver p b ev b' out)
    have "hop_measure depth D N' = image_mset ?h (in_flight N - {#p#}) +
        image_mset ?h (mset (map (emit (pk_dst p)) out))"
      unfolding hop_measure_def at by (simp add: deliver(1) after_delivery_to_def)
    with split [OF deliver(2)] show ?thesis
      using deliver_step [OF tree deliver(2-6)] by (intro mult1I) auto
  next
    case (gone p)
    have "hop_measure depth D N' = image_mset ?h (in_flight N - {#p#}) + {#}"
      unfolding hop_measure_def at by (simp add: gone(1))
    with split [OF gone(2)] show ?thesis by (intro mult1I) auto
  qed
qed

theorem no_endless_run:
  assumes tree: "broker_tree depth D (f 0)" and steps: "\<And>i. net_step E (f i) (f (Suc i))"
  shows False
proof -
  have "broker_tree depth D (f i)" for i
    by (induction i) (use tree step_tree [OF steps] in blast)+
  then have "\<And>i. (hop_measure depth D (f (Suc i)), hop_measure depth D (f i)) \<in> mult1 {(x, y). x < y}"
    by (rule step_measure [OF steps])
  then have "\<exists>g. \<forall>i. (g (Suc i), g i) \<in> mult1 {(x :: nat, y). x < y}"
    by (intro exI [of _ "\<lambda>i. hop_measure depth D (f i)"]) blast
  moreover have "wf (mult1 {(x :: nat, y). x < y})" by (rule wf_mult1 [OF wf])
  ultimately show False by (simp add: wf_iff_no_infinite_down_chain)
qed

section \<open>Without losses\<close>

text \<open>
  A network that loses nothing: a datagram leaves it only by being handed to the broker at its
  destination, or to the client there when it is no broker's address. A run that goes on as long
  as anything can move empties the network.
\<close>

inductive lossless_step :: "env \<Rightarrow> network \<Rightarrow> network \<Rightarrow> bool" for E where
  deliver: "p \<in># in_flight N \<Longrightarrow> brokers N (pk_dst p) = Some b \<Longrightarrow>
    ev_bytes ev = pk_body p \<Longrightarrow> ev_from ev = pk_src p \<Longrightarrow> receive E ev b = Inr (b', out) \<Longrightarrow>
    lossless_step E N (after_delivery_to p b' out N)"
| to_client: "p \<in># in_flight N \<Longrightarrow> brokers N (pk_dst p) = None \<Longrightarrow>
    lossless_step E N (N\<lparr>in_flight := in_flight N - {#p#}\<rparr>)"

inductive_simps lossless_step_iff: "lossless_step E N N'"

lemma lossless_is_step: "lossless_step E N N' \<Longrightarrow> net_step E N N'"
  by (induction rule: lossless_step.induct) (auto intro: net_step.intros)

text \<open>A datagram in a tree of brokers can always be handed over.\<close>

lemma lossless_progress:
  assumes tree: "broker_tree depth D N" and p: "p \<in># in_flight N"
  shows "\<exists>N'. lossless_step E N N'"
proof (cases "brokers N (pk_dst p)")
  case None
  with p show ?thesis by (blast intro: lossless_step.to_client)
next
  case (Some b)
  let ?ev = "\<lparr>ev_bytes = pk_body p, ev_from = pk_src p, ev_t1 = 0, ev_t2 = 0\<rparr>"
  have "broker_wf b" using tree Some by (auto simp: broker_tree_def broker_placed_def)
  then obtain b' out where "receive E ?ev b = Inr (b', out)" using receive_total by blast
  from lossless_step.deliver [OF p Some _ _ this] show ?thesis by auto
qed

definition maximal_run :: "(network \<Rightarrow> network \<Rightarrow> bool) \<Rightarrow> (nat \<Rightarrow> network) \<Rightarrow> bool" where
  "maximal_run R f \<longleftrightarrow> (\<forall>i. R (f i) (f (Suc i)) \<or> \<not> (\<exists>N'. R (f i) N') \<and> f (Suc i) = f i)"

text \<open>There is one from every state.\<close>

lemma maximal_run_exists:
  obtains f where "f 0 = N" and "maximal_run R f"
proof
  let ?step = "\<lambda>N. if \<exists>N'. R N N' then SOME N'. R N N' else N"
  let ?f = "rec_nat N (\<lambda>i. ?step)"
  have "R N (?step N) \<or> \<not> (\<exists>N'. R N N') \<and> ?step N = N" for N
    by (auto intro: someI)
  then show "maximal_run R ?f" by (simp add: maximal_run_def)
qed simp

theorem maximal_run_drains:
  assumes tree: "broker_tree depth D (f 0)" and run: "maximal_run (lossless_step E) f"
  shows "\<exists>i. in_flight (f i) = {#}"
proof (rule ccontr)
  assume never: "\<not> ?thesis"
  have tree_step: "broker_tree depth D (f i) \<Longrightarrow> lossless_step E (f i) (f (Suc i))" for i
    using never run lossless_progress [of depth D "f i" _ E] unfolding maximal_run_def
    by (metis multiset_nonemptyE)
  have "broker_tree depth D (f i)" for i
    by (induction i) (use tree tree_step lossless_is_step step_tree in blast)+
  then have "\<And>i. net_step E (f i) (f (Suc i))" using tree_step lossless_is_step by blast
  with no_endless_run [where f = f] tree show False by blast
qed

end
