(* ===== verification/Cross_Broker.thy ===== *)
theory Cross_Broker
  imports Network
begin

text \<open>
  A publication from one leaf of the tree to a subscriber of another: the subscription climbs
  to the common parent, the publication climbs there too and comes down to the leaf of the
  subscriber. In encrypted mode the service travels as a hash and the comparison is made by
  the last broker.
\<close>

section \<open>One hop\<close>

text \<open>The size of a forwarded publication, and what its receiver does with it.\<close>

lemma wire_string_length: "length (wire_string s) \<le> length s"
  by (simp add: wire_string_def)

lemma length_forward:
  "length (forward_packet msg key lat lon bval flag) \<le> 32 + length key +
     (case bval of None \<Rightarrow> 0 | Some v \<Rightarrow> 4 + length v) + (case get_payload msg of None \<Rightarrow> 0 | Some x \<Rightarrow> length x)"
proof -
  obtain p where p: "forward_packet msg key lat lon bval flag = build p"
    "packet_ok p (forward_fields key lat lon bval flag)" "b_type p = PUBLISH"
    "b_payload p = (case get_payload msg of None \<Rightarrow> [] | Some x \<Rightarrow> x)"
    by (rule forward_built)
  then show ?thesis
    using wire_string_length [of key] wire_string_length [of "the bval"]
    by (auto simp: length_build packet_ok_def holds_def length_enc_fields forward_fields_def
        split: option.split)
qed

lemma receive_forward:
  assumes "ev_bytes ev = forward_packet msg key lat lon bval flag" and "length (ev_bytes ev) \<le> recv_buffer"
  shows "receive E ev b = handle_publish E (ev_t1 ev) (ev_t2 ev) (tlv_message (ev_bytes ev)) (ev_from ev) b"
proof -
  obtain p where p: "ev_bytes ev = build p" "packet_ok p (forward_fields key lat lon bval flag)"
    using forward_built [of msg key lat lon bval flag] assms(1) by metis
  from receive_built [OF p(2) _ p(1)] p(1) assms(2) forward_view(2) [OF refl, of msg key lat lon bval flag]
  show ?thesis by (simp add: handle_message_def flip: assms(1))
qed

lemma receive_subscribe:
  assumes "ev_bytes ev = subscribe_packet cfg key" and "length key \<le> 4064"
  shows "receive E ev b = Inr (subscribe_from_child key (ev_from ev) (b\<lparr>stat_sub_received := stat_sub_received b + 1\<rparr>))"
proof -
  note v = subscribe_view [OF refl, of cfg key] and ok = subscribe_ok [of "cfg_lat cfg" "cfg_lon cfg" key]
  have "length (ev_bytes ev) \<le> recv_buffer"
    using ok assms wire_string_length [of key]
    by (auto simp: subscribe_packet_def length_build packet_ok_def holds_def length_enc_fields recv_buffer_def)
  from receive_built [OF ok _ assms(1) [unfolded subscribe_packet_def]] this assms v
  show ?thesis
    by (simp add: handle_message_def handle_subscribe_def msg_flags_def Let_def
        flip: subscribe_packet_def split: option.splits)
qed

text \<open>A fresh key is announced to the parent by the first subscriber.\<close>

lemma subscribe_announces:
  assumes "subscribe_local E now msg name lat lon 0 client b = (b', out)"
    and "key = sub_key_of E b name (get_blinded_value msg)"
    and "has_parent b" and "key \<notin> set (ot_parent b)"
  shows "announce b key \<in> set out"
  using assms
  by (auto simp: subscribe_local_def Let_def extend_region_def add_subscriber_def
      propagate_subscription_def announce_def split: if_splits)

text \<open>An empty window lets a publication up.\<close>

lemma fresh_window_up:
  assumes "window_at (brake_count_up b) key (get_quadrant lat lon) = []"
    and "1 \<le> sint (brake_limit (config b))"
  shows "fst (brake_allows DirUp now key lat lon b)"
proof -
  have "window_step (brake_limit (config b)) (brake_window_sec (config b)) now [] = (True, [now])"
    using assms(2) by (simp add: window_step_def window_full_def)
  then show ?thesis using assms(1) by (simp add: brake_allows_eq)
qed

lemma forward_up_sends:
  assumes "forward_up now msg key lat lon bval_n flags b = (b', out)"
    and "has_parent b" and "and flags FROM_PARENT = 0"
    and "window_at (brake_count_up b) key (get_quadrant lat lon) = []" and "1 \<le> sint (brake_limit (config b))"
  shows "SendTo (parent_addr b) (forward_packet msg key lat lon bval_n FROM_CHILD) \<in> set out"
proof -
  obtain ok b1 where 1: "brake_allows DirUp now key lat lon b = (ok, b1)" by force
  then have "ok" using fresh_window_up [OF assms(4,5), of now] by simp
  moreover have "parent_addr b1 = parent_addr b"
    using brake_allows_frame [OF 1] by auto
  ultimately show ?thesis
    using assms(1-3) 1 by (cases "brake_scope (config b)") (auto simp: forward_up_def Let_def)
qed


text \<open>What a publication that is not held back sends up, and what it sends down.\<close>

lemma publish_goes_up:
  assumes run: "handle_publish E t_up t_local msg client b = Inr (b', out)"
    and name: "get_service_name msg = Some name"
    and key: "key = pub_key_of E b name (get_blinded_value msg) (msg_flags msg)"
    and up: "has_parent b" "and (msg_flags msg) FROM_PARENT = 0"
    and open': "window_at (brake_count_up b) key (get_quadrant (msg_lat msg) (msg_lon msg)) = []"
      "1 \<le> sint (brake_limit (config b))"
  shows "SendTo (parent_addr b)
    (forward_packet msg key (msg_lat msg) (msg_lon msg) (get_blinded_value msg) FROM_CHILD) \<in> set out"
proof -
  have key': "key = pub_key_of E (b\<lparr>stat_pub_received := stat_pub_received b + 1\<rparr>) name
      (get_blinded_value msg) (msg_flags msg)"
    using key by (simp add: pub_key_of_def)
  show ?thesis
  proof (rule handle_publish_stages [OF run name refl key'])
    fix b2 out2 out3 out4
    assume 2: "forward_up t_up msg key (msg_lat msg) (msg_lon msg) (get_blinded_value msg) (msg_flags msg)
        (cache_pub key \<lparr>cp_lat = msg_lat msg, cp_lon = msg_lon msg, raw_message = data msg\<rparr>
          (b\<lparr>stat_pub_received := stat_pub_received b + 1\<rparr>)) = (b2, out2)"
      and out: "out = out2 @ out3 @ out4"
    from forward_up_sends [OF 2] up open' out show ?thesis by (simp add: cache_pub_def Let_def)
  qed
qed

lemma publish_goes_down:
  assumes wf: "broker_wf b" and run: "handle_publish E t_up t_local msg client b = Inr (b', out)"
    and name: "get_service_name msg = Some name"
    and key: "key = pub_key_of E b name (get_blinded_value msg) (msg_flags msg)"
    and child: "i \<in> set (active_children b key)"
      "child_accepts E (msg_lat msg) (msg_lon msg) (from_id_of (msg_flags msg) client b) b i"
  shows "child_sends msg key (msg_lat msg) (msg_lon msg) (get_blinded_value msg) b i \<in> set out"
  by (rule publish_out [OF wf run name key]) (use child in auto)

section \<open>From leaf to leaf\<close>

text \<open>
  The five datagrams: the subscription at the leaf \<open>A\<close>, its announcement at the parent \<open>R\<close>, the
  publication at the leaf \<open>B\<close>, at \<open>R\<close>, and at \<open>A\<close>.
\<close>

lemma find_child_sends:
  assumes "broker_wf b" and "find_child_by_addr a b = i" and "i \<noteq> []"
  shows "child_sends msg key lat lon bval b i = SendTo a (forward_packet msg key lat lon bval FROM_PARENT)"
proof -
  obtain c where c: "(i, c) \<in> set (children b)" "ch_addr c = a"
    using find_child_cases [of "children b" a] assms(2,3) by (auto simp: find_child_by_addr_def)
  have "um_inv (children b)" using assms(1) by (simp add: broker_wf_def children_wf_def)
  from um_in_set_find [OF this c(1)] c(2) show ?thesis by (simp add: child_sends_def)
qed

lemma subscribe_from_child_active:
  assumes "subscribe_from_child key client b = (b', out)" and "find_child_by_addr client b \<noteq> []"
  shows "find_child_by_addr client b \<in> set (active_children b' key)" and "children b' = children b"
  using assms
  by (auto simp: subscribe_from_child_def Let_def propagate_subscription_def active_children_def
      split: if_splits)

lemma forwarded_view:
  assumes "m = tlv_message (forward_packet msg key lat lon bval flag)"
    and "length key < 2 ^ 16" and "\<And>v. bval = Some v \<Longrightarrow> length v < 2 ^ 16"
    and "get_payload msg = (if payload = [] then None else Some (bytes_of payload))"
  shows "get_service_name m = Some key" and "msg_lat m = lat" and "msg_lon m = lon"
    and "msg_flags m = flag" and "get_blinded_value m = bval"
    and "get_payload m = (if payload = [] then None else Some (bytes_of payload))"
  using forward_view [OF assms(1)] assms(2-4)
  by (cases bval; auto simp: msg_lat_def msg_lon_def)+

lemma forwarded_shown:
  assumes "get_payload msg = (if payload = [] then None else Some (bytes_of payload))"
    and "length key < 2 ^ 16" and "length (forward_packet msg key lat lon bval flag) \<le> recv_buffer"
  shows "client_view (forward_packet msg key lat lon bval flag)
    = Some \<lparr>shown_name = Some key, shown_coords = Some (lat, lon), shown_payload = payload\<rparr>"
proof -
  let ?m = "tlv_message (forward_packet msg key lat lon bval flag)"
  note v = forward_view [OF refl, of msg key lat lon bval flag]
  have "get_payload ?m = (if payload = [] then None else Some (bytes_of payload))"
    using v(7) assms(1) by simp
  moreover from this have "payload \<noteq> [] \<Longrightarrow> 0 < get_payload_size ?m" using payload_size [of ?m] by simp
  ultimately show ?thesis
    using v assms(2,3) by (auto simp: client_view_def Let_def recv_buffer_def)
qed

lemma root_records:
  assumes "broker_wf b" and "ev_bytes ev = subscribe_packet cfg key" and "length key \<le> 4064"
    and "find_child_by_addr (ev_from ev) b \<noteq> []"
  obtains b' out where "receive E ev b = Inr (b', out)" and "broker_wf b'" and "children b' = children b"
    and "find_child_by_addr (ev_from ev) b \<in> set (active_children b' key)"
proof -
  let ?b = "b\<lparr>stat_sub_received := stat_sub_received b + 1\<rparr>"
  have find: "find_child_by_addr c ?b = find_child_by_addr c b" for c by (simp add: find_child_by_addr_def)
  obtain b' out where sub: "subscribe_from_child key (ev_from ev) ?b = (b', out)" by force
  have r: "receive E ev b = Inr (b', out)" using receive_subscribe [OF assms(2,3), of E b] sub by simp
  moreover have "broker_wf b'" using receive_keeps [OF r] assms(1) by (simp add: keeps_def)
  ultimately show ?thesis
    using that subscribe_from_child_active [OF sub] assms(4) by (simp add: find)
qed

text \<open>The first and the last leg: the leaf of the subscriber.\<close>

lemma leaf_subscribes:
  assumes wf: "broker_wf b" and len: "length name < 2 ^ 16" "short_pair bvals" "length (ev_bytes ev) \<le> recv_buffer"
    and ev: "ev_bytes ev = sub_packet name slat slon False bvals"
    and key: "key = sub_key_of E b name (map_option fst bvals)"
    and up: "has_parent b" "key \<notin> set (ot_parent b)"
  obtains b' out where "receive E ev b = Inr (b', out)" and "announce b key \<in> set out" and "broker_wf b'"
    and "same_setup b' b" and "brake_count_local b' = brake_count_local b"
    and "um_find (subscribers b') key = Some (um_at [] (subscribers b) key @
      [new_client (ev_from ev) slat slon (map_option fst bvals) (map_option snd bvals)])"
proof -
  let ?b = "b\<lparr>stat_sub_received := stat_sub_received b + 1\<rparr>" and ?m = "tlv_message (ev_bytes ev)"
  note v = sub_view [OF len(1,2) ev [THEN arg_cong [of _ _ tlv_message]]]
  obtain b' out where loc: "subscribe_local E (ev_t1 ev) ?m name slat slon 0 (ev_from ev) ?b = (b', out)" by force
  have r: "receive E ev b = Inr (b', out)" using receive_sub [OF len(1,2) ev, of E b] len(3) loc by (simp add: ev)
  have key': "key = sub_key_of E ?b name (get_blinded_value ?m)" using key v(4) by (simp add: sub_key_of_def)
  note st = subscribe_no_query [OF loc key']
  have "announce b key \<in> set out" using subscribe_announces [OF loc key'] up by (simp add: announce_def)
  moreover have "broker_wf b'" using receive_keeps [OF r] wf by (simp add: keeps_def)
  ultimately show ?thesis using that [OF r] st v(4,5) by (simp add: same_setup_def)
qed

lemma leaf_delivers:
  assumes wf: "broker_wf b" and fit: "length (ev_bytes ev) \<le> recv_buffer"
    and ev: "ev_bytes ev = forward_packet msg key lat lon bval FROM_PARENT"
    and len: "length key < 2 ^ 16" "\<And>v. bval = Some v \<Longrightarrow> length v < 2 ^ 16"
    and pl: "get_payload msg = (if payload = [] then None else Some (bytes_of payload))"
    and grp: "um_find (subscribers b) key = Some gs" "gs \<noteq> []"
    and fresh: "window_at (brake_count_local b) key (get_quadrant lat lon) = []" "1 \<le> sint (brake_limit (config b))"
    and pass: "passes_match E b (hd gs) bval" and g: "g \<in> set gs" "closer (lib_cos E) lat lon g"
  shows "\<exists>b' out. receive E ev b = Inr (b', out) \<and> SendTo (gc_addr g) (ev_bytes ev) \<in> set out"
proof -
  let ?m = "tlv_message (ev_bytes ev)"
  note v = forwarded_view [OF ev [THEN arg_cong [of _ _ tlv_message]] len pl]
  obtain b' out where r: "receive E ev b = Inr (b', out)" using receive_total [OF wf] by blast
  have run: "handle_publish E (ev_t1 ev) (ev_t2 ev) ?m (ev_from ev) b = Inr (b', out)"
    using receive_forward [OF ev fit, of E b] r by simp
  have key: "key = pub_key_of E b key (get_blinded_value ?m) (msg_flags ?m)" by (simp add: pub_key_of_def v)
  have gs: "um_find (subscribers b) key = Some (hd gs # tl gs)" using grp by simp
  have "\<exists>fwd. out = fwd @ map (\<lambda>g. SendTo (gc_addr g) (data ?m))
     (filter (closer (lib_cos E) (msg_lat ?m) (msg_lon ?m)) (hd gs # tl gs))"
    by (rule publish_reaches_group [OF wf run v(1) key gs]) (use fresh pass in \<open>simp_all add: v\<close>)
  moreover have "hd gs # tl gs = gs" using grp(2) by simp
  ultimately have "SendTo (gc_addr g) (ev_bytes ev) \<in> set out" using g by (auto simp: v simp del: list.collapse)
  with r show ?thesis by blast
qed

theorem leaf_to_leaf:
  assumes wf: "broker_wf A" "broker_wf R" "broker_wf B"
    and up: "has_parent A" "has_parent B" and child: "find_child_by_addr a R \<noteq> []"
    and len: "length name < 2 ^ 16" "length payload < 2 ^ 32" "short_pair bvals" "\<And>v. bval = Some v \<Longrightarrow> length v < 2 ^ 16"
      "length (sub_packet name slat slon False bvals) \<le> recv_buffer"
      "length (pub_packet name lat lon payload bval) \<le> recv_buffer"
      "32 + length key + length payload + (case bval of None \<Rightarrow> 0 | Some v \<Rightarrow> 4 + length v) \<le> recv_buffer"
    and key: "key = sub_key_of E A name (map_option fst bvals)" "key = pub_key_of E B name bval 0"
    and new: "key \<notin> set (ot_parent A)"
    and limit: "1 \<le> sint (brake_limit (config A))" "1 \<le> sint (brake_limit (config B))"
    and fresh: "window_at (brake_count_local A) key (get_quadrant lat lon) = []"
      "window_at (brake_count_up B) key (get_quadrant lat lon) = []"
    and acc: "child_accepts E lat lon (find_child_by_addr b R) R (find_child_by_addr a R)"
    and near: "flt (geo_distance (lib_cos E) (widen lat) (widen lon) (widen slat) (widen slon)) DBL_MAX"
    and pass: "passes_match E A (hd (um_at [] (subscribers A) key @
      [new_client (ev_from e1) slat slon (map_option fst bvals) (map_option snd bvals)])) bval"
    and e1: "ev_bytes e1 = sub_packet name slat slon False bvals"
    and e2: "ev_bytes e2 = subscribe_packet (config A) key" "ev_from e2 = a"
    and e3: "ev_bytes e3 = pub_packet name lat lon payload bval"
    and e4: "ev_bytes e4 = forward_packet (tlv_message (ev_bytes e3)) key lat lon bval FROM_CHILD" "ev_from e4 = b"
    and e5: "ev_bytes e5 = forward_packet (tlv_message (ev_bytes e4)) key lat lon bval FROM_PARENT"
  shows "\<exists>A1 out1 R1 out2 B1 out3 R2 out4 A2 out5.
    receive E e1 A = Inr (A1, out1) \<and> SendTo (parent_addr A) (ev_bytes e2) \<in> set out1 \<and>
    receive E e2 R = Inr (R1, out2) \<and>
    receive E e3 B = Inr (B1, out3) \<and> SendTo (parent_addr B) (ev_bytes e4) \<in> set out3 \<and>
    receive E e4 R1 = Inr (R2, out4) \<and> SendTo a (ev_bytes e5) \<in> set out4 \<and>
    receive E e5 A1 = Inr (A2, out5) \<and> SendTo (ev_from e1) (ev_bytes e5) \<in> set out5 \<and>
    client_view (ev_bytes e5) =
      Some \<lparr>shown_name = Some key, shown_coords = Some (lat, lon), shown_payload = payload\<rparr>"
proof -
  let ?i = "find_child_by_addr a R" and ?m3 = "tlv_message (ev_bytes e3)" and ?m4 = "tlv_message (ev_bytes e4)"
  let ?new = "new_client (ev_from e1) slat slon (map_option fst bvals) (map_option snd bvals)"
  let ?gs = "um_at [] (subscribers A) key @ [?new]"
  have klen: "length key < 2 ^ 16" "length key \<le> 4064" using len(7) by (simp_all add: recv_buffer_def)
  note v3 = pub_view [OF len(1,2,4) e3 [THEN arg_cong [of _ _ tlv_message]]]
  note v4 = forwarded_view [OF e4(1) [THEN arg_cong [of _ _ tlv_message]] klen(1) len(4) v3(5)]
  have at3: "msg_lat ?m3 = lat" "msg_lon ?m3 = lon" "msg_flags ?m3 = 0"
    using v3(2,3) by (simp_all add: msg_lat_def msg_lon_def msg_flags_def)
  have fit: "length (ev_bytes e4) \<le> recv_buffer" "length (ev_bytes e5) \<le> recv_buffer"
    using length_forward [of ?m3 key lat lon bval FROM_CHILD] length_forward [of ?m4 key lat lon bval FROM_PARENT]
      v3(5) v4(6) len(7) by (auto simp: e4(1) e5 split: if_splits)
  obtain A1 out1 where 1: "receive E e1 A = Inr (A1, out1)" "announce A key \<in> set out1" "broker_wf A1"
    "same_setup A1 A" "brake_count_local A1 = brake_count_local A" "um_find (subscribers A1) key = Some ?gs"
    using leaf_subscribes [OF wf(1) len(1,3) _ e1 key(1) up(1) new] len(5) e1 by metis
  obtain R1 out2 where 2: "receive E e2 R = Inr (R1, out2)" "broker_wf R1"
    "?i \<in> set (active_children R1 key)" "children R1 = children R"
    using root_records [OF wf(2) e2(1) klen(2), of E] child e2(2) by metis
  obtain B1 out3 where r3: "receive E e3 B = Inr (B1, out3)" using receive_total [OF wf(3)] by blast
  have 3: "handle_publish E (ev_t1 e3) (ev_t2 e3) ?m3 (ev_from e3) B = Inr (B1, out3)"
    using receive_pub [OF len(1,2,4) e3, of E B] len(6) r3 by (simp add: e3)
  have "key = pub_key_of E B name (get_blinded_value ?m3) (msg_flags ?m3)" using key(2) v3(4) by (simp add: at3)
  from publish_goes_up [OF 3 v3(1) this up(2)] have s3: "SendTo (parent_addr B) (ev_bytes e4) \<in> set out3"
    using fresh(2) limit(2) v3(4) by (simp add: at3 e4(1))
  obtain R2 out4 where r4: "receive E e4 R1 = Inr (R2, out4)" using receive_total [OF 2(2)] by blast
  have 4: "handle_publish E (ev_t1 e4) (ev_t2 e4) ?m4 (ev_from e4) R1 = Inr (R2, out4)"
    using receive_forward [OF e4(1) fit(1), of E R1] r4 by simp
  have key4: "key = pub_key_of E R1 key (get_blinded_value ?m4) (msg_flags ?m4)" by (simp add: pub_key_of_def v4)
  have "from_id_of (msg_flags ?m4) (ev_from e4) R1 = find_child_by_addr b R"
    by (simp add: from_id_of_def v4 e4(2) find_child_by_addr_def 2(4))
  with publish_goes_down [OF 2(2) 4 v4(1) key4 2(3)]
  have "child_sends ?m4 key lat lon bval R1 ?i \<in> set out4"
    using acc child_accepts_cong [OF 2(4)] by (simp add: v4)
  then have s4: "SendTo a (ev_bytes e5) \<in> set out4"
    using find_child_sends [OF 2(2) _ child] 2(4) by (simp add: find_child_by_addr_def e5)
  have "closer (lib_cos E) lat lon ?new" using near by (simp add: closer_def)
  from leaf_delivers [where E = E, OF 1(3) fit(2) e5 klen(1) len(4) v4(6) 1(6) _ _ _ _ _ this]
  obtain A2 out5 where "receive E e5 A1 = Inr (A2, out5)" "SendTo (ev_from e1) (ev_bytes e5) \<in> set out5"
    using fresh(1) limit(1) pass 1(4,5) passes_match_setup [OF 1(4)] by (auto simp: same_setup_def)
  moreover have "client_view (ev_bytes e5) =
      Some \<lparr>shown_name = Some key, shown_coords = Some (lat, lon), shown_payload = payload\<rparr>"
    using forwarded_shown [OF v4(6) klen(1)] fit(2) by (simp add: e5)
  moreover have "SendTo (parent_addr A) (ev_bytes e2) \<in> set out1" using 1(2) by (simp add: announce_def e2(1))
  ultimately show ?thesis using 1(1) 2(1) r3 s3 r4 s4 by blast
qed

section \<open>The two modes\<close>

theorem plain_leaf_to_leaf:
  assumes wf: "broker_wf A" "broker_wf R" "broker_wf B"
    and up: "has_parent A" "has_parent B" and child: "find_child_by_addr a R \<noteq> []"
    and len: "length name + length payload \<le> 4000" and new: "name \<notin> set (ot_parent A)"
    and limit: "1 \<le> sint (brake_limit (config A))" "1 \<le> sint (brake_limit (config B))"
    and fresh: "window_at (brake_count_local A) name (get_quadrant lat lon) = []"
      "window_at (brake_count_up B) name (get_quadrant lat lon) = []"
    and acc: "child_accepts E lat lon (find_child_by_addr b R) R (find_child_by_addr a R)"
    and near: "flt (geo_distance (lib_cos E) (widen lat) (widen lon) (widen slat) (widen slon)) DBL_MAX"
    and e1: "ev_bytes e1 = sub_packet name slat slon False None"
    and e2: "ev_bytes e2 = subscribe_packet (config A) name" "ev_from e2 = a"
    and e3: "ev_bytes e3 = pub_packet name lat lon payload None"
    and e4: "ev_bytes e4 = forward_packet (tlv_message (ev_bytes e3)) name lat lon None FROM_CHILD" "ev_from e4 = b"
    and e5: "ev_bytes e5 = forward_packet (tlv_message (ev_bytes e4)) name lat lon None FROM_PARENT"
  shows "\<exists>A1 out1 R1 out2 B1 out3 R2 out4 A2 out5.
    receive E e1 A = Inr (A1, out1) \<and> SendTo (parent_addr A) (ev_bytes e2) \<in> set out1 \<and>
    receive E e2 R = Inr (R1, out2) \<and>
    receive E e3 B = Inr (B1, out3) \<and> SendTo (parent_addr B) (ev_bytes e4) \<in> set out3 \<and>
    receive E e4 R1 = Inr (R2, out4) \<and> SendTo a (ev_bytes e5) \<in> set out4 \<and>
    receive E e5 A1 = Inr (A2, out5) \<and> SendTo (ev_from e1) (ev_bytes e5) \<in> set out5 \<and>
    client_view (ev_bytes e5) =
      Some \<lparr>shown_name = Some name, shown_coords = Some (lat, lon), shown_payload = payload\<rparr>"
  by (rule leaf_to_leaf [OF wf up child _ _ _ _ _ _ _ _ _ new limit fresh acc near _ e1 e2 e3 e4 e5])
    (use len plain_packets_fit [OF len] in
      \<open>simp_all add: short_pair_def sub_key_of_def pub_key_of_def passes_match_def recv_buffer_def
        split: bool.split\<close>)

theorem encrypted_leaf_to_leaf:
  assumes wf: "broker_wf A" "broker_wf R" "broker_wf B"
    and up: "has_parent A" "has_parent B" and child: "find_child_by_addr a R \<noteq> []"
    and lib: "gmp_spec (lib_gmp E)" "rng_spec G"
    and key: "same_key A h" "honest_key h" "heps_n h < 2 ^ 2048" "he_enabled B"
    and sub: "heps_blind_subscription (lib_hash E) (lib_gmp E) G h name t = Some (Inr ((m1, m2), t'))"
    and cop: "draws_coprime G (heps_n h) t"
    and pub: "heps_blind_notification (lib_hash E) (lib_gmp E) G h name s = Inr (bval, s')"
    and len: "length name + length payload \<le> 2000"
    and hash: "key = hash_service_name E name"
    and new: "um_find (subscribers A) key = None" "key \<notin> set (ot_parent A)"
    and limit: "1 \<le> sint (brake_limit (config A))" "1 \<le> sint (brake_limit (config B))"
    and fresh: "window_at (brake_count_local A) key (get_quadrant lat lon) = []"
      "window_at (brake_count_up B) key (get_quadrant lat lon) = []"
    and acc: "child_accepts E lat lon (find_child_by_addr b R) R (find_child_by_addr a R)"
    and near: "flt (geo_distance (lib_cos E) (widen lat) (widen lon) (widen slat) (widen slon)) DBL_MAX"
    and e1: "ev_bytes e1 = sub_packet name slat slon False (Some (m1, m2))"
    and e2: "ev_bytes e2 = subscribe_packet (config A) key" "ev_from e2 = a"
    and e3: "ev_bytes e3 = pub_packet name lat lon payload (Some bval)"
    and e4: "ev_bytes e4 = forward_packet (tlv_message (ev_bytes e3)) key lat lon (Some bval) FROM_CHILD" "ev_from e4 = b"
    and e5: "ev_bytes e5 = forward_packet (tlv_message (ev_bytes e4)) key lat lon (Some bval) FROM_PARENT"
  shows "\<exists>A1 out1 R1 out2 B1 out3 R2 out4 A2 out5.
    receive E e1 A = Inr (A1, out1) \<and> SendTo (parent_addr A) (ev_bytes e2) \<in> set out1 \<and>
    receive E e2 R = Inr (R1, out2) \<and>
    receive E e3 B = Inr (B1, out3) \<and> SendTo (parent_addr B) (ev_bytes e4) \<in> set out3 \<and>
    receive E e4 R1 = Inr (R2, out4) \<and> SendTo a (ev_bytes e5) \<in> set out4 \<and>
    receive E e5 A1 = Inr (A2, out5) \<and> SendTo (ev_from e1) (ev_bytes e5) \<in> set out5 \<and>
    client_view (ev_bytes e5) =
      Some \<lparr>shown_name = Some key, shown_coords = Some (lat, lon), shown_payload = payload\<rparr>"
proof -
  have "length name \<le> 2000" "length name + length payload \<le> 3000" using len by simp_all
  note fit = blinded_packets_fit [OF lib key(2,3) sub pub this]
  have "passes_match E A (new_client (ev_from e1) slat slon (Some m1) (Some m2)) (Some bval)"
    using encrypted_passes [OF lib key(1,2) sub cop _ _ pub] by (simp add: new_client_def Let_def)
  then show ?thesis
    by (intro leaf_to_leaf [OF wf up child _ _ _ _ _ _ _ _ _ new(2) limit fresh acc near _ e1 e2 e3 e4 e5])
      (use len fit key(1,4) new(1) hash_length [of E name] in
        \<open>simp_all add: short_pair_def um_at_def sub_key_of_def pub_key_of_def same_key_def recv_buffer_def hash\<close>)
qed

end
