(* ===== verification/Deployment.thy ===== *)
theory Deployment
  imports Cross_Broker
begin

text \<open>
  A deployment from its start: the key a root generates and writes is the one its clients load,
  and it is a key for which the blinded comparison works; the comparison the broker writes out
  inline is the library's own \<^verbatim>\<open>Paillier::match\<close>.
\<close>

section \<open>The key of a started root\<close>

lemma generated_scale:
  assumes "2 ^ 2047 \<le> (n :: int)" and "2 \<le> r" and "r < 2 ^ 992"
  shows "scale_ok r n"
proof -
  have "r * 2 ^ 64 \<le> 2 ^ 992 * 2 ^ 64" using assms(3) by (intro mult_right_mono) simp_all
  also have "(2 :: int) ^ 992 * 2 ^ 64 \<le> 2 ^ 2046" by (simp flip: power_add)
  also have "(2 :: int) ^ 2046 = 2 ^ 2047 div 2" by simp
  also have "\<dots> \<le> n div 2" using assms(1) by (intro zdiv_mono1) simp_all
  finally show ?thesis using assms(2) by (simp add: scale_ok_def)
qed

text \<open>The fields a key file carries determine whether a key is well-formed.\<close>

lemma key_params_cong:
  "key_params p q (k\<lparr>kp := x, kq := y\<rparr>) = key_params p q k"
  by (simp add: key_params_def)

lemma root_key_serves:
  assumes lib: "gmp_spec (lib_gmp E)" "rng_spec R" and root: "cfg_parent_addr cfg = []"
    and os: "os_unlink Os key_file" "os_unlink Os full_key_file" "os_open_read Os full_key_file"
    and run: "broker_new E Os R junk cfg fs s = Inr (b, fs', s', logs)"
  obtains k h where "key_gen (lib_gmp E) R 2048 s = Inr (k, s')"
    and "load_state (lib_gmp E) (read_file Os full_key_file fs') heps_default = (True, h)"
    and "same_key b h" and "heps_n h < 2 ^ 2048"
    and "kp k = kq k \<or> kr_m k = 1 \<or> honest_key h"
proof -
  obtain k where k: "key_gen (lib_gmp E) R 2048 s = Inr (k, s')"
    and b: "he_n b = kn k" "he_mu b = kmu k" "he_enabled b"
    and f: "fs' full_key_file = Some \<lparr>f_data = write_lines (full_key_lines (lib_gmp E) k),
           f_mode = and 0x180 (not (os_umask Os))\<rparr>"
    by (rule root_files [OF root os(1,2) run])
  have gen: "2 ^ 2047 \<le> kn k \<and> kn k < 2 ^ 2048 \<and> 1 \<le> kr_m k \<and> kr_m k < 2 ^ 992 \<and>
      kn_sq k = kn k * kn k \<and> kg k = kn k + 1 \<and> 0 \<le> klambda k \<and> 0 \<le> kmu k \<and> 0 \<le> ke_m k \<and> 0 \<le> kd_m k \<and>
      (kp k \<noteq> kq k \<longrightarrow> key_params (kp k) (kq k) k)"
    using crypto_lib.key_gen_cases [OF crypto_lib.intro [OF lib], of 1024 s] k by auto
  have "(0 :: int) < 2 ^ 2047" by (rule zero_less_power) simp
  with gen have n: "0 < kn k" by (meson less_le_trans)
  then have w: "wire_key k" using gen by (simp add: wire_key_def)
  let ?h = "\<lparr>heps_paillier = k\<lparr>kp := kp (heps_paillier heps_default), kq := kq (heps_paillier heps_default)\<rparr>,
            heps_n = kn k, heps_mu = kmu k\<rparr>"
  have load: "load_state (lib_gmp E) (read_file Os full_key_file fs') heps_default = (True, ?h)"
    using gmp_spec.load_full_key [OF lib(1) w, of heps_default] gen os(3) f by (simp add: read_file_def)
  have "he_n_sq b = he_n b * he_n b"
    using broker_new_wf(1) [OF lib run] b(3) by (simp add: broker_wf_def crypto_wf_def)
  then have same: "same_key b ?h" using b by (simp add: same_key_def)
  have honest: "honest_key ?h" if "kp k \<noteq> kq k" "kr_m k \<noteq> 1"
  proof -
    have "key_params (kp k) (kq k) (heps_paillier ?h)" using gen that(1) by (simp add: key_params_cong)
    moreover have "scale_ok (kr_m k) (kn k)" using gen that(2) by (intro generated_scale) simp_all
    ultimately show ?thesis unfolding honest_key_def by auto
  qed
  show ?thesis using that [OF k load same] honest gen by auto
qed

section \<open>What a started program says\<close>

text \<open>The constructor leaves nothing cached and nothing announced, so a whole run speaks for itself.\<close>

lemma started_speaks:
  assumes lib: "gmp_spec (lib_gmp E)" "rng_spec R"
    and main: "main_start E Os R junk argv fs s = Inr (b, fs', s', lines)"
    and run: "loop_run E (start_node t b) out nd"
  shows "\<exists>ks. announcements out = map (announce b) ks \<and> distinct ks \<and> rev ks = ot_parent (nd_broker nd)"
    and "\<forall>act \<in> set out. broker_speaks (out_data act)"
proof -
  obtain cfg where new: "broker_new E Os R junk cfg fs s = Inr (b, fs', s', lines)"
    using main by (auto simp: main_start_def split: if_splits sum.splits)
  note b = broker_new_wf [OF lib new]
  have "keeps b (nd_broker nd)" using loop_run_keeps [OF run] by (simp add: start_node_def)
  then have "broker_wf (nd_broker nd)" using b(1) by (simp add: keeps_def)
  then have d: "distinct (ot_parent (nd_broker nd))" by (simp add: broker_wf_def sets_wf_def)
  have "cache_typed b" using b(7) by (simp add: cache_typed_def cached_raws_def um_find_def)
  then have "announced b out (nd_broker nd)" "\<forall>act \<in> set out. broker_speaks (out_data act)"
    using loop_run_speaks [OF run] b(1) by (simp_all add: speaks_from_def start_node_def)
  then show "\<exists>ks. announcements out = map (announce b) ks \<and> distinct ks \<and> rev ks = ot_parent (nd_broker nd)"
    and "\<forall>act \<in> set out. broker_speaks (out_data act)"
    using b(8) d by (auto simp: announced_def)
qed

section \<open>The inlined comparison\<close>

context gmp_spec
begin

lemma negated_agrees:
  assumes key: "key_params p q (heps_paillier h)" and n: "heps_n h = kn (heps_paillier h)"
    and x: "0 \<le> x" and r: "0 \<le> r" and w: "0 \<le> w" "w \<le> heps_n h"
    and neg: "blind_negated G R h w s = Some (Inr (b, s'))" and rng: "rng_spec R"
    and cop: "\<And>c. pick_nonzero R (heps_n h) s = Some (c, s') \<Longrightarrow> coprime c (heps_n h)"
  shows "0 \<le> b" and "paillier_match G (heps_paillier h) (blind_notification_with G (heps_paillier h) x r) b
    = Inr (match_diff (kn (heps_paillier h)) (kmu (heps_paillier h)) (kn_sq (heps_paillier h))
        (blind_notification_with G (heps_paillier h) x r) b)"
proof -
  let ?k = "heps_paillier h"
  note pos = key_params_pos [OF key]
  obtain c where c: "pick_nonzero R (heps_n h) s = Some (c, s')"
    and b: "b = blind_subscription_with G ?k (encrypt_with G ?k ((heps_n h - w) mod heps_n h) c)"
    using negated_value [OF key n w neg] by blast
  have "0 < heps_n h" using pos n by simp
  then have m: "0 \<le> (heps_n h - w) mod heps_n h" by (rule pos_mod_sign)
  have c2: "coprime c (kn ?k)" "0 \<le> c"
    using cop [OF c] pick_nonzero_range [OF rng \<open>0 < heps_n h\<close> c] n by simp_all
  note val = paillier_match_value [OF key x r m c2]
  show "0 \<le> b" using pos m by (simp add: b blind_subscription_mod [OF key m c2] del: minus_mod_self1)
  show "paillier_match G ?k (blind_notification_with G ?k x r) b
    = Inr (match_diff (kn ?k) (kmu ?k) (kn_sq ?k) (blind_notification_with G ?k x r) b)"
    using match_diff_eq [OF val] val by (simp add: b)
qed

theorem heps_match_agrees:
  assumes key: "key_params p q (heps_paillier h)" and n: "heps_n h = kn (heps_paillier h)"
    and rm: "2 \<le> kr_m (heps_paillier h)" and big: "2 ^ 64 \<le> heps_n h" and rng: "rng_spec R"
    and notif: "heps_blind_notification H G R h name s = Inr (bval_n, s')"
    and sub: "heps_blind_subscription H G R h name' t = Some (Inr ((bval_m1, bval_m2), t'))"
    and cop: "draws_coprime R (heps_n h) t" and m: "m \<in> {bval_m1, bval_m2}"
  shows "paillier_match G (heps_paillier h) (hex_to_mpz G bval_n) (hex_to_mpz G m)
    = Inr (match_diff (heps_n h) (kmu (heps_paillier h)) (heps_n h * heps_n h)
        (hex_to_mpz G bval_n) (hex_to_mpz G m))"
proof -
  let ?k = "heps_paillier h" and ?v = "uint (H name')"
  note pos = key_params_pos [OF key]
  have hash: "0 \<le> uint (H z)" "uint (H z) < 2 ^ 64" for z
    using unsigned_less [of "H z"] by simp_all
  have v: "?v \<le> heps_n h" "0 \<le> ?v + 1" "?v + 1 \<le> heps_n h" using big hash [of name'] by simp_all
  have sq: "kn_sq ?k = heps_n h * heps_n h" using key_params_sq [OF key] n by simp
  obtain r where r: "0 < r" and bn: "bval_n = mpz_to_hex G (blind_notification_with G ?k (uint (H name)) r)"
    using notification_value [OF key rng rm notif] by blast
  have "0 \<le> blind_notification_with G ?k (uint (H name)) r"
    using pos hash r by (simp add: blind_notification_mod [OF key])
  then have hn: "hex_to_mpz G bval_n = blind_notification_with G ?k (uint (H name)) r"
    by (simp add: bn hex_round_trip)
  from sub obtain b1 t1 b2 where b1: "blind_negated G R h ?v t = Some (Inr (b1, t1))"
    and b2: "blind_negated G R h (?v + 1) t1 = Some (Inr (b2, t'))"
    and ms: "bval_m1 = mpz_to_hex G b1" "bval_m2 = mpz_to_hex G b2"
    by (auto simp: heps_blind_subscription_def string_to_mpz_def Let_def
        split: option.splits sum.splits)
  obtain r1 where r1: "pick_nonzero R (heps_n h) t = Some (r1, t1)"
    using negated_value [OF key n hash(1) v(1) b1] by blast
  have c1: "coprime c (heps_n h)" if "pick_nonzero R (heps_n h) t = Some (c, t1)" for c
    using that cop by (auto simp: draws_coprime_def split: option.splits)
  have c2: "coprime c (heps_n h)" if "pick_nonzero R (heps_n h) t1 = Some (c, t')" for c
    using that r1 cop by (simp add: draws_coprime_def)
  have r0: "0 \<le> r" using r by simp
  note a1 = negated_agrees [OF key n hash(1) r0 hash(1) v(1) b1 rng c1]
  note a2 = negated_agrees [OF key n hash(1) r0 v(2,3) b2 rng c2]
  from m show ?thesis
    using a1 a2 by (auto simp: hn ms hex_round_trip sq n)
qed

end

end
