(* ===== verification/Routing.thy ===== *)
theory Routing
  imports Cross_Broker
begin

text \<open>
  A publication in a tree of brokers of any depth, with datagrams handed over in any order. It
  climbs from broker to parent and turns down towards the children that it comes closer to;
  copies of it run through the rest of the tree at the same time. When nothing is lost, it
  arrives at a subscriber whose path is open, whatever the order.
\<close>

section \<open>Trees\<close>

text \<open>
  A tree is given by the father of each node, at smaller depth. A path goes from neighbour to
  neighbour and visits no node twice; it climbs, and once it has turned down it never climbs again.
\<close>

definition rooted :: "('a \<Rightarrow> 'a option) \<Rightarrow> ('a \<Rightarrow> nat) \<Rightarrow> bool" where
  "rooted F depth \<longleftrightarrow> (\<forall>c a. F c = Some a \<longrightarrow> depth a < depth c)"

inductive_set below :: "('a \<Rightarrow> 'a option) \<Rightarrow> 'a \<Rightarrow> 'a set" for F a where
  self: "a \<in> below F a"
| son: "c \<in> below F a \<Longrightarrow> F d = Some c \<Longrightarrow> d \<in> below F a"

fun tree_path :: "('a \<Rightarrow> 'a option) \<Rightarrow> 'a list \<Rightarrow> bool" where
  "tree_path F (x # n # xs) \<longleftrightarrow>
     (F x = Some n \<or> F n = Some x) \<and> x \<notin> set (n # xs) \<and> tree_path F (n # xs)"
| "tree_path F _ \<longleftrightarrow> True"

lemma below_trans: "c \<in> below F b \<Longrightarrow> b \<in> below F a \<Longrightarrow> c \<in> below F a"
proof (induction rule: below.induct)
  case (son c d)
  show ?case by (rule below.son [where F = F, OF son.IH [OF son.prems] son.hyps(2)])
qed

lemma below_depth: "rooted F depth \<Longrightarrow> d \<in> below F a \<Longrightarrow> depth a \<le> depth d"
  by (rotate_tac, induction rule: below.induct) (fastforce simp: rooted_def)+

lemma son_below: "F c = Some a \<Longrightarrow> below F c \<subseteq> below F a"
  using below_trans [of _ F c a] below.son [where F = F, OF below.self] by blast

lemma father_not_below: "rooted F depth \<Longrightarrow> F c = Some a \<Longrightarrow> a \<notin> below F c"
  using below_depth [of F depth a c] by (fastforce simp: rooted_def)

text \<open>Of two nodes above a third one is above the other; two sons of one node have nothing in common.\<close>

lemma below_linear: "d \<in> below F a \<Longrightarrow> d \<in> below F b \<Longrightarrow> a \<in> below F b \<or> b \<in> below F a"
proof (induction rule: below.induct)
  case (son c d)
  from son.prems show ?case
  proof (cases rule: below.cases)
    case self
    then show ?thesis using below.son [where F = F, OF son.hyps] by simp
  next
    case (son c')
    then show ?thesis using son.IH \<open>F d = Some c\<close> by simp
  qed
qed simp

lemma sons_disjoint:
  assumes tree: "rooted F depth" and "F k = Some a" and "F k' = Some a" and "k \<noteq> k'"
  shows "below F k \<inter> below F k' = {}"
proof -
  have apart: "x \<notin> below F y" if "F x = Some a" "F y = Some a" "x \<noteq> y" for x y
  proof
    assume "x \<in> below F y"
    then have "a \<in> below F y" using that by (cases rule: below.cases) auto
    with father_not_below [OF tree that(2)] show False by blast
  qed
  then show ?thesis using below_linear [of _ F k k'] assms(2-4) by blast
qed

lemma path_down:
  "F n = Some x \<Longrightarrow> tree_path F (n # xs) \<Longrightarrow> x \<notin> set xs \<Longrightarrow> set (n # xs) \<subseteq> below F n"
proof (induction xs arbitrary: n x)
  case (Cons m ys)
  then have "F m = Some n" "tree_path F (m # ys)" "n \<notin> set ys" by auto
  from Cons.IH [OF this] son_below [where F = F, OF this(1)] show ?case by (auto intro: below.self)
qed (simp add: below.self)

lemma path_up:
  assumes tree: "rooted F depth"
  shows "F x = Some n \<Longrightarrow> tree_path F (n # xs) \<Longrightarrow> x \<notin> set xs \<Longrightarrow> set (n # xs) \<inter> below F x = {}"
proof (induction xs arbitrary: n x)
  case Nil
  then show ?case using father_not_below [OF tree] by simp
next
  case (Cons m ys)
  have n: "n \<notin> below F x" using father_not_below [OF tree Cons.prems(1)] .
  have rest: "tree_path F (m # ys)" "n \<notin> set ys" "m \<noteq> x" using Cons.prems by auto
  have "set (m # ys) \<inter> below F x = {}"
  proof (cases "F n = Some m")
    case True
    from Cons.IH [OF this rest(1,2)] son_below [where F = F, OF Cons.prems(1)] show ?thesis by blast
  next
    case False
    then have "F m = Some n" using Cons.prems by auto
    from path_down [OF this rest(1,2)] sons_disjoint [OF tree this Cons.prems(1) rest(3)] show ?thesis by blast
  qed
  with n show ?case by simp
qed

text \<open>What is left of a path, seen from the node that hands on.\<close>

lemma path_step:
  assumes "rooted F depth" and "tree_path F (x # n # xs)"
  shows "(F x = Some n \<and> set (n # xs) \<inter> below F x = {}) \<or> (F n = Some x \<and> set (n # xs) \<subseteq> below F n)"
  using assms path_up [of F depth x n xs] path_down [of F n x xs] by auto

lemma path_stays_down: "F n = Some x \<Longrightarrow> tree_path F (x # n # m # xs) \<Longrightarrow> F m = Some n"
  by auto

section \<open>The network as a tree\<close>

definition father :: "network \<Rightarrow> sockaddr \<Rightarrow> sockaddr option" where
  "father N a = (case brokers N a of
      Some b \<Rightarrow> if has_parent b \<and> at_broker N (parent_addr b) then Some (parent_addr b) else None
    | None \<Rightarrow> None)"

text \<open>
  The tables of parents and children agree, as they do once every broker has said HELLO: a child
  that is a broker has this parent, the parent finds each of them, and no address stands twice.
\<close>

definition tidy :: "network \<Rightarrow> bool" where
  "tidy N \<longleftrightarrow> (\<forall>a b. brokers N a = Some b \<longrightarrow> distinct (map snd (child_table b)) \<and>
     (\<forall>(i, c) \<in> set (child_table b). at_broker N c \<longrightarrow> father N c = Some a) \<and>
     (\<forall>c. father N c = Some a \<longrightarrow> find_child_by_addr c b \<noteq> []))"

lemma tidy_facts:
  assumes "tidy N" and "brokers N a = Some b"
  shows "distinct (map snd (child_table b))"
    and "(i, c) \<in> set (child_table b) \<Longrightarrow> at_broker N c \<Longrightarrow> father N c = Some a"
    and "father N c = Some a \<Longrightarrow> find_child_by_addr c b \<noteq> []"
  using assms unfolding tidy_def by fastforce+

definition same_neighbours :: "network \<Rightarrow> network \<Rightarrow> bool" where
  "same_neighbours N N' \<longleftrightarrow> (\<forall>a. map_option neighbours (brokers N a) = map_option neighbours (brokers N' a))"

lemma same_neighbours_at:
  assumes "same_neighbours N N'"
  shows "at_broker N = at_broker N'" and "father N = father N'"
proof -
  have eq: "map_option neighbours (brokers N a) = map_option neighbours (brokers N' a)" for a
    using assms by (simp add: same_neighbours_def)
  show at: "at_broker N = at_broker N'"
    unfolding at_broker_def fun_eq_iff by (metis eq option.map_disc_iff)
  show "father N = father N'"
  proof
    fix a
    from eq [of a] show "father N a = father N' a"
      by (cases "brokers N a"; cases "brokers N' a") (simp_all add: father_def at neighbours_def)
  qed
qed

lemma same_neighbours_tidy:
  assumes "same_neighbours N N'" and "tidy N'"
  shows "tidy N"
  unfolding tidy_def
proof (intro allI impI)
  fix a b assume b: "brokers N a = Some b"
  then obtain b' where b': "brokers N' a = Some b'" "neighbours b' = neighbours b"
    using assms(1) unfolding same_neighbours_def by (metis map_option_eq_Some)
  then have table: "child_table b' = child_table b" by (simp add: neighbours_def)
  then show "distinct (map snd (child_table b)) \<and>
     (\<forall>(i, c) \<in> set (child_table b). at_broker N c \<longrightarrow> father N c = Some a) \<and>
     (\<forall>c. father N c = Some a \<longrightarrow> find_child_by_addr c b \<noteq> [])"
    using assms(2) b'(1) find_child_table [OF table]
    unfolding tidy_def same_neighbours_at [OF assms(1)] by (metis (no_types, lifting))
qed

lemma tree_rooted: "broker_tree depth D N \<Longrightarrow> rooted (father N) depth"
  by (auto simp: rooted_def father_def broker_tree_def broker_placed_def split: option.splits if_splits)

lemma find_child_in_table:
  "find_child_by_addr a b \<noteq> [] \<Longrightarrow> (find_child_by_addr a b, a) \<in> set (child_table b)"
  using find_child_cases [of "children b" a] by (force simp: find_child_by_addr_def child_table_def)

lemma accepts_in_table:
  "child_accepts E lat lon from_id b i \<Longrightarrow>
    (i, ch_addr (the (um_find (children b) i))) \<in> set (child_table b) \<and> i \<noteq> from_id"
  by (force simp: child_accepts_def child_table_def split: option.splits dest: um_find_in_set)

text \<open>One action of a broker that handles a publication.\<close>

lemma sent_cases:
  assumes tree: "broker_tree depth D N" and tidy: "tidy N" and b: "brokers N x = Some b"
    and run: "handle_publish E t_up t_local msg src b = Inr (b', out)" and act: "act \<in> set out"
  obtains (away) "\<not> at_broker N (out_dest act)"
  | (up) "father N x = Some (out_dest act)" and "is_up (out_data act)"
      and "msg_type (tlv_message (out_data act)) = PUBLISH" and "and (msg_flags msg) FROM_PARENT = 0"
  | (down) i where "father N (out_dest act) = Some x" and "is_down (out_data act)"
      and "(i, out_dest act) \<in> set (child_table b)" and "i \<noteq> from_id_of (msg_flags msg) src b"
proof -
  have placed: "broker_placed depth (at_broker N) x b" using tree b by (auto simp: broker_tree_def)
  then have wf: "broker_wf b" by (simp add: broker_placed_def)
  obtain name where name: "get_service_name msg = Some name"
    using run act by (cases "get_service_name msg") (auto simp: handle_publish_def)
  let ?key = "pub_key_of E b name (get_blinded_value msg) (msg_flags msg)"
  show thesis
  proof (rule publish_out [OF wf run name refl])
    fix ups locals
    assume out: "out = ups @ map (child_sends msg ?key (msg_lat msg) (msg_lon msg) (get_blinded_value msg) b)
        (filter (child_accepts E (msg_lat msg) (msg_lon msg) (from_id_of (msg_flags msg) src b) b)
          (active_children b ?key)) @ locals"
      and ups: "ups = [] \<or> has_parent b \<and> and (msg_flags msg) FROM_PARENT = 0 \<and> ups = [SendTo (parent_addr b)
        (forward_packet msg ?key (msg_lat msg) (msg_lon msg) (get_blinded_value msg) FROM_CHILD)]"
      and loc: "\<forall>act \<in> set locals. out_dest act \<in> client_addrs b \<and> out_data act = data msg"
    from act out consider "act \<in> set ups" | (d) i where
        "child_accepts E (msg_lat msg) (msg_lon msg) (from_id_of (msg_flags msg) src b) b i"
        "act = child_sends msg ?key (msg_lat msg) (msg_lon msg) (get_blinded_value msg) b i"
      | "act \<in> set locals" by auto
    then show thesis
    proof cases
      case 1
      then have a: "has_parent b" "and (msg_flags msg) FROM_PARENT = 0" "act = SendTo (parent_addr b)
          (forward_packet msg ?key (msg_lat msg) (msg_lon msg) (get_blinded_value msg) FROM_CHILD)"
        using ups by auto
      show thesis
      proof (cases "at_broker N (parent_addr b)")
        case True
        then have "father N x = Some (out_dest act)" using a b by (simp add: father_def)
        from up [OF this _ _ a(2)] show thesis by (simp add: a(3) is_up_def packet_views)
      qed (use away a(3) in simp)
    next
      case d
      note i = accepts_in_table [OF d(1)]
      have dest: "out_dest act = ch_addr (the (um_find (children b) i))" by (simp add: d(2) child_sends_def)
      show thesis
      proof (cases "at_broker N (out_dest act)")
        case True
        from tidy_facts(2) [OF tidy b conjunct1 [OF i]] True
        have "father N (out_dest act) = Some x" by (simp add: dest)
        from down [OF this _ _ conjunct2 [OF i]] i show thesis
          by (simp add: dest) (simp add: d(2) child_sends_def is_down_def packet_views)
      qed (rule away)
    next
      case 3
      then have "out_dest act \<in> client_addrs b" using loc by blast
      with away placed show thesis by (auto simp: broker_placed_def)
    qed
  qed
qed

text \<open>No two of them go to one broker.\<close>

lemma distinct_dests:
  assumes tree: "broker_tree depth D N" and tidy: "tidy N" and b: "brokers N x = Some b"
    and run: "handle_publish E t_up t_local msg src b = Inr (b', out)"
  shows "distinct (filter (at_broker N) (map out_dest out))"
proof (cases "get_service_name msg")
  case (Some name)
  have placed: "broker_placed depth (at_broker N) x b" using tree b by (auto simp: broker_tree_def)
  then have wf: "broker_wf b" by (simp add: broker_placed_def)
  let ?key = "pub_key_of E b name (get_blinded_value msg) (msg_flags msg)"
  let ?ok = "child_accepts E (msg_lat msg) (msg_lon msg) (from_id_of (msg_flags msg) src b) b"
  let ?is = "filter ?ok (active_children b ?key)"
  let ?addr = "\<lambda>i. ch_addr (the (um_find (children b) i))"
  show ?thesis
  proof (rule publish_out [OF wf run Some refl])
    fix ups locals
    assume out: "out = ups @ map (child_sends msg ?key (msg_lat msg) (msg_lon msg) (get_blinded_value msg) b) ?is @ locals"
      and ups: "ups = [] \<or> has_parent b \<and> and (msg_flags msg) FROM_PARENT = 0 \<and> ups = [SendTo (parent_addr b)
        (forward_packet msg ?key (msg_lat msg) (msg_lon msg) (get_blinded_value msg) FROM_CHILD)]"
      and loc: "\<forall>act \<in> set locals. out_dest act \<in> client_addrs b \<and> out_data act = data msg"
    have none: "filter (at_broker N) (map out_dest locals) = []"
      using loc placed by (auto simp: filter_empty_conv broker_placed_def)
    have table: "(i, ?addr i) \<in> set (child_table b)" if "i \<in> set ?is" for i
      using that accepts_in_table [of E] by auto
    have one: "distinct (map snd (child_table b))" by (rule tidy_facts(1) [OF tidy b])
    have "distinct (active_children b ?key)"
      using wf by (auto simp: active_children_def broker_wf_def sets_wf_def split: option.split)
    moreover have "inj_on ?addr (set ?is)"
    proof (rule inj_onI)
      fix i j assume "i \<in> set ?is" "j \<in> set ?is" "?addr i = ?addr j"
      then have "(i, ?addr i) \<in> set (child_table b)" "(j, ?addr i) \<in> set (child_table b)" using table by metis+
      with one show "i = j" by (metis distinct_map inj_on_def prod.inject snd_conv)
    qed
    ultimately have d: "distinct (map ?addr ?is)" by (simp add: distinct_map)
    have "parent_addr b \<noteq> ?addr i" if up: "has_parent b" and i: "i \<in> set ?is" and at: "at_broker N (?addr i)" for i
    proof
      assume "parent_addr b = ?addr i"
      then have "father N x = Some (?addr i)" using up b at by (simp add: father_def)
      moreover have "father N (?addr i) = Some x" using tidy_facts(2) [OF tidy b table [OF i] at] .
      ultimately show False using tree_rooted [OF tree] unfolding rooted_def by (metis less_asym)
    qed
    then show ?thesis
      using d none ups unfolding out
      by (auto simp: child_sends_def comp_def intro: distinct_filter)
  qed
qed (use run in \<open>auto simp: handle_publish_def\<close>)

section \<open>The copies\<close>

text \<open>
  Copies of the publication that cannot come in the way: what is on its way down a branch without
  the nodes in \<open>R\<close>, what is on its way up from a branch with all of them, and what has left the
  brokers.
\<close>

definition harmless :: "network \<Rightarrow> sockaddr set \<Rightarrow> packet \<Rightarrow> bool" where
  "harmless N R p \<longleftrightarrow> \<not> at_broker N (pk_dst p) \<or>
     is_down (pk_body p) \<and> below (father N) (pk_dst p) \<inter> R = {} \<or>
     is_up (pk_body p) \<and> msg_type (tlv_message (pk_body p)) = PUBLISH \<and>
       father N (pk_src p) = Some (pk_dst p) \<and> R \<subseteq> below (father N) (pk_src p)"

lemma harmless_same: "same_neighbours N N' \<Longrightarrow> harmless N R p = harmless N' R p"
  by (simp add: harmless_def same_neighbours_at)

lemma harmless_mono: "harmless N R p \<Longrightarrow> R' \<subseteq> R \<Longrightarrow> harmless N R' p"
  by (auto simp: harmless_def)

lemma publish_neighbours:
  assumes "broker_wf b" and "handle_publish E t_up t_local msg src b = Inr (b', out)"
  shows "neighbours b' = neighbours b"
proof (cases "get_service_name msg")
  case None
  then show ?thesis using assms(2) by (auto simp: handle_publish_def neighbours_def child_table_def)
next
  case (Some name)
  show ?thesis by (rule publish_out [OF assms Some refl])
qed

lemma table_unique:
  "distinct (map snd xs) \<Longrightarrow> (i, a) \<in> set xs \<Longrightarrow> (j, a) \<in> set xs \<Longrightarrow> i = j"
  by (metis distinct_map inj_on_def prod.inject snd_conv)

lemma harmless_step:
  assumes tree: "broker_tree depth D N" and tidy: "tidy N" and b: "brokers N (pk_dst p) = Some b"
    and p: "harmless N R p" and ev: "ev_bytes ev = pk_body p" "ev_from ev = pk_src p"
    and run: "receive E ev b = Inr (b', out)"
  shows "pk_dst p \<notin> R" and "neighbours b' = neighbours b"
    and "act \<in> set out \<Longrightarrow> harmless N R (emit (pk_dst p) act)"
proof -
  let ?F = "father N" and ?m = "tlv_message (pk_body p)"
  have at: "at_broker N (pk_dst p)" using b by (simp add: at_broker_def)
  have wf: "broker_wf b" using tree b by (auto simp: broker_tree_def broker_placed_def)
  note rooted = tree_rooted [OF tree]
  have p': "is_down (pk_body p) \<and> below ?F (pk_dst p) \<inter> R = {} \<or> is_up (pk_body p) \<and>
      msg_type ?m = PUBLISH \<and> ?F (pk_src p) = Some (pk_dst p) \<and> R \<subseteq> below ?F (pk_src p)"
    using p at by (simp add: harmless_def)
  then show "pk_dst p \<notin> R" using father_not_below [OF rooted] by (auto intro: below.self)
  have whole: "whole (pk_body p)" and ty: "msg_type ?m = PUBLISH" using p' by (auto simp: is_down_def is_up_def)
  have m: "pk_msg p = tlv_message (take recv_buffer (ev_bytes ev))" by (simp add: pk_msg_def ev)
  from run m have "(neighbours b' = neighbours b) \<and> (act \<in> set out \<longrightarrow> harmless N R (emit (pk_dst p) act))"
  proof (cases rule: receive_cases)
    case handled
    have "pk_msg p = ?m" using whole_cut [OF whole] handled(1) by (simp add: pk_msg_def)
    then have pub: "handle_publish E (ev_t1 ev) (ev_t2 ev) ?m (pk_src p) b = Inr (b', out)"
      using handled(2) ty ev(2) by (simp add: handle_message_def)
    have "harmless N R (emit (pk_dst p) act)" if act: "act \<in> set out"
    proof (rule sent_cases [OF tree tidy b pub act])
      assume "\<not> at_broker N (out_dest act)"
      then show ?thesis by (simp add: harmless_def)
    next
      assume u: "?F (pk_dst p) = Some (out_dest act)" "is_up (out_data act)"
        "msg_type (tlv_message (out_data act)) = PUBLISH" "and (msg_flags ?m) FROM_PARENT = 0"
      then have "R \<subseteq> below ?F (pk_src p)" "?F (pk_src p) = Some (pk_dst p)" using p' by (auto simp: is_down_def)
      with u son_below [where F = ?F] show ?thesis by (fastforce simp: harmless_def)
    next
      fix i assume d: "?F (out_dest act) = Some (pk_dst p)" "is_down (out_data act)"
        "(i, out_dest act) \<in> set (child_table b)" "i \<noteq> from_id_of (msg_flags ?m) (pk_src p) b"
      from p' have "below ?F (out_dest act) \<inter> R = {}"
      proof (elim disjE conjE)
        assume "below ?F (pk_dst p) \<inter> R = {}"
        then show ?thesis using son_below [where F = ?F, OF d(1)] by blast
      next
        assume u: "is_up (pk_body p)" "msg_type ?m = PUBLISH" "?F (pk_src p) = Some (pk_dst p)" "R \<subseteq> below ?F (pk_src p)"
        then have "i \<noteq> find_child_by_addr (pk_src p) b" using d(4) by (simp add: is_up_def from_id_of_def)
        moreover have "(find_child_by_addr (pk_src p) b, pk_src p) \<in> set (child_table b)"
          by (rule find_child_in_table [OF tidy_facts(3) [OF tidy b u(3)]])
        ultimately have "out_dest act \<noteq> pk_src p"
          using table_unique [OF tidy_facts(1) [OF tidy b]] d(3) by metis
        from sons_disjoint [OF rooted d(1) u(3) this] u(4) show ?thesis by blast
      qed
      with d(2) show ?thesis by (simp add: harmless_def)
    qed
    then show ?thesis using publish_neighbours [OF wf pub] by blast
  qed simp
  then show "neighbours b' = neighbours b" and "act \<in> set out \<Longrightarrow> harmless N R (emit (pk_dst p) act)"
    by blast+
qed

text \<open>The publication itself: one datagram goes to the next node, the rest is harmless from there on.\<close>

lemma pick_one:
  assumes "distinct (filter Q (map f xs))" and "x \<in> set xs" and "Q (f x)"
  obtains ys where "mset xs = add_mset x (mset ys)" and "set ys \<subseteq> set xs" and "\<forall>y \<in> set ys. f y \<noteq> f x"
proof -
  obtain us vs where xs: "xs = us @ x # vs" using assms(2) by (metis split_list)
  have "f y \<noteq> f x" if "y \<in> set (us @ vs)" for y
    using assms(1,3) that unfolding xs by auto (metis imageI)+
  then show thesis using that [of "us @ vs"] by (auto simp: xs)
qed

lemma token_step:
  assumes tree: "broker_tree depth D N" and tidy: "tidy N" and b: "brokers N x = Some b"
    and path: "tree_path (father N) (x # n # xs)" and n: "at_broker N n"
    and run: "handle_publish E t_up t_local msg src b = Inr (b', out)" and next': "SendTo n d \<in> set out"
  obtains rest where "mset out = add_mset (SendTo n d) (mset rest)"
    and "\<forall>act \<in> set rest. harmless N (set (n # xs)) (emit x act)"
proof (rule pick_one [OF distinct_dests [OF tree tidy b run] next'])
  let ?F = "father N"
  fix rest assume rest: "mset out = add_mset (SendTo n d) (mset rest)" "set rest \<subseteq> set out"
    "\<forall>act \<in> set rest. out_dest act \<noteq> out_dest (SendTo n d)"
  note rooted = tree_rooted [OF tree]
  have "harmless N (set (n # xs)) (emit x act)" if act: "act \<in> set rest" for act
  proof (rule sent_cases [OF tree tidy b run])
    show "act \<in> set out" using act rest(2) by blast
  next
    assume "\<not> at_broker N (out_dest act)"
    then show ?thesis by (simp add: harmless_def)
  next
    assume u: "?F x = Some (out_dest act)" "is_up (out_data act)" "msg_type (tlv_message (out_data act)) = PUBLISH"
    have "out_dest act \<noteq> n" using act rest(3) by simp
    then have "?F n = Some x" "set (n # xs) \<subseteq> below ?F n" using path_step [OF rooted path] u(1) by auto
    with u son_below [where F = ?F] show ?thesis by (fastforce simp: harmless_def)
  next
    fix i assume d: "?F (out_dest act) = Some x" "is_down (out_data act)"
    have "out_dest act \<noteq> n" using act rest(3) by simp
    from path_step [OF rooted path] have "below ?F (out_dest act) \<inter> set (n # xs) = {}"
    proof (elim disjE conjE)
      assume "set (n # xs) \<inter> below ?F x = {}"
      then show ?thesis using son_below [where F = ?F, OF d(1)] by blast
    next
      assume "?F n = Some x" "set (n # xs) \<subseteq> below ?F n"
      then show ?thesis using sons_disjoint [OF rooted d(1)] \<open>out_dest act \<noteq> n\<close> by blast
    qed
    with d(2) show ?thesis by (simp add: harmless_def)
  qed
  with that rest(1) show thesis by blast
qed (use n in simp)

section \<open>The way of a publication\<close>

text \<open>What is published, from where, under which key, and for whom.\<close>

record journey =
  jn_origin :: sockaddr
  jn_name :: string
  jn_key :: string
  jn_lat :: f32
  jn_lon :: f32
  jn_payload :: string
  jn_bval :: "string option"
  jn_client :: sockaddr

text \<open>
  A path that lets it through: no recent publication of the key in its quadrant on the way up, a
  child with subscriptions that it comes closer to on the way down, and a subscriber at the end.
\<close>

definition open_up :: "journey \<Rightarrow> broker \<Rightarrow> bool" where
  "open_up J b \<longleftrightarrow> window_at (brake_count_up b) (jn_key J) (get_quadrant (jn_lat J) (jn_lon J)) = [] \<and>
     1 \<le> sint (brake_limit (config b))"

definition open_down :: "env \<Rightarrow> journey \<Rightarrow> broker \<Rightarrow> sockaddr \<Rightarrow> bool" where
  "open_down E J b n \<longleftrightarrow> (let i = find_child_by_addr n b
     in i \<in> set (active_children b (jn_key J)) \<and> child_accepts E (jn_lat J) (jn_lon J) [] b i \<and>
        i \<noteq> ''parent'' \<and> i \<noteq> client_addr_str (jn_origin J))"

definition open_local :: "env \<Rightarrow> journey \<Rightarrow> broker \<Rightarrow> bool" where
  "open_local E J b \<longleftrightarrow>
     window_at (brake_count_local b) (jn_key J) (get_quadrant (jn_lat J) (jn_lon J)) = [] \<and>
     1 \<le> sint (brake_limit (config b)) \<and>
     (case um_at [] (subscribers b) (jn_key J) of [] \<Rightarrow> False
      | g # gs \<Rightarrow> passes_match E b g (jn_bval J) \<and>
          (\<exists>g' \<in> set (g # gs). gc_addr g' = jn_client J \<and> closer (lib_cos E) (jn_lat J) (jn_lon J) g'))"

fun open_path :: "env \<Rightarrow> network \<Rightarrow> journey \<Rightarrow> sockaddr list \<Rightarrow> bool" where
  "open_path E N J [] \<longleftrightarrow> False"
| "open_path E N J [x] \<longleftrightarrow> (case brokers N x of None \<Rightarrow> False | Some b \<Rightarrow> open_local E J b)"
| "open_path E N J (x # n # xs) \<longleftrightarrow>
     (case brokers N x of None \<Rightarrow> False
      | Some b \<Rightarrow> if father N x = Some n then open_up J b else open_down E J b n) \<and>
     open_path E N J (n # xs)"

text \<open>A datagram that carries it.\<close>

definition tells :: "journey \<Rightarrow> string \<Rightarrow> u32 \<Rightarrow> byte list \<Rightarrow> bool" where
  "tells J name flag d \<longleftrightarrow> length d \<le> recv_buffer \<and>
     (let m = tlv_message d in valid m \<and> msg_type m = PUBLISH \<and> get_service_name m = Some name \<and>
        get_coordinates m = Some (jn_lat J, jn_lon J) \<and> msg_flags m = flag \<and>
        get_blinded_value m = jn_bval J \<and>
        get_payload m = (if jn_payload J = [] then None else Some (bytes_of (jn_payload J))))"

definition fits :: "journey \<Rightarrow> bool" where
  "fits J \<longleftrightarrow> 32 + length (jn_key J) + length (jn_payload J) +
     (case jn_bval J of None \<Rightarrow> 0 | Some v \<Rightarrow> 4 + length v) \<le> recv_buffer"

lemma fits_short: "fits J \<Longrightarrow> length (jn_key J) < 2 ^ 16" "fits J \<Longrightarrow> jn_bval J = Some v \<Longrightarrow> length v < 2 ^ 16"
  by (simp_all add: fits_def recv_buffer_def)

lemma tells_sel:
  assumes "tells J name flag d" and "m = tlv_message d"
  shows "get_service_name m = Some name" and "msg_lat m = jn_lat J" and "msg_lon m = jn_lon J"
    and "msg_flags m = flag" and "get_blinded_value m = jn_bval J" and "data m = d"
  using assms by (auto simp: tells_def Let_def msg_lat_def msg_lon_def)

lemma tells_forward:
  assumes tells: "tells J name flag d" and fits: "fits J"
  shows "tells J (jn_key J) flag'
    (forward_packet (tlv_message d) (jn_key J) (jn_lat J) (jn_lon J) (jn_bval J) flag')" (is "tells J _ _ ?f")
proof -
  have pl: "get_payload (tlv_message d) = (if jn_payload J = [] then None else Some (bytes_of (jn_payload J)))"
    using tells by (simp add: tells_def Let_def)
  note v = forwarded_view [OF refl fits_short(1) [OF fits] fits_short(2) [OF fits] pl,
      where bval = "jn_bval J" and lat = "jn_lat J" and lon = "jn_lon J" and flag = flag']
  have "length ?f \<le> recv_buffer"
    using length_forward [of "tlv_message d" "jn_key J" "jn_lat J" "jn_lon J" "jn_bval J" flag'] fits pl
    by (auto simp: fits_def split: if_splits)
  then show ?thesis
    using v forward_view(1,2,4) [OF refl, of "tlv_message d" "jn_key J" "jn_lat J" "jn_lon J" "jn_bval J" flag']
    by (simp add: tells_def Let_def)
qed

lemma tells_received:
  assumes "tells J name flag d" and "ev_bytes ev = d" and "receive E ev b = Inr (b', out)"
  shows "handle_publish E (ev_t1 ev) (ev_t2 ev) (tlv_message d) (ev_from ev) b = Inr (b', out)"
proof -
  have "length d \<le> recv_buffer" "valid (tlv_message d)" "msg_type (tlv_message d) = PUBLISH"
    using assms(1) by (simp_all add: tells_def Let_def)
  moreover from this(2) have "d \<noteq> []" by (auto simp: tlv_message_def)
  ultimately show ?thesis using assms(2,3) by (simp add: receive_def handle_message_def)
qed

lemma tells_shown:
  assumes "tells J name flag d"
  shows "client_view d = Some \<lparr>shown_name = Some name, shown_coords = Some (jn_lat J, jn_lon J),
    shown_payload = jn_payload J\<rparr>"
proof -
  have "jn_payload J \<noteq> [] \<Longrightarrow> 0 < get_payload_size (tlv_message d)"
    using assms payload_size [of "tlv_message d"] by (simp add: tells_def Let_def)
  then show ?thesis using assms by (auto simp: client_view_def tells_def Let_def recv_buffer_def)
qed

text \<open>What a node does with it.\<close>

lemma node_up:
  assumes tells: "tells J name flag d" and key: "pub_key_of E b name (jn_bval J) flag = jn_key J"
    and run: "handle_publish E t_up t_local (tlv_message d) src b = Inr (b', out)"
    and up: "has_parent b" "and flag FROM_PARENT = 0" "open_up J b"
  shows "SendTo (parent_addr b) (forward_packet (tlv_message d) (jn_key J) (jn_lat J) (jn_lon J) (jn_bval J) FROM_CHILD)
    \<in> set out"
proof -
  note m = tells_sel [OF tells refl]
  have key': "jn_key J = pub_key_of E b name (get_blinded_value (tlv_message d)) (msg_flags (tlv_message d))"
    using key by (simp add: m)
  from publish_goes_up [OF run m(1) key' up(1)] up(2,3) show ?thesis by (simp add: m open_up_def)
qed

lemma node_down:
  assumes tells: "tells J name flag d" and key: "pub_key_of E b name (jn_bval J) flag = jn_key J"
    and run: "handle_publish E t_up t_local (tlv_message d) src b = Inr (b', out)" and wf: "broker_wf b"
    and down: "open_down E J b n" "find_child_by_addr n b \<noteq> []"
      "from_id_of flag src b \<noteq> find_child_by_addr n b"
  shows "SendTo n (forward_packet (tlv_message d) (jn_key J) (jn_lat J) (jn_lon J) (jn_bval J) FROM_PARENT) \<in> set out"
proof -
  note m = tells_sel [OF tells refl]
  have key': "jn_key J = pub_key_of E b name (get_blinded_value (tlv_message d)) (msg_flags (tlv_message d))"
    using key by (simp add: m)
  have "find_child_by_addr n b \<in> set (active_children b (jn_key J))"
    "child_accepts E (jn_lat J) (jn_lon J) (from_id_of flag src b) b (find_child_by_addr n b)"
    using down by (simp_all add: open_down_def child_accepts_def Let_def)
  with publish_goes_down [OF wf run m(1) key']
  have "child_sends (tlv_message d) (jn_key J) (jn_lat J) (jn_lon J) (jn_bval J) b (find_child_by_addr n b) \<in> set out"
    by (simp add: m)
  then show ?thesis by (simp add: find_child_sends [OF wf refl down(2)])
qed

lemma node_local:
  assumes tells: "tells J name flag d" and key: "pub_key_of E b name (jn_bval J) flag = jn_key J"
    and run: "handle_publish E t_up t_local (tlv_message d) src b = Inr (b', out)" and wf: "broker_wf b"
    and loc: "open_local E J b"
  shows "SendTo (jn_client J) d \<in> set out"
proof -
  note m = tells_sel [OF tells refl]
  have key': "jn_key J = pub_key_of E b name (get_blinded_value (tlv_message d)) (msg_flags (tlv_message d))"
    using key by (simp add: m)
  obtain g gs where g: "um_find (subscribers b) (jn_key J) = Some (g # gs)" "passes_match E b g (jn_bval J)"
    "\<exists>g' \<in> set (g # gs). gc_addr g' = jn_client J \<and> closer (lib_cos E) (jn_lat J) (jn_lon J) g'"
    using loc by (auto simp: open_local_def um_at_def split: list.splits option.splits)
  have "\<exists>fwd. out = fwd @ map (\<lambda>g. SendTo (gc_addr g) (data (tlv_message d)))
     (filter (closer (lib_cos E) (msg_lat (tlv_message d)) (msg_lon (tlv_message d))) (g # gs))"
    by (rule publish_reaches_group [OF wf run m(1) key' g(1)]) (use loc g(2) in \<open>simp_all add: m open_local_def\<close>)
  then obtain fwd where out: "out = fwd @ map (\<lambda>g. SendTo (gc_addr g) d)
     (filter (closer (lib_cos E) (jn_lat J) (jn_lon J)) (g # gs))" unfolding m by blast
  obtain g' where "g' \<in> set (g # gs)" "gc_addr g' = jn_client J" "closer (lib_cos E) (jn_lat J) (jn_lon J) g'"
    using g(3) by blast
  then have "SendTo (jn_client J) d \<in> (\<lambda>g. SendTo (gc_addr g) d) `
     set (filter (closer (lib_cos E) (jn_lat J) (jn_lon J)) (g # gs))" by force
  then show ?thesis unfolding out by simp
qed

section \<open>The journey\<close>

text \<open>The datagram that carries the publication to the first node of what is left of the path.\<close>

definition token :: "env \<Rightarrow> network \<Rightarrow> journey \<Rightarrow> sockaddr list \<Rightarrow> packet \<Rightarrow> bool" where
  "token E N J xs p \<longleftrightarrow> xs \<noteq> [] \<and> pk_dst p = hd xs \<and>
     (\<exists>name flag b. tells J name flag (pk_body p) \<and> name \<in> {jn_name J, jn_key J} \<and> brokers N (hd xs) = Some b \<and>
        pub_key_of E b name (jn_bval J) flag = jn_key J \<and>
        (\<forall>n ys. xs = hd xs # n # ys \<longrightarrow>
           (if father N (hd xs) = Some n then and flag FROM_PARENT = 0
            else from_id_of flag (pk_src p) b \<noteq> find_child_by_addr n b)))"

definition on_its_way :: "env \<Rightarrow> network \<Rightarrow> journey \<Rightarrow> sockaddr list \<Rightarrow> network \<Rightarrow> bool" where
  "on_its_way E N0 J xs N \<longleftrightarrow> same_neighbours N N0 \<and> (\<forall>x \<in> set xs. brokers N x = brokers N0 x) \<and>
     (\<exists>p rest. in_flight N = add_mset p rest \<and> token E N0 J xs p \<and> (\<forall>q \<in># rest. harmless N0 (set xs) q))"

definition arrived :: "journey \<Rightarrow> network \<Rightarrow> bool" where
  "arrived J N \<longleftrightarrow> (\<exists>p \<in># in_flight N. pk_dst p = jn_client J \<and>
     (\<exists>name \<in> {jn_name J, jn_key J}. client_view (pk_body p) = Some \<lparr>shown_name = Some name,
        shown_coords = Some (jn_lat J, jn_lon J), shown_payload = jn_payload J\<rparr>))"

lemma way_in_flight: "on_its_way E N0 J xs N \<Longrightarrow> \<exists>p. p \<in># in_flight N"
  unfolding on_its_way_def by auto

lemma child_ids_unique:
  assumes "broker_wf b" and "(i, a) \<in> set (child_table b)" and "(i, a') \<in> set (child_table b)"
  shows "a = a'"
proof -
  have inv: "um_inv (children b)" using assms(1) by (simp add: broker_wf_def children_wf_def)
  obtain c c' where "(i, c) \<in> set (children b)" "a = ch_addr c" "(i, c') \<in> set (children b)" "a' = ch_addr c'"
    using assms(2,3) by (auto simp: child_table_def)
  with um_in_set_find [OF inv] show ?thesis by (metis option.inject)
qed

lemma and_parent_child [simp]: "and FROM_PARENT FROM_CHILD = 0"
  by (simp add: and.commute)

text \<open>The next token.\<close>

lemma token_next:
  assumes path: "tree_path (father N) (x # n # xs)" and tidy: "tidy N" and b: "brokers N n = Some b"
    and wf: "broker_wf b" and rooted: "rooted (father N) depth"
    and open': "open_path E N J (n # xs)" and tells: "tells J (jn_key J) flag d"
    and flag: "flag = FROM_CHILD \<and> father N x = Some n \<or> flag = FROM_PARENT \<and> father N n = Some x"
  shows "token E N J (n # xs) (emit x (SendTo n d))"
proof -
  have nonzero: "and flag FROM_CHILD \<noteq> 0 \<or> and flag FROM_PARENT \<noteq> 0" using flag by auto
  have "if father N n = Some m then and flag FROM_PARENT = 0
      else from_id_of flag x b \<noteq> find_child_by_addr m b" if xs: "xs = m # ys" for m ys
  proof (cases "father N n = Some m")
    case True
    then have "m \<noteq> x" "father N n \<noteq> Some x" using path by (auto simp: xs)
    then show ?thesis using flag True by auto
  next
    case False
    then have m: "father N m = Some n" "m \<noteq> x" using path by (auto simp: xs)
    note known = find_child_in_table [OF tidy_facts(3) [OF tidy b]]
    have "find_child_by_addr m b \<noteq> ''parent''" using open' False by (auto simp: xs b open_down_def Let_def)
    moreover have "find_child_by_addr x b \<noteq> find_child_by_addr m b" if "father N x = Some n"
      using known [OF that] known [OF m(1)] m(2) child_ids_unique [OF wf] by metis
    ultimately show ?thesis using False flag by (auto simp: from_id_of_def)
  qed
  then show ?thesis
    using tells b nonzero
    by (auto simp: token_def pub_key_of_def intro!: exI [of _ "jn_key J"] exI [of _ flag])
qed

lemma same_neighbours_update:
  assumes "same_neighbours N N0" and "brokers N x = Some b" and "neighbours b' = neighbours b"
    and "brokers N' = (brokers N)(x \<mapsto> b')"
  shows "same_neighbours N' N0"
  using assms unfolding same_neighbours_def by (metis fun_upd_apply option.simps(9))

text \<open>The node that has the token hands it on.\<close>

lemma token_moves:
  assumes tree: "broker_tree depth D N" and tidy: "tidy N0" and same: "same_neighbours N N0"
    and path: "tree_path (father N0) (x # n # xs)" and open': "open_path E N0 J (x # n # xs)" and fits: "fits J"
    and p: "token E N0 J (x # n # xs) p" and b: "brokers N x = Some b" "brokers N0 x = Some b" "brokers N n = brokers N0 n"
    and ev: "ev_bytes ev = pk_body p" "ev_from ev = pk_src p" and run: "receive E ev b = Inr (b', out)"
  shows "\<exists>q rest. mset (map (emit x) out) = add_mset q rest \<and> token E N0 J (n # xs) q \<and>
    (\<forall>r \<in># rest. harmless N0 (set (n # xs)) r) \<and> neighbours b' = neighbours b"
proof -
  note eq = same_neighbours_at [OF same] and tidyN = same_neighbours_tidy [OF same tidy]
  have wf: "broker_wf b" using tree b(1) by (auto simp: broker_tree_def broker_placed_def)
  obtain name flag where t: "tells J name flag (pk_body p)" "pub_key_of E b name (jn_bval J) flag = jn_key J"
    and turn: "if father N0 x = Some n then and flag FROM_PARENT = 0
      else from_id_of flag (pk_src p) b \<noteq> find_child_by_addr n b"
    using p b(2) by (auto simp: token_def)
  obtain bn where bn: "brokers N0 n = Some bn" using open' by (cases xs) (auto split: option.splits)
  have wfn: "broker_wf bn" using tree bn b(3) by (auto simp: broker_tree_def broker_placed_def)
  have n: "at_broker N n" using bn by (simp add: eq at_broker_def)
  note pub = tells_received [OF t(1) ev(1) run, unfolded ev(2)]
  note rooted = tree_rooted [OF tree, unfolded eq]
  have openn: "open_path E N0 J (n # xs)" using open' by simp
  let ?f = "forward_packet (tlv_message (pk_body p)) (jn_key J) (jn_lat J) (jn_lon J) (jn_bval J)"
  have "\<exists>flag'. SendTo n (?f flag') \<in> set out \<and>
      (flag' = FROM_CHILD \<and> father N0 x = Some n \<or> flag' = FROM_PARENT \<and> father N0 n = Some x)"
  proof (cases "father N0 x = Some n")
    case True
    then have "has_parent b" "parent_addr b = n" using b(2) by (auto simp: father_def split: if_splits)
    then show ?thesis using node_up [OF t pub] turn open' True b(2) by auto
  next
    case False
    then have fn: "father N0 n = Some x" using path by simp
    have "open_down E J b n" using open' False b(2) by simp
    from node_down [OF t pub wf this tidy_facts(3) [OF tidy b(2) fn]] turn False fn show ?thesis by auto
  qed
  then obtain flag' where sent: "SendTo n (?f flag') \<in> set out"
    and flag': "flag' = FROM_CHILD \<and> father N0 x = Some n \<or> flag' = FROM_PARENT \<and> father N0 n = Some x" by blast
  obtain rest where rest: "mset out = add_mset (SendTo n (?f flag')) (mset rest)"
    "\<forall>act \<in> set rest. harmless N (set (n # xs)) (emit x act)"
    by (rule token_step [OF tree tidyN b(1) path [folded eq] n pub sent])
  have "mset (map (emit x) out) = add_mset (emit x (SendTo n (?f flag'))) (mset (map (emit x) rest))"
    using arg_cong [OF rest(1), of "image_mset (emit x)"] by simp
  moreover have "token E N0 J (n # xs) (emit x (SendTo n (?f flag')))"
    by (rule token_next [OF path tidy bn wfn rooted openn tells_forward [OF t(1) fits] flag'])
  moreover have "\<forall>r \<in># mset (map (emit x) rest). harmless N0 (set (n # xs)) r"
    using rest(2) harmless_same [OF same] by auto
  ultimately show ?thesis using publish_neighbours [OF wf pub] by blast
qed

lemma journey_step:
  assumes tree: "broker_tree depth D N" and tidy: "tidy N0" and way: "on_its_way E N0 J (x # xs) N"
    and path: "tree_path (father N0) (x # xs)" and open': "open_path E N0 J (x # xs)" and fits: "fits J"
    and step: "lossless_step E N N'"
  shows "on_its_way E N0 J (x # xs) N' \<or> (if xs = [] then arrived J N' else on_its_way E N0 J xs N')"
proof -
  obtain p rest where same: "same_neighbours N N0" and here: "\<And>y. y \<in> set (x # xs) \<Longrightarrow> brokers N y = brokers N0 y"
    and flight: "in_flight N = add_mset p rest" and p: "token E N0 J (x # xs) p"
    and others: "\<And>q. q \<in># rest \<Longrightarrow> harmless N0 (set (x # xs)) q"
    using way by (auto simp: on_its_way_def)
  note eq = same_neighbours_at [OF same] and tidyN = same_neighbours_tidy [OF same tidy]
  have dst: "pk_dst p = x" using p by (simp add: token_def)
  obtain b where b: "brokers N x = Some b" "brokers N0 x = Some b" using p here [of x] by (auto simp: token_def)
  from step show ?thesis
  proof (cases rule: lossless_step.cases)
    case (to_client q)
    then have "q \<in># rest" using flight dst b(1) by auto
    then have "in_flight N' = add_mset p (rest - {#q#})" using to_client(1) flight by (simp add: multiset_eq_iff)
    moreover have "brokers N' = brokers N" using to_client(1) by simp
    ultimately have "on_its_way E N0 J (x # xs) N'"
      using same here p others unfolding on_its_way_def same_neighbours_def by (metis in_diffD)
    then show ?thesis ..
  next
    case (deliver q c ev c' out)
    note N' = deliver(1) [unfolded after_delivery_to_def]
    show ?thesis
    proof (cases "q = p")
      case False
      then have q: "q \<in># rest" using deliver(2) flight by simp
      have h: "harmless N (set (x # xs)) q" using others [OF q] harmless_same [OF same] by simp
      note st = harmless_step [OF tree tidyN deliver(3) h deliver(4-6)]
      have "in_flight N' = add_mset p ((rest - {#q#}) + mset (map (emit (pk_dst q)) out))"
        using q by (simp add: N' flight multiset_eq_iff)
      moreover have "brokers N' y = brokers N0 y" if "y \<in> set (x # xs)" for y
        using that st(1) here by (auto simp: N')
      moreover have "same_neighbours N' N0"
        by (rule same_neighbours_update [OF same deliver(3) st(2)]) (simp add: N')
      moreover have "harmless N0 (set (x # xs)) r" if "r \<in># (rest - {#q#}) + mset (map (emit (pk_dst q)) out)" for r
        using that others st(3) harmless_same [OF same] by (auto dest: in_diffD)
      ultimately have "on_its_way E N0 J (x # xs) N'" using p unfolding on_its_way_def by blast
      then show ?thesis ..
    next
      case True
      have c: "c = b" using deliver(3) True dst b(1) by simp
      note ev = deliver(4,5) [unfolded True] and run = deliver(6) [unfolded c]
      have flight': "in_flight N' = rest + mset (map (emit x) out)" by (simp add: N' True flight dst)
      show ?thesis
      proof (cases xs)
        case Nil
        obtain name flag where t: "tells J name flag (pk_body p)" "pub_key_of E b name (jn_bval J) flag = jn_key J"
          "name \<in> {jn_name J, jn_key J}" using p b(2) by (auto simp: token_def)
        have wf: "broker_wf b" using tree b(1) by (auto simp: broker_tree_def broker_placed_def)
        have "open_local E J b" using open' b(2) by (simp add: Nil)
        from node_local [OF t(1,2) tells_received [OF t(1) ev(1) run] wf this]
        have sent: "emit x (SendTo (jn_client J) (pk_body p)) \<in># in_flight N'" by (auto simp: flight')
        have "arrived J N'"
          unfolding arrived_def by (rule bexI [OF _ sent]) (use tells_shown [OF t(1)] t(3) in auto)
        then show ?thesis by (simp add: Nil)
      next
        case (Cons n ys)
        have bn: "brokers N n = brokers N0 n" using here by (simp add: Cons)
        obtain r rs where r: "mset (map (emit x) out) = add_mset r rs" "token E N0 J (n # ys) r"
          "\<forall>r \<in># rs. harmless N0 (set (n # ys)) r" "neighbours c' = neighbours b"
          using token_moves [OF tree tidy same path [unfolded Cons] open' [unfolded Cons] fits
              p [unfolded Cons] b bn ev run] by blast
        have "in_flight N' = add_mset r (rest + rs)" using flight' r(1) by simp
        moreover have "harmless N0 (set (n # ys)) s" if "s \<in># rest + rs" for s
          using that r(3) others harmless_mono [of N0 "set (x # xs)" s "set (n # ys)"] by (auto simp: Cons)
        moreover have "brokers N' y = brokers N0 y" if "y \<in> set (n # ys)" for y
        proof -
          have "y \<noteq> x" using that path by (auto simp: Cons)
          then show ?thesis using that here by (simp add: N' True dst Cons)
        qed
        moreover have "same_neighbours N' N0"
          by (rule same_neighbours_update [OF same b(1) r(4)]) (simp add: N' True dst)
        ultimately have "on_its_way E N0 J (n # ys) N'" using r(2) unfolding on_its_way_def by blast
        then show ?thesis by (simp add: Cons)
      qed
    qed
  qed
qed

text \<open>A run that goes on as long as it can brings it to the end.\<close>

lemma journey_ends:
  assumes tree: "broker_tree depth D N0" and tidy: "tidy N0" and fits: "fits J"
    and f: "\<And>i. broker_tree depth D (f i)" "maximal_run (lossless_step E) f"
  shows "tree_path (father N0) xs \<Longrightarrow> open_path E N0 J xs \<Longrightarrow> on_its_way E N0 J xs (f i) \<Longrightarrow>
    \<exists>j. arrived J (f j)"
proof (induction xs arbitrary: i)
  case (Cons x xs)
  have moves: "lossless_step E (f j) (f (Suc j))" if way: "on_its_way E N0 J (x # xs) (f j)" for j
  proof -
    obtain p where "p \<in># in_flight (f j)" using way_in_flight [OF way] by blast
    from lossless_progress [OF f(1) this] f(2) show ?thesis unfolding maximal_run_def by blast
  qed
  have leaves: "\<exists>k. \<not> on_its_way E N0 J (x # xs) (f (i + k))"
  proof (rule ccontr)
    assume always: "\<not> ?thesis"
    have "\<exists>k. in_flight (f (i + k)) = {#}"
      using maximal_run_drains [of depth D "\<lambda>k. f (i + k)" E] f by (simp add: maximal_run_def)
    then obtain k where "in_flight (f (i + k)) = {#}" by blast
    moreover have "on_its_way E N0 J (x # xs) (f (i + k))" using always by blast
    ultimately show False using way_in_flight by fastforce
  qed
  then obtain k where k: "on_its_way E N0 J (x # xs) (f (i + k))" "\<not> on_its_way E N0 J (x # xs) (f (i + Suc k))"
    using exists_least_lemma [of "\<lambda>k. \<not> on_its_way E N0 J (x # xs) (f (i + k))"] Cons.prems(3) by auto
  from journey_step [OF f(1) tidy k(1) Cons.prems(1,2) fits moves [OF k(1)]] k(2)
  have next': "if xs = [] then arrived J (f (i + Suc k)) else on_its_way E N0 J xs (f (i + Suc k))" by simp
  show ?case
  proof (cases xs)
    case Nil
    then show ?thesis using next' by auto
  next
    case (Cons n ys)
    then show ?thesis using Cons.IH [of "i + Suc k"] Cons.prems next' by auto
  qed
qed simp

lemma maximal_run_tree:
  assumes "broker_tree depth D (f 0)" and "maximal_run (lossless_step E) f"
  shows "broker_tree depth D (f i)"
proof (induction i)
  case (Suc i)
  have "lossless_step E (f i) (f (Suc i)) \<or> f (Suc i) = f i" using assms(2) by (auto simp: maximal_run_def)
  then show ?case using Suc step_tree lossless_is_step by metis
qed (rule assms(1))

theorem publication_arrives:
  assumes tree: "broker_tree depth D (f 0)" and tidy: "tidy (f 0)" and run: "maximal_run (lossless_step E) f"
    and path: "tree_path (father (f 0)) (x # xs)" and open': "open_path E (f 0) J (x # xs)" and fits: "fits J"
    and x: "brokers (f 0) x = Some b" and key: "jn_key J = pub_key_of E b (jn_name J) (jn_bval J) 0"
    and flight: "in_flight (f 0) = {#\<lparr>pk_src = jn_origin J, pk_dst = x, pk_body = d\<rparr>#}"
    and d: "d = pub_packet (jn_name J) (jn_lat J) (jn_lon J) (jn_payload J) (jn_bval J)"
    and len: "length (jn_name J) < 2 ^ 16" "length d \<le> recv_buffer"
  shows "\<exists>i. arrived J (f i)"
proof -
  have short: "length (jn_payload J) < 2 ^ 32" "\<And>v. jn_bval J = Some v \<Longrightarrow> length v < 2 ^ 16"
    using fits fits_short(2) [OF fits] by (simp_all add: fits_def recv_buffer_def)
  have dm: "tlv_message d = tlv_message (pub_packet (jn_name J) (jn_lat J) (jn_lon J) (jn_payload J) (jn_bval J))"
    by (simp add: d)
  note v = pub_view [OF len(1) short dm]
  have "valid (tlv_message d)"
    using tlv.accepts [OF pub_builder_ok(1) [OF len(1) short]] by (simp add: d pub_packet_def)
  then have tells: "tells J (jn_name J) 0 d"
    using v len(2) client_msg_type(2) by (simp add: tells_def Let_def msg_flags_def d)
  have "if father (f 0) x = Some n then True else from_id_of 0 (jn_origin J) b \<noteq> find_child_by_addr n b"
    if "xs = n # ys" for n ys
    using open' x that by (auto simp: from_id_of_def open_down_def Let_def)
  then have "token E (f 0) J (x # xs) \<lparr>pk_src = jn_origin J, pk_dst = x, pk_body = d\<rparr>"
    using tells x key by (auto simp: token_def intro!: exI [of _ "jn_name J"] exI [of _ "0 :: u32"])
  then have "on_its_way E (f 0) J (x # xs) (f 0)"
    using flight by (simp add: on_its_way_def same_neighbours_def)
  then show ?thesis
    using journey_ends [OF tree tidy fits maximal_run_tree [OF tree run] run path open'] by blast
qed

end
