(* ===== verification/Sample_Network.thy ===== *)
theory Sample_Network
  imports Samples Deployment Routing
begin

text \<open>
  A root and two leaves, on which the lemmas on several brokers are applied, as a network and with
  a publication on its way, and a key of ten bits that the key generation makes from four given
  draws.
\<close>

section \<open>Three brokers\<close>

definition root_addr :: sockaddr where
  "root_addr = \<lparr>sin_addr = 0x7f000001, sin_port = 5000\<rparr>"

definition other_leaf_addr :: sockaddr where
  "other_leaf_addr = \<lparr>sin_addr = 0x7f000001, sin_port = 7001\<rparr>"

definition client_sock :: sockaddr where
  "client_sock = \<lparr>sin_addr = 0x7f000001, sin_port = 9000\<rparr>"

lemma addrs_differ [simp]:
  "root_addr \<noteq> sample_addr" "sample_addr \<noteq> root_addr" "client_sock \<noteq> sample_addr" "client_sock \<noteq> root_addr"
  by (simp_all add: root_addr_def sample_addr_def client_sock_def)

definition leaf_of :: "broker \<Rightarrow> broker" where
  "leaf_of b = b\<lparr>has_parent := True, parent_addr := root_addr\<rparr>"

lemma leaf_of_wf [simp]: "broker_wf b \<Longrightarrow> broker_wf (leaf_of b)"
  by (auto simp: leaf_of_def broker_wf_def crypto_wf_def sets_wf_def active_wf_def)

lemma leaf_of_sel [simp]:
  "has_parent (leaf_of b)" "parent_addr (leaf_of b) = root_addr" "config (leaf_of b) = config b"
  "ot_parent (leaf_of b) = ot_parent b" "subscribers (leaf_of b) = subscribers b"
  "children (leaf_of b) = children b" "brake_count_up (leaf_of b) = brake_count_up b"
  "brake_count_local (leaf_of b) = brake_count_local b" "he_enabled (leaf_of b) = he_enabled b"
  "same_key (leaf_of b) h = same_key b h"
  by (simp_all add: leaf_of_def same_key_def)

lemma sample_more_sel [simp]:
  "ot_parent sample_broker = []" "ot_parent sample_he_broker = []"
  "brake_count_up sample_broker = []" "brake_count_up sample_he_broker = []"
  "children sample_broker = []" "children sample_he_broker = []" "\<not> has_parent sample_broker"
  "he_enabled sample_he_broker"
  by (simp_all add: sample_defs blank_broker_def)

text \<open>The root's children: the leaf at \<^const>\<open>sample_addr\<close>; the other leaf has not said HELLO.\<close>

lemma root_finds:
  "find_child_by_addr sample_addr sample_parent_broker = ''c''"
  "find_child_by_addr other_leaf_addr sample_parent_broker = []"
  by (simp_all add: find_child_by_addr_def sample_parent_broker_def other_leaf_addr_def sample_addr_def)

lemma root_offers: "child_accepts sample_env 0 0 [] sample_parent_broker ''c''"
  using sample_child_accepts by (simp add: child_accepts_def)

lemma root_child: "find_child_by_addr sample_addr sample_parent_broker \<noteq> []"
  by (simp add: root_finds)

lemma root_child_accepts:
  "child_accepts sample_env 0 0 (find_child_by_addr other_leaf_addr sample_parent_broker) sample_parent_broker
     (find_child_by_addr sample_addr sample_parent_broker)"
  using root_offers by (simp add: root_finds)

definition event_from :: "sockaddr \<Rightarrow> byte list \<Rightarrow> event" where
  "event_from a d = \<lparr>ev_bytes = d, ev_from = a, ev_t1 = 100, ev_t2 = 100\<rparr>"

lemma event_from_sel [simp]: "ev_bytes (event_from a d) = d" "ev_from (event_from a d) = a"
  by (simp_all add: event_from_def)

section \<open>The root and a leaf as a network\<close>

definition sample_net :: network where
  "sample_net = \<lparr>brokers = [root_addr \<mapsto> sample_parent_broker, sample_addr \<mapsto> leaf_of sample_broker],
     in_flight = {#\<lparr>pk_src = client_sock, pk_dst = sample_addr,
       pk_body = pub_packet ''pizza'' 0 0 ''hot'' None\<rparr>#}\<rparr>"

definition sample_depth :: "sockaddr \<Rightarrow> nat" where
  "sample_depth a = (if a = root_addr then 0 else 1)"

lemma sample_tree: "broker_tree sample_depth 1 sample_net"
proof -
  have at: "at_broker sample_net a \<longleftrightarrow> a = root_addr \<or> a = sample_addr" for a
    by (simp add: at_broker_def sample_net_def)
  have "child_addrs sample_parent_broker = {sample_addr}"
    by (auto simp: child_addrs_def sample_parent_broker_def um_find_def)
  moreover have "client_addrs sample_parent_broker = {}" "\<not> has_parent sample_parent_broker"
    by (simp_all add: client_addrs_def sample_parent_broker_def um_find_def)
  ultimately have "broker_placed sample_depth (at_broker sample_net) root_addr sample_parent_broker"
    using sample_parent_wf by (simp add: broker_placed_def sample_depth_def)
  moreover have "broker_placed sample_depth (at_broker sample_net) sample_addr (leaf_of sample_broker)"
    using sample_broker_wf(1)
    by (simp add: broker_placed_def sample_depth_def client_addrs_def child_addrs_def um_find_def)
  moreover have "packet_placed sample_depth (at_broker sample_net) p" if "p \<in># in_flight sample_net" for p
    using that at by (simp add: packet_placed_def sample_net_def)
  ultimately show ?thesis
    by (auto simp: broker_tree_def sample_depth_def sample_net_def split: if_splits)
qed

section \<open>A publication on its way from leaf to leaf\<close>

definition two_children_root :: broker where
  "two_children_root = sample_parent_broker\<lparr>children := children sample_parent_broker @
     [(''d'', child_default\<lparr>ch_id := ''d'', ch_addr := other_leaf_addr\<rparr>)]\<rparr>"

definition subscribed_leaf :: broker where
  "subscribed_leaf = leaf_of (sample_broker
     \<lparr>subscribers := [(''a'', [new_client client_sock 0 0 None None])], last_active := [(''a'', 100)]\<rparr>)"

definition sample_journey :: journey where
  "sample_journey = \<lparr>jn_origin = client_sock, jn_name = ''a'', jn_key = ''a'', jn_lat = 0, jn_lon = 0,
     jn_payload = ''hot'', jn_bval = None, jn_client = client_sock\<rparr>"

definition route_net :: network where
  "route_net = \<lparr>brokers = [root_addr \<mapsto> two_children_root, sample_addr \<mapsto> subscribed_leaf,
       other_leaf_addr \<mapsto> leaf_of sample_broker],
     in_flight = {#\<lparr>pk_src = client_sock, pk_dst = other_leaf_addr,
       pk_body = pub_packet ''a'' 0 0 ''hot'' None\<rparr>#}\<rparr>"

definition sample_route :: "sockaddr list" where
  "sample_route = [other_leaf_addr, root_addr, sample_addr]"

lemma route_addrs [simp]:
  "other_leaf_addr \<noteq> sample_addr" "sample_addr \<noteq> other_leaf_addr" "other_leaf_addr \<noteq> root_addr"
  "root_addr \<noteq> other_leaf_addr" "client_sock \<noteq> other_leaf_addr"
  by (simp_all add: root_addr_def sample_addr_def client_sock_def other_leaf_addr_def)

lemma route_brokers [simp]:
  "brokers route_net root_addr = Some two_children_root" "brokers route_net sample_addr = Some subscribed_leaf"
  "brokers route_net other_leaf_addr = Some (leaf_of sample_broker)"
  by (simp_all add: route_net_def)

lemma route_at: "at_broker route_net a \<longleftrightarrow> a = root_addr \<or> a = sample_addr \<or> a = other_leaf_addr"
  by (simp add: at_broker_def route_net_def)

lemma two_children_sel [simp]:
  "\<not> has_parent two_children_root" "subscribers two_children_root = []"
  "child_table two_children_root = [(''c'', sample_addr), (''d'', other_leaf_addr)]"
  "child_active two_children_root = [(''a'', [''c'']), (''b'', [''c''])]"
  by (simp_all add: two_children_root_def sample_parent_broker_def child_table_def sample_defs blank_broker_def)

lemma subscribed_leaf_sel [simp]:
  "has_parent subscribed_leaf" "parent_addr subscribed_leaf = root_addr" "children subscribed_leaf = []"
  "subscribers subscribed_leaf = [(''a'', [new_client client_sock 0 0 None None])]"
  by (simp_all add: subscribed_leaf_def leaf_of_def)

lemma two_children_wf: "broker_wf two_children_root"
  using sample_broker_wf(1)
  by (auto simp: two_children_root_def sample_parent_broker_def broker_wf_def crypto_wf_def sets_wf_def
      active_wf_def children_wf_def um_inv_def um_find_def child_wf_def child_default_def DBL_MAX_def fle_def
      split: if_splits)

lemma subscribed_leaf_wf: "broker_wf subscribed_leaf"
proof -
  have "broker_wf (sample_broker
     \<lparr>subscribers := [(''a'', [new_client client_sock 0 0 None None])], last_active := [(''a'', 100)]\<rparr>)"
    using sample_broker_wf(1)
    by (auto simp: broker_wf_def crypto_wf_def sets_wf_def active_wf_def groups_wf_def um_inv_def um_find_def
        split: if_splits)
  then show ?thesis unfolding subscribed_leaf_def by (rule leaf_of_wf)
qed

lemma route_father:
  "father route_net root_addr = None" "father route_net sample_addr = Some root_addr"
  "father route_net other_leaf_addr = Some root_addr"
  "father route_net a = Some r \<longleftrightarrow> r = root_addr \<and> (a = sample_addr \<or> a = other_leaf_addr)"
  by (auto simp: father_def route_at split: option.splits) (auto simp: route_net_def split: if_splits)

lemma route_tree: "broker_tree sample_depth 1 route_net"
proof -
  have no: "client_addrs two_children_root = {}" "child_addrs subscribed_leaf = {}"
    "client_addrs subscribed_leaf \<subseteq> {client_sock}" "client_addrs (leaf_of sample_broker) = {}"
    "child_addrs (leaf_of sample_broker) = {}"
    by (auto simp: client_addrs_def child_addrs_def um_find_def split: if_splits)
  have kids: "child_addrs two_children_root \<subseteq> {sample_addr, other_leaf_addr}"
    by (auto simp: child_addrs_def um_find_def two_children_root_def sample_parent_broker_def split: if_splits)
  have away: "\<not> at_broker route_net client_sock" by (simp add: route_at)
  have "broker_placed sample_depth (at_broker route_net) a b" if "brokers route_net a = Some b" for a b
    using that no kids two_children_wf subscribed_leaf_wf sample_broker_wf(1) away
    by (auto simp: broker_placed_def sample_depth_def route_net_def split: if_splits)
  then show ?thesis
    using away by (auto simp: broker_tree_def packet_placed_def sample_depth_def route_net_def)
qed

lemma route_tables [simp]:
  "child_table subscribed_leaf = []" "child_table (leaf_of sample_broker) = []"
  by (simp_all add: child_table_def)

lemma route_finds:
  "find_child_by_addr sample_addr two_children_root = ''c''"
  "find_child_by_addr other_leaf_addr two_children_root = ''d''"
  by (simp_all add: find_child_by_addr_def find_child_find flip: child_table_def)

lemma route_tidy: "tidy route_net"
  unfolding tidy_def
proof (intro allI impI)
  fix a b assume "brokers route_net a = Some b"
  then have "a = root_addr \<and> b = two_children_root \<or> a = sample_addr \<and> b = subscribed_leaf \<or>
      a = other_leaf_addr \<and> b = leaf_of sample_broker"
    by (auto simp: route_net_def split: if_splits)
  then show "distinct (map snd (child_table b)) \<and>
     (\<forall>(i, c) \<in> set (child_table b). at_broker route_net c \<longrightarrow> father route_net c = Some a) \<and>
     (\<forall>c. father route_net c = Some a \<longrightarrow> find_child_by_addr c b \<noteq> [])"
    by (auto simp: route_father route_finds)
qed

lemma route_open:
  "tree_path (father route_net) sample_route" "open_path sample_env route_net sample_journey sample_route"
proof -
  show "tree_path (father route_net) sample_route" by (simp add: sample_route_def route_father)
  have "um_find (children two_children_root) ''c'' = um_find (children sample_parent_broker) ''c''"
    by (simp add: two_children_root_def sample_parent_broker_def um_find_def)
  then have "child_accepts sample_env 0 0 [] two_children_root ''c''"
    using root_offers by (simp add: child_accepts_def)
  moreover have "client_addr_str client_sock \<noteq> ''c''" by code_simp
  ultimately have down: "open_down sample_env sample_journey two_children_root sample_addr"
    by (simp add: open_down_def route_finds sample_journey_def active_children_def um_find_def)
  have limit: "1 \<le> sint (brake_limit (config sample_broker))"
    by (simp add: sample_broker_def sample_cfg_def default_config_def)
  have up: "open_up sample_journey (leaf_of sample_broker)"
    using limit by (simp add: open_up_def window_at_def um_at_def)
  have cfg: "config subscribed_leaf = config sample_broker" "brake_count_local subscribed_leaf = []"
    by (simp_all add: subscribed_leaf_def leaf_of_def sample_broker_def blank_broker_def)
  have "closer (lib_cos sample_env) 0 0 (new_client client_sock 0 0 None None)"
    using sample_near by (simp add: closer_def)
  then have "open_local sample_env sample_journey subscribed_leaf"
    using limit by (simp add: open_local_def cfg sample_journey_def um_at_def um_find_def window_at_def
        passes_match_def split: bool.split)
  with up down show "open_path sample_env route_net sample_journey sample_route"
    by (simp add: sample_route_def route_father)
qed

section \<open>A run of the whole program\<close>

text \<open>The leaf of the sample file starts without a key and gets a subscription in its first turn.\<close>

lemma sample_run:
  "\<exists>b lines out nd. main_start sample_env sample_os rng_ref sample_addr [''broker'', ''leaf.cfg''] sample_fs []
       = Inr (b, sample_fs, [], lines) \<and>
     loop_run sample_env (start_node 0 b) out nd \<and> announce b ''pizza'' \<in> set out"
proof -
  obtain b lines where main: "main_start sample_env sample_os rng_ref sample_addr
      [''broker'', ''leaf.cfg''] sample_fs [] = Inr (b, sample_fs, [], lines)" using sample_main by blast
  obtain cfg where cfg: "parse_config (Some sample_file) = Inr cfg" "cfg_parent_addr cfg = ''127.0.0.1:5000''"
    using sample_parse by blast
  have new: "broker_new sample_env sample_os rng_ref sample_addr cfg sample_fs [] = Inr (b, sample_fs, [], lines)"
    using main cfg(1) by (auto simp: main_start_def read_file_def sample_os_def sample_fs_def split: sum.splits)
  have gmp: "gmp_spec (lib_gmp sample_env)" by (simp add: ref_gmp.gmp_spec_axioms)
  note b = broker_new_wf [OF gmp ref_rng.rng_spec_axioms new]
  let ?ev = "event_from client_sock (sub_packet ''pizza'' 0 0 False None)"
  have fit: "length (ev_bytes ?ev) \<le> recv_buffer"
    using plain_packets_fit(1) [of "''pizza''" "[]" 0 0 False] by simp
  have up: "has_parent b" "''pizza'' \<notin> set (ot_parent b)" using b(3,8) cfg(2) by simp_all
  obtain b1 out where r: "receive sample_env ?ev b = Inr (b1, out)" "announce b ''pizza'' \<in> set out"
    by (rule leaf_subscribes [where E = sample_env, OF b(1) _ _ fit event_from_sel(1) _ up])
      (simp_all add: short_pair_def sub_key_of_def)
  let ?nd = "(start_node 0 b)\<lparr>nd_broker := b1\<rparr>"
  have "loop_turn sample_env (Ready [?ev] 0 0) (start_node 0 b) = Inr (?nd, out)"
    using r(1) by (simp add: loop_turn_def start_node_def CLEANUP_INTERVAL_SEC_def)
  then have "loop_step sample_env (start_node 0 b) out ?nd"
    by (intro loop_step.turn) (simp_all add: start_node_def)
  from loop_run.more [OF loop_run.start this] main r(2) show ?thesis by auto
qed

section \<open>A key of ten bits\<close>

lemma prime_29_31: "is_prime 29" "is_prime 31"
  by (simp_all add: is_prime_code upto.simps)

lemma nextprime_small: "mpz_nextprime gmp_ref 24 = 29" "mpz_nextprime gmp_ref 29 = 31"
proof -
  have no: "\<not> is_prime 25" "\<not> is_prime 26" "\<not> is_prime 27" "\<not> is_prime 28" "\<not> is_prime 30"
    by (simp_all add: is_prime_code upto.simps)
  show "mpz_nextprime gmp_ref 24 = 29"
  proof -
    have "mpz_nextprime gmp_ref 24 \<le> 29" "24 < mpz_nextprime gmp_ref 24" "is_prime (mpz_nextprime gmp_ref 24)"
      using ref_gmp.nextprime ref_gmp.nextprime_least [OF prime_29_31(1), of 24] by simp_all
    moreover from this have "mpz_nextprime gmp_ref 24 \<in> {25, 26, 27, 28, 29}" by auto
    ultimately show ?thesis using no by auto
  qed
  show "mpz_nextprime gmp_ref 29 = 31"
  proof -
    have "mpz_nextprime gmp_ref 29 \<le> 31" "29 < mpz_nextprime gmp_ref 29" "is_prime (mpz_nextprime gmp_ref 29)"
      using ref_gmp.nextprime ref_gmp.nextprime_least [OF prime_29_31(2), of 29] by simp_all
    moreover from this have "mpz_nextprime gmp_ref 29 \<in> {30, 31}" by auto
    ultimately show ?thesis using no by auto
  qed
qed

lemma small_key_drawn: "key_loop gmp_ref rng_ref (2 * 5) 8 [24, 29, 5, 7] = Inr ((29, 31), [5, 7])"
proof -
  have size: "mpz_sizeinbase2 gmp_ref 29 = 5" "mpz_sizeinbase2 gmp_ref 31 = 5"
    using ref_gmp.sizeinbase2_unique [of 5 29] ref_gmp.sizeinbase2_unique [of 5 31] by simp_all
  have "gen_prime gmp_ref rng_ref 5 [24, 29, 5, 7] = Inr (29, [29, 5, 7])"
    "gen_prime gmp_ref rng_ref 5 [29, 5, 7] = Inr (31, [5, 7])"
    using nextprime_small size
    by (simp_all add: gen_prime_def eval_nat_numeral rng_ref_def ref_gmp.setbit)
  then show ?thesis using ref_crypto.key_loop_first [of 5 7 "[24, 29, 5, 7]"] by (simp add: eval_nat_numeral)
qed

lemma small_key_started:
  "\<exists>k s'. key_gen gmp_ref rng_ref (2 * 5) [24, 29, 5, 7] = Inr (k, s')"
  "key_gen gmp_ref rng_ref (2 * 5) [24, 29, 5, 7] = Inr (k, s') \<Longrightarrow> kp k = 29 \<and> kq k = 31"
proof -
  have no: "key_gen gmp_ref rng_ref (2 * 5) [24, 29, 5, 7] = Inr (k, s') \<Longrightarrow> kp k = 29 \<and> kq k = 31" for k s'
    using small_key_drawn by (auto simp: key_gen_def Let_def split: sum.splits prod.splits if_splits)
  then show "key_gen gmp_ref rng_ref (2 * 5) [24, 29, 5, 7] = Inr (k, s') \<Longrightarrow> kp k = 29 \<and> kq k = 31" .
  have "key_gen gmp_ref rng_ref (2 * 5) [24, 29, 5, 7] \<noteq> Inl GenPrimeExhausted"
    using small_key_drawn
    by (auto simp: key_gen_def paillier_L_def Let_def split: sum.splits prod.splits if_splits)
  then show "\<exists>k s'. key_gen gmp_ref rng_ref (2 * 5) [24, 29, 5, 7] = Inr (k, s')"
    using ref_crypto.key_gen_cases [of 5 "[24, 29, 5, 7]"] by auto
qed

end
