(* ===== verification/Client_Run.thy ===== *)
theory Client_Run
  imports Outgoing
begin

text \<open>
  Runs of \<^verbatim>\<open>test_client\<close>: what the command line and the key file decide about the datagram it
  sends, what that datagram shows of the service, and what the brokers make of it. The brokers
  hide the name of an encrypted request from one another; the client does not hide it from its
  broker.
\<close>

section \<open>The command line\<close>

lemma split_args_encrypted:
  "fst (split_args argv) \<longleftrightarrow> \<not> list_ex is_plain_flag (tl argv)"
  "fst (split_args argv) \<Longrightarrow> snd (split_args argv) = argv"
proof -
  show "fst (split_args argv) \<longleftrightarrow> \<not> list_ex is_plain_flag (tl argv)"
    by (cases argv) (simp_all add: split_args_def)
  show "fst (split_args argv) \<Longrightarrow> snd (split_args argv) = argv"
    by (cases argv) (simp_all add: split_args_def list_ex_iff filter_id_conv)
qed

text \<open>A client that is to encrypt, and what it needs to get as far as sending.\<close>

lemma encrypted_main:
  assumes "\<not> list_ex is_plain_flag (tl argv)" and "argv ! 1 = ''sub'' \<or> argv ! 1 = ''pub''"
  shows "client_main H G R Os fs argv s =
    (if length argv < 4 then Some (ExitCode 1)
     else case stoi (argv ! 3) of Inl e \<Rightarrow> Some (Throws e)
        | Inr (port, _) \<Rightarrow>
            (case load_state G (read_file Os full_key_file fs) heps_default of
               (False, _) \<Rightarrow> Some (ExitCode 1)
             | (True, h) \<Rightarrow>
                 (if argv ! 1 = ''sub'' then client_sub else client_pub) H G R Os True h
                   \<lparr>sin_addr = (case inet_pton (argv ! 2) of Some a \<Rightarrow> a | None \<Rightarrow> 0),
                    sin_port = word_of_int port\<rparr> argv s))"
proof -
  have "split_args argv = (True, argv)"
    using assms(1) split_args_encrypted [of argv] by (metis prod.collapse)
  then show ?thesis
    using assms(2) by (auto simp: client_main_def Let_def split: sum.split prod.split bool.split)
qed

lemma no_key_no_packet:
  assumes "\<not> list_ex is_plain_flag (tl argv)" and "argv ! 1 = ''sub'' \<or> argv ! 1 = ''pub''"
    and "\<not> fst (load_state G (read_file Os full_key_file fs) heps_default)"
  shows "client_main H G R Os fs argv s = Some (ExitCode 1) \<or>
    (\<exists>e. client_main H G R Os fs argv s = Some (Throws e))"
  using assms(3) unfolding encrypted_main [OF assms(1,2)]
  by (auto split: sum.split prod.split bool.split)

lemma sent_sub:
  assumes "client_sub H G R Os enc h addr args s = Some (Sends a d)"
  obtains lat lon where "7 \<le> length args" and "stof (args ! 5) = Inr lat" and "stof (args ! 6) = Inr lon"
    and "a = addr" and "os_socket Os" and "os_bind Os 0"
    and "if enc then \<exists>m1 m2 s'. heps_blind_subscription H G R h (args ! 4) s = Some (Inr ((m1, m2), s')) \<and>
           d = sub_packet (args ! 4) lat lon (8 \<le> length args \<and> args ! 7 = ''query'') (Some (m1, m2))
         else d = sub_packet (args ! 4) lat lon (8 \<le> length args \<and> args ! 7 = ''query'') None"
  using assms
  by (auto simp: client_sub_def sub_send_def Let_def split: if_splits sum.splits option.splits)

lemma sent_pub:
  assumes "client_pub H G R Os enc h addr args s = Some (Sends a d)"
  obtains lat lon where "8 \<le> length args" and "stof (args ! 5) = Inr lat" and "stof (args ! 6) = Inr lon"
    and "a = addr" and "os_socket Os"
    and "if enc then \<exists>bval s'. heps_blind_notification H G R h (args ! 4) s = Inr (bval, s') \<and>
           d = pub_packet (args ! 4) lat lon (args ! 7) (Some bval)
         else d = pub_packet (args ! 4) lat lon (args ! 7) None"
  using assms
  by (auto simp: client_pub_def plain_send_def Let_def split: if_splits sum.splits option.splits)

lemma encrypted_sends:
  assumes "\<not> list_ex is_plain_flag (tl argv)" and "argv ! 1 = ''sub'' \<or> argv ! 1 = ''pub''"
    and "client_main H G R Os fs argv s = Some (Sends a d)"
  obtains h addr where "load_state G (read_file Os full_key_file fs) heps_default = (True, h)"
    and "argv ! 1 = ''sub'' \<Longrightarrow> client_sub H G R Os True h addr argv s = Some (Sends a d)"
    and "argv ! 1 = ''pub'' \<Longrightarrow> client_pub H G R Os True h addr argv s = Some (Sends a d)"
  using assms(3) unfolding encrypted_main [OF assms(1,2)]
  by (auto split: if_splits sum.splits prod.splits bool.splits)

section \<open>What the datagram shows\<close>

text \<open>A string of any length goes on the wire as what fits its 16-bit length.\<close>

lemma length_wire: "length (wire_string s) = length s mod 2 ^ 16"
  by (simp add: wire_string_def min.absorb2 mod_less_eq_dividend)

lemma wire_string_bound: "length (wire_string s) < 2 ^ 16"
  by (simp add: length_wire)

lemma add_string_wire: "add_string t (wire_string s) b = add_string t s b"
proof -
  have "(word_of_nat (length (wire_string s)) :: u16) = word_of_nat (length s)"
    by (simp add: length_wire word_unat_eq_iff unat_of_nat)
  moreover have "take (length s mod 2 ^ 16) (bytes_of (wire_string s)) = take (length s mod 2 ^ 16) (bytes_of s)"
    by (simp add: wire_string_def bytes_of_take)
  ultimately show ?thesis by (simp add: add_string_def add_tlv_def unat_of_nat)
qed

lemma sub_packet_wire:
  "sub_packet name lat lon query (Some (m1, m2)) =
     sub_packet (wire_string name) lat lon query (Some (wire_string m1, wire_string m2))"
  by (simp add: sub_packet_def sub_builder_def add_service_name_def add_blinded_value_def
      add_blinded_value_hi_def add_string_wire)

lemma pub_packet_wire:
  "pub_packet name lat lon payload (Some v) = pub_packet (wire_string name) lat lon payload (Some (wire_string v))"
  by (simp add: pub_packet_def pub_builder_def add_service_name_def add_blinded_value_def add_string_wire)

lemma blinded_request_view:
  assumes "\<not> list_ex is_plain_flag (tl argv)" and "argv ! 1 = ''sub'' \<or> argv ! 1 = ''pub''"
    and "client_main H G R Os fs argv s = Some (Sends a d)" and "length (argv ! 7) < 2 ^ 32"
  shows "get_blinded_value (tlv_message d) \<noteq> None"
    and "get_service_name (tlv_message d) = Some (wire_string (argv ! 4))"
proof -
  obtain h addr where h: "load_state G (read_file Os full_key_file fs) heps_default = (True, h)"
    and sub: "argv ! 1 = ''sub'' \<Longrightarrow> client_sub H G R Os True h addr argv s = Some (Sends a d)"
    and pub: "argv ! 1 = ''pub'' \<Longrightarrow> client_pub H G R Os True h addr argv s = Some (Sends a d)"
    by (rule encrypted_sends [OF assms(1-3)]) (rule that)
  have "get_blinded_value (tlv_message d) \<noteq> None \<and>
    get_service_name (tlv_message d) = Some (wire_string (argv ! 4))"
    using assms(2)
  proof
    assume "argv ! 1 = ''sub''"
    then obtain lat lon query m1 m2 where d: "d = sub_packet (wire_string (argv ! 4)) lat lon query
        (Some (wire_string m1, wire_string m2))"
      using sent_sub [OF sub] sub_packet_wire by (metis (no_types, lifting))
    have "short_pair (Some (wire_string m1, wire_string m2))" by (simp add: short_pair_def length_wire)
    note sub_view [OF wire_string_bound this d [THEN arg_cong [of _ _ tlv_message]]]
    then show ?thesis by simp
  next
    assume "argv ! 1 = ''pub''"
    then obtain lat lon v where d: "d = pub_packet (wire_string (argv ! 4)) lat lon (argv ! 7) (Some (wire_string v))"
      using sent_pub [OF pub] pub_packet_wire by (metis (no_types, lifting))
    have "\<And>x. Some (wire_string v) = Some x \<Longrightarrow> length x < 2 ^ 16" using wire_string_bound by auto
    note pub_view [OF wire_string_bound assms(4) this d [THEN arg_cong [of _ _ tlv_message]]]
    then show ?thesis by simp
  qed
  then show "get_blinded_value (tlv_message d) \<noteq> None"
    and "get_service_name (tlv_message d) = Some (wire_string (argv ! 4))" by blast+
qed

section \<open>What brokers tell one another\<close>

lemma region_view_name:
  "get_service_name (tlv_message (region_packet b)) = Some (wire_string (broker_id (config b)))"
  using built_field [OF region_ok [of b], of SERVICE_NAME]
  by (simp add: region_packet_def getter_values)

lemma wire_hash: "wire_string (hash_service_name E name) = hash_service_name E name"
  using hash_length [of E name] by simp

text \<open>
  A request of a client that came blinded: whatever the broker sends elsewhere than to its clients
  names the service by its hash.
\<close>

theorem names_stay_local:
  assumes wf: "broker_wf b" and he: "he_enabled b" and run: "receive E ev b = Inr (b', out)" and act: "act \<in> set out"
    and m: "m = tlv_message (take recv_buffer (ev_bytes ev))" and ty: "msg_type m = SUBSCRIBE \<or> msg_type m = PUBLISH"
    and client: "and (msg_flags m) FROM_CHILD = 0" "and (msg_flags m) FROM_PARENT = 0"
    and name: "get_service_name m = Some name" and blinded: "get_blinded_value m \<noteq> None"
    and away: "out_dest act \<noteq> ev_from ev" "out_dest act \<notin> client_addrs b"
  shows "get_service_name (tlv_message (out_data act)) = Some (hash_service_name E name) \<or>
    (msg_type (tlv_message (out_data act)) = REGION_UPDATE \<and>
     get_service_name (tlv_message (out_data act)) = Some (wire_string (broker_id (config b))))"
proof -
  have handled: "handle_message E (ev_t1 ev) (ev_t2 ev) m (ev_from ev) b = Inr (b', out)"
    using run act by (auto simp: receive_def m Let_def split: if_splits)
  from ty show ?thesis
  proof
    assume "msg_type m = PUBLISH"
    then have pub: "handle_publish E (ev_t1 ev) (ev_t2 ev) m (ev_from ev) b = Inr (b', out)"
      using handled by (simp add: handle_message_def)
    have key: "hash_service_name E name = pub_key_of E b name (get_blinded_value m) (msg_flags m)"
      using blinded he client by (simp add: pub_key_of_def)
    show ?thesis
    proof (rule publish_action_cases [OF wf pub act name key])
      assume "out_dest act \<in> client_addrs b"
      with away(2) show ?thesis ..
    qed (simp_all add: forward_view(3) [OF refl] wire_hash)
  next
    assume "msg_type m = SUBSCRIBE"
    then have sub: "handle_subscribe E (ev_t1 ev) m (ev_from ev) b = (b', out)"
      using handled by (simp add: handle_message_def)
    let ?b = "b\<lparr>stat_sub_received := stat_sub_received b + 1\<rparr>"
    obtain lat lon where loc: "subscribe_local E (ev_t1 ev) m name lat lon (msg_flags m) (ev_from ev) ?b = (b', out)"
      using sub name client(1) by (simp add: handle_subscribe_def Let_def msg_flags_def)
    have key: "hash_service_name E name = sub_key_of E ?b name (get_blinded_value m)"
      using blinded he by (simp add: sub_key_of_def)
    show ?thesis
    proof (rule subscribe_action_cases [OF loc act key])
      fix b2 assume "config b2 = config ?b" "act = SendTo (parent_addr ?b) (region_packet b2)"
      then show ?thesis by (simp add: region_view region_view_name)
    next
      assume "act = SendTo (parent_addr ?b) (subscribe_packet (config ?b) (hash_service_name E name))"
      then show ?thesis by (simp add: subscribe_view(3) [OF refl] wire_hash)
    qed (use away(1) in simp)
  qed
qed

end
