(* ===== verification/Whole_System.thy ===== *)
theory Whole_System
  imports Deployment Client_Run
begin

text \<open>
  The whole way of a publication through a deployment, from the processes' start: two leaves say
  HELLO to the root, a client at one of them subscribes and the root hears of it, a client at the
  other publishes. Nothing is assumed of the states in between; they are the ones the constructor
  and the handlers leave.
\<close>

section \<open>HELLO and REGION UPDATE at the parent\<close>

text \<open>The record a parent makes of a leaf that says HELLO.\<close>

definition hello_child :: "broker_config \<Rightarrow> sockaddr \<Rightarrow> child_broker" where
  "hello_child cfg a = child_default\<lparr>ch_id := broker_id cfg, ch_addr := a, ch_lat := cfg_lat cfg,
     ch_lon := cfg_lon cfg, ch_region := config_region cfg\<rparr>"

lemma hello_fields:
  assumes "length (broker_id cfg) \<le> 4000" and "m = tlv_message (hello_packet cfg)"
  shows "get_service_name m = Some (broker_id cfg)" and "get_coordinates m = Some (cfg_lat cfg, cfg_lon cfg)"
    and "length (hello_packet cfg) \<le> recv_buffer" and "hello_packet cfg \<noteq> []"
proof -
  let ?p = "add_coordinates (cfg_lat cfg) (cfg_lon cfg) (add_service_name (broker_id cfg) (builder HELLO))"
  have ok: "packet_ok ?p [(tlv_code SERVICE_NAME, bytes_of (wire_string (broker_id cfg))),
      (tlv_code COORDINATES, put32 (cfg_lat cfg) @ put32 (cfg_lon cfg))]"
    using holds_key_coords [of "cfg_lat cfg" "cfg_lon cfg" "broker_id cfg" HELLO] by (simp add: packet_ok_def)
  have m: "m = tlv_message (build ?p)" using assms(2) by (simp add: hello_packet_def)
  note f = built_field [OF ok]
  have w: "wire_string (broker_id cfg) = broker_id cfg" using assms(1) by simp
  show "get_service_name m = Some (broker_id cfg)" "get_coordinates m = Some (cfg_lat cfg, cfg_lon cfg)"
    by (simp_all add: m getter_values f w)
  show "length (hello_packet cfg) \<le> recv_buffer"
    using ok assms(1) w
    by (simp add: hello_packet_def length_build packet_ok_def holds_def length_enc_fields recv_buffer_def adders)
  show "hello_packet cfg \<noteq> []" using length_build [of ?p] by (auto simp: hello_packet_def)
qed

lemma hello_received:
  assumes "ev_bytes ev = hello_packet cfg" and "length (broker_id cfg) \<le> 4000"
  shows "receive E ev b = Inr (update_my_region (b\<lparr>children := um_put (broker_id cfg)
      ((um_at child_default (children b) (broker_id cfg))\<lparr>ch_id := broker_id cfg, ch_addr := ev_from ev,
         ch_lat := cfg_lat cfg, ch_lon := cfg_lon cfg, ch_region := config_region cfg\<rparr>) (children b)\<rparr>),
    [SendTo (ev_from ev) (hello_ack_packet (config b))])"
proof -
  note v = hello_fields [OF assms(2) refl]
  have "receive E ev b = Inr (handle_hello (tlv_message (hello_packet cfg)) (ev_from ev) b)"
    using hello_view [of cfg] v(3,4) by (simp add: receive_def handle_message_def assms(1))
  then show ?thesis using v(1,2) by (simp add: handle_hello_def Let_def update_my_region_def config_region_def)
qed

lemma receive_hello:
  assumes "ev_bytes ev = hello_packet cfg" and "length (broker_id cfg) \<le> 4000"
    and "um_find (children b) (broker_id cfg) = None"
  shows "\<exists>b' out. receive E ev b = Inr (b', out) \<and>
    children b' = um_put (broker_id cfg) (hello_child cfg (ev_from ev)) (children b)"
  using hello_received [OF assms(1,2), of E b] assms(3)
  by (simp add: update_my_region_def hello_child_def um_at_def)

text \<open>The region a parent reads from a REGION UPDATE: bounds go over the wire as floats.\<close>

definition wire_region :: "region \<Rightarrow> region" where
  "wire_region r = \<lparr>min_lat = widen (narrow (min_lat r)), max_lat = widen (narrow (max_lat r)),
     min_lon = widen (narrow (min_lon r)), max_lon = widen (narrow (max_lon r))\<rparr>"

lemma region_fields:
  assumes "length (broker_id (config b)) \<le> 4000" and "m = tlv_message (region_packet b)"
  shows "get_service_name m = Some (broker_id (config b))" and "get_region m = Some (wire_region (my_region b))"
    and "length (region_packet b) \<le> recv_buffer" and "region_packet b \<noteq> []"
proof -
  note ok = region_ok [of b]
  have w: "wire_string (broker_id (config b)) = broker_id (config b)" using assms(1) by simp
  note f = built_field [OF ok, folded region_packet_def]
  show "get_service_name m = Some (broker_id (config b))" by (simp add: assms(2) getter_values f w)
  show "get_region m = Some (wire_region (my_region b))"
    by (simp add: assms(2) getter_values f region_bytes_def wire_region_def sub_list_def)
  show "length (region_packet b) \<le> recv_buffer"
    using ok assms(1) w
    by (simp add: region_packet_def length_build packet_ok_def holds_def length_enc_fields region_bytes_def
        recv_buffer_def adders)
  show "region_packet b \<noteq> []" using length_build [of
    "add_region (my_region b) (add_service_name (broker_id (config b)) (builder REGION_UPDATE))"]
    by (auto simp: region_packet_def)
qed

lemma receive_region:
  assumes "ev_bytes ev = region_packet x" and "length (broker_id (config x)) \<le> 4000"
    and "um_find (children b) (broker_id (config x)) = Some c"
  shows "\<exists>b' out. receive E ev b = Inr (b', out) \<and>
    children b' = um_put (broker_id (config x)) (c\<lparr>ch_region := wire_region (my_region x)\<rparr>) (children b)"
proof -
  note v = region_fields [OF assms(2) refl]
  have "receive E ev b = Inr (handle_region_update (tlv_message (region_packet x)) b)"
    using region_view [of x] v(3,4) by (simp add: receive_def handle_message_def assms(1))
  then show ?thesis
    using v(1,2) assms(3) by (simp add: handle_region_update_def Let_def update_my_region_def)
qed

section \<open>The first subscription at a leaf\<close>

text \<open>A fresh leaf says at most two things: its new region, and the key.\<close>

lemma first_subscription:
  assumes loc: "subscribe_local E now msg name lat lon 0 client b = (b', out)"
    and key: "key = sub_key_of E b name (get_blinded_value msg)" and up: "has_parent b" "key \<notin> set (ot_parent b)"
  obtains b2 where "config b2 = config b" and "my_region b2 = grow_region (widen lat) (widen lon) (my_region b)"
    and "out = (if region_changed (my_region b2) (my_region b) then [SendTo (parent_addr b) (region_packet b2)] else [])
        @ [announce b key]"
proof -
  let ?b1 = "add_subscriber now key (new_client client lat lon (get_blinded_value msg) (get_blinded_value_hi msg)) b"
  let ?b2 = "?b1\<lparr>my_region := grow_region (widen lat) (widen lon) (my_region b)\<rparr>"
  have "out = (if region_changed (my_region ?b2) (my_region b) then [SendTo (parent_addr b) (region_packet ?b2)] else [])
      @ [announce b key]"
    using loc up unfolding key
    by (auto simp: subscribe_local_def Let_def extend_region_def add_subscriber_def region_packet_def
        propagate_subscription_def announce_def send_region_update_to_parent_def split: if_splits)
  then show thesis by (intro that [of ?b2]) (simp_all add: add_subscriber_def)
qed

section \<open>Two leaves at a root\<close>

text \<open>A datagram with its sender and the clock, and what a broker sends as its receivers get it.\<close>

definition event_at :: "sockaddr \<Rightarrow> time_t \<Rightarrow> byte list \<Rightarrow> event" where
  "event_at a t d = \<lparr>ev_bytes = d, ev_from = a, ev_t1 = t, ev_t2 = t\<rparr>"

lemma event_at_sel [simp]:
  "ev_bytes (event_at a t d) = d" "ev_from (event_at a t d) = a" "ev_t1 (event_at a t d) = t" "ev_t2 (event_at a t d) = t"
  by (simp_all add: event_at_def)

definition sent_as :: "sockaddr \<Rightarrow> time_t \<Rightarrow> action list \<Rightarrow> event list" where
  "sent_as a t acts = map (\<lambda>act. event_at a t (out_data act)) acts"

lemma sent_as_simps [simp]:
  "sent_as a t [] = []" "sent_as a t (act # acts) = event_at a t (out_data act) # sent_as a t acts"
  "sent_as a t (acts @ acts') = sent_as a t acts @ sent_as a t acts'"
  by (simp_all add: sent_as_def)

definition fresh_leaf :: "broker \<Rightarrow> bool" where
  "fresh_leaf b \<longleftrightarrow> broker_wf b \<and> has_parent b \<and> my_region b = config_region (config b) \<and>
     subscribers b = [] \<and> ot_parent b = [] \<and> brake_count_up b = [] \<and> brake_count_local b = []"

lemma constructed_leaf:
  assumes "gmp_spec (lib_gmp E)" and "rng_spec R" and "cfg_parent_addr cfg \<noteq> []"
    and "broker_new E Os R junk cfg fs s = Inr (b, fs', s', logs)"
  shows "fresh_leaf b" and "config b = cfg"
  using broker_new_wf [OF assms(1,2,4)] assms(3) by (simp_all add: fresh_leaf_def)

text \<open>Two configurations that can be told apart by their parent.\<close>

definition distinct_leaves :: "broker_config \<Rightarrow> broker_config \<Rightarrow> bool" where
  "distinct_leaves x y \<longleftrightarrow> broker_id x \<noteq> broker_id y \<and> broker_id x \<noteq> [] \<and> broker_id y \<noteq> [] \<and>
     length (broker_id x) \<le> 4000 \<and> length (broker_id y) \<le> 4000"

lemma um_put_two:
  "um_put i c [] = [(i, c)]" "j \<noteq> i \<Longrightarrow> um_put j d [(i, c)] = [(i, c), (j, d)]"
  "um_put i c' [(i, c), (j, d)] = [(i, c'), (j, d)]"
  by (simp_all add: um_put_def)

lemma register_leaves:
  assumes wf: "broker_wf R" and empty: "children R = []" and A: "has_parent A" and B: "has_parent B"
    and ids: "distinct_leaves (config A) (config B)"
  obtains R1 out where "receive_all E (sent_as a t (start_actions A) @ sent_as b t' (start_actions B)) R = Inr (R1, out)"
    and "broker_wf R1"
    and "children R1 = [(broker_id (config A), hello_child (config A) a), (broker_id (config B), hello_child (config B) b)]"
proof -
  let ?ha = "event_at a t (hello_packet (config A))" and ?hb = "event_at b t' (hello_packet (config B))"
  have id: "length (broker_id (config A)) \<le> 4000" "length (broker_id (config B)) \<le> 4000"
    "broker_id (config B) \<noteq> broker_id (config A)" using ids by (auto simp: distinct_leaves_def)
  have none: "um_find (children R) (broker_id (config A)) = None" by (simp add: empty)
  obtain Ra outa where a: "receive E ?ha R = Inr (Ra, outa)"
    "children Ra = [(broker_id (config A), hello_child (config A) a)]"
    using receive_hello [OF _ id(1) none, of ?ha E] by (auto simp: empty um_put_two)
  have wfa: "broker_wf Ra" using receive_keeps [OF a(1)] wf by (simp add: keeps_def)
  have none': "um_find (children Ra) (broker_id (config B)) = None" using id(3) by (simp add: a(2) um_find_def)
  obtain Rb outb where b: "receive E ?hb Ra = Inr (Rb, outb)"
    "children Rb = [(broker_id (config A), hello_child (config A) a), (broker_id (config B), hello_child (config B) b)]"
    using receive_hello [OF _ id(2) none', of ?hb E] id(3) by (auto simp: a(2) um_put_two)
  have "broker_wf Rb" using receive_keeps [OF b(1)] wfa by (simp add: keeps_def)
  with a b that show thesis using A B by (simp add: start_actions_def)
qed

text \<open>The region the root has of a leaf after the first subscription there.\<close>

definition region_seen :: "broker_config \<Rightarrow> f32 \<Rightarrow> f32 \<Rightarrow> region" where
  "region_seen cfg lat lon =
     (let r = grow_region (widen lat) (widen lon) (config_region cfg)
      in if region_changed r (config_region cfg) then wire_region r else config_region cfg)"

definition leaf_seen :: "broker_config \<Rightarrow> sockaddr \<Rightarrow> f32 \<Rightarrow> f32 \<Rightarrow> child_broker" where
  "leaf_seen cfg a lat lon = (hello_child cfg a)\<lparr>ch_region := region_seen cfg lat lon\<rparr>"

lemma root_hears_region:
  assumes wf: "broker_wf R" and ids: "distinct_leaves cfgA cfgB"
    and ch: "children R = [(broker_id cfgA, hello_child cfgA a), (broker_id cfgB, hello_child cfgB b)]"
    and x: "config x = cfgA" "my_region x = grow_region (widen lat) (widen lon) (config_region cfgA)"
  obtains R1 out where "receive_all E (sent_as a t (if region_changed (my_region x) (config_region cfgA)
      then [SendTo p (region_packet x)] else [])) R = Inr (R1, out)"
    and "broker_wf R1"
    and "children R1 = [(broker_id cfgA, leaf_seen cfgA a lat lon), (broker_id cfgB, hello_child cfgB b)]"
proof (cases "region_changed (my_region x) (config_region cfgA)")
  case False
  then have "hello_child cfgA a = leaf_seen cfgA a lat lon"
    using x(2) by (simp add: leaf_seen_def region_seen_def Let_def hello_child_def)
  with False show thesis using that [of R "[]"] wf ch by simp
next
  case True
  let ?ev = "event_at a t (region_packet x)"
  have id: "length (broker_id (config x)) \<le> 4000" using ids x(1) by (simp add: distinct_leaves_def)
  have find: "um_find (children R) (broker_id (config x)) = Some (hello_child cfgA a)" by (simp add: ch x(1) um_find_def)
  have "(hello_child cfgA a)\<lparr>ch_region := wire_region (my_region x)\<rparr> = leaf_seen cfgA a lat lon"
    using True x(2) by (simp add: leaf_seen_def region_seen_def Let_def)
  then obtain R1 out where r: "receive E ?ev R = Inr (R1, out)"
    "children R1 = [(broker_id cfgA, leaf_seen cfgA a lat lon), (broker_id cfgB, hello_child cfgB b)]"
    using receive_region [OF _ id find, of ?ev E] by (auto simp: ch x(1) um_put_two)
  have "broker_wf R1" using receive_keeps [OF r(1)] wf by (simp add: keeps_def)
  with r True show thesis using that [of R1 out] by simp
qed

lemma seen_child_accepts:
  assumes "children R = [(i, leaf_seen cfg a slat slon), (j, c)]" and "i \<noteq> j"
    and "flt (child_dist E (leaf_seen cfg a slat slon) lat lon) DBL_MAX"
  shows "child_accepts E lat lon j R i"
proof -
  have "closest_quad (leaf_seen cfg a slat slon) = replicate 4 DBL_MAX"
    by (simp add: leaf_seen_def hello_child_def child_default_def numeral_eq_Suc)
  moreover have "child_quad (leaf_seen cfg a slat slon) lat lon < 4"
    unfolding child_quad_def by (rule quadrant_of_bound)
  ultimately show ?thesis using assms by (simp add: child_accepts_def um_find_def)
qed

lemma receive_all_append:
  "receive_all E evs R = Inr (R1, out1) \<Longrightarrow> receive_all E evs' R1 = Inr (R2, out2) \<Longrightarrow>
    receive_all E (evs @ evs') R = Inr (R2, out1 @ out2)"
proof (induction evs arbitrary: R out1)
  case (Cons ev evs)
  then obtain Rx outx outy where "receive E ev R = Inr (Rx, outx)" "receive_all E evs Rx = Inr (R1, outy)"
    "out1 = outx @ outy" by (auto split: sum.splits prod.splits)
  with Cons.IH [of Rx outy] Cons.prems(2) show ?case by simp
qed simp

section \<open>The whole way\<close>

text \<open>
  The leaves' HELLOs, everything the subscriber's leaf tells the root, the publication up and down,
  and what the client shows. The clock of every step is free.
\<close>

lemma listen_one: "client_view d = Some p \<Longrightarrow> client_listen [Some d, None] = [p]"
proof -
  assume view: "client_view d = Some p"
  have "client_view [] = None" by (simp add: client_view_def tlv_message_def Let_def)
  then have "d \<noteq> []" using view by auto
  then show ?thesis using view by simp
qed

theorem deployed_leaf_to_leaf:
  assumes A: "fresh_leaf A" and B: "fresh_leaf B" and R: "broker_wf R" "children R = []"
    and ids: "distinct_leaves (config A) (config B)" "a \<noteq> b"
    and len: "length name < 2 ^ 16" "length payload < 2 ^ 32" "short_pair bvals" "\<And>v. bval = Some v \<Longrightarrow> length v < 2 ^ 16"
      "length (sub_packet name slat slon False bvals) \<le> recv_buffer"
      "length (pub_packet name lat lon payload bval) \<le> recv_buffer"
      "32 + length key + length payload + (case bval of None \<Rightarrow> 0 | Some v \<Rightarrow> 4 + length v) \<le> recv_buffer"
    and key: "key = sub_key_of E A name (map_option fst bvals)" "key = pub_key_of E B name bval 0"
    and limit: "1 \<le> sint (brake_limit (config A))" "1 \<le> sint (brake_limit (config B))"
    and seen: "flt (child_dist E (leaf_seen (config A) a slat slon) lat lon) DBL_MAX"
    and near: "flt (geo_distance (lib_cos E) (widen lat) (widen lon) (widen slat) (widen slon)) DBL_MAX"
    and pass: "passes_match E A (new_client client slat slon (map_option fst bvals) (map_option snd bvals)) bval"
  shows "\<exists>R1 outH A1 out1 R2 out2 B1 out3 up R3 out4 down A2 out5.
    receive_all E (sent_as a tha (start_actions A) @ sent_as b thb (start_actions B)) R = Inr (R1, outH) \<and>
    receive E (event_at client tsub (sub_packet name slat slon False bvals)) A = Inr (A1, out1) \<and>
    (\<forall>act \<in> set out1. out_dest act = parent_addr A) \<and>
    receive_all E (sent_as a tann out1) R1 = Inr (R2, out2) \<and>
    receive E (event_at publisher tpub (pub_packet name lat lon payload bval)) B = Inr (B1, out3) \<and>
    SendTo (parent_addr B) up \<in> set out3 \<and>
    receive E (event_at b tup up) R2 = Inr (R3, out4) \<and> SendTo a down \<in> set out4 \<and>
    receive E (event_at r tdown down) A1 = Inr (A2, out5) \<and> SendTo client down \<in> set out5 \<and>
    client_listen [Some down, None] =
      [\<lparr>shown_name = Some key, shown_coords = Some (lat, lon), shown_payload = payload\<rparr>]"
proof -
  let ?e1 = "event_at client tsub (sub_packet name slat slon False bvals)"
  let ?e2 = "event_at a tann (subscribe_packet (config A) key)"
  let ?e3 = "event_at publisher tpub (pub_packet name lat lon payload bval)"
  let ?up = "forward_packet (tlv_message (ev_bytes ?e3)) key lat lon bval FROM_CHILD"
  let ?e4 = "event_at b tup ?up"
  let ?down = "forward_packet (tlv_message (ev_bytes ?e4)) key lat lon bval FROM_PARENT"
  let ?e5 = "event_at r tdown ?down"
  have a: "broker_wf A" "has_parent A" "my_region A = config_region (config A)" "subscribers A = []"
      "ot_parent A = []" "brake_count_local A = []"
    and b: "broker_wf B" "has_parent B" "brake_count_up B = []"
    using A B by (simp_all add: fresh_leaf_def)
  obtain R1 outH where R1: "receive_all E (sent_as a tha (start_actions A) @ sent_as b thb (start_actions B)) R = Inr (R1, outH)"
    "broker_wf R1" "children R1 = [(broker_id (config A), hello_child (config A) a), (broker_id (config B), hello_child (config B) b)]"
    by (rule register_leaves [OF R a(2) b(2) ids(1)])
  let ?A = "A\<lparr>stat_sub_received := stat_sub_received A + 1\<rparr>" and ?m = "tlv_message (ev_bytes ?e1)"
  note v = sub_view [OF len(1,3) refl, of slat slon False]
  obtain A1 out1 where loc: "subscribe_local E tsub ?m name slat slon 0 client ?A = (A1, out1)" by force
  have r1: "receive E ?e1 A = Inr (A1, out1)"
    using receive_sub [OF len(1,3), of ?e1 slat slon False E A] len(5) loc by simp
  have key': "key = sub_key_of E ?A name (get_blinded_value ?m)" using key(1) v(4) by (simp add: sub_key_of_def)
  have up': "has_parent ?A" "key \<notin> set (ot_parent ?A)" by (simp_all add: a)
  obtain x where x: "config x = config A" "my_region x = grow_region (widen slat) (widen slon) (config_region (config A))"
    and out1: "out1 = (if region_changed (my_region x) (config_region (config A))
      then [SendTo (parent_addr A) (region_packet x)] else []) @ [announce A key]"
  proof (rule first_subscription [OF loc key' up'])
    fix x assume "config x = config ?A" "my_region x = grow_region (widen slat) (widen slon) (my_region ?A)"
      "out1 = (if region_changed (my_region x) (my_region ?A) then [SendTo (parent_addr ?A) (region_packet x)]
         else []) @ [announce ?A key]"
    then show thesis using that [of x] by (simp add: a(3) announce_def)
  qed
  obtain Rx outx where Rx: "receive_all E (sent_as a tann (if region_changed (my_region x) (config_region (config A))
      then [SendTo (parent_addr A) (region_packet x)] else [])) R1 = Inr (Rx, outx)" "broker_wf Rx"
    "children Rx = [(broker_id (config A), leaf_seen (config A) a slat slon), (broker_id (config B), hello_child (config B) b)]"
    by (rule root_hears_region [OF R1(2) ids(1) R1(3) x])
  have seen_addr: "ch_addr (leaf_seen (config A) a slat slon) = a" "ch_addr (hello_child (config B) b) = b"
    by (simp_all add: leaf_seen_def hello_child_def)
  have find: "find_child_by_addr a Rx = broker_id (config A)" "find_child_by_addr b Rx = broker_id (config B)"
    using ids(2) seen_addr by (auto simp: find_child_by_addr_def Rx(3) sockaddr_eq)
  have dist: "broker_id (config A) \<noteq> broker_id (config B)" "broker_id (config A) \<noteq> []"
    using ids(1) by (simp_all add: distinct_leaves_def)
  have acc: "child_accepts E lat lon (find_child_by_addr b Rx) Rx (find_child_by_addr a Rx)"
    unfolding find by (rule seen_child_accepts [OF Rx(3) dist(1) seen])
  have "\<exists>A1 out1 R2 out2 B1 out3 R3 out4 A2 out5.
    receive E ?e1 A = Inr (A1, out1) \<and> SendTo (parent_addr A) (ev_bytes ?e2) \<in> set out1 \<and>
    receive E ?e2 Rx = Inr (R2, out2) \<and>
    receive E ?e3 B = Inr (B1, out3) \<and> SendTo (parent_addr B) (ev_bytes ?e4) \<in> set out3 \<and>
    receive E ?e4 R2 = Inr (R3, out4) \<and> SendTo a (ev_bytes ?e5) \<in> set out4 \<and>
    receive E ?e5 A1 = Inr (A2, out5) \<and> SendTo (ev_from ?e1) (ev_bytes ?e5) \<in> set out5 \<and>
    client_view (ev_bytes ?e5) =
      Some \<lparr>shown_name = Some key, shown_coords = Some (lat, lon), shown_payload = payload\<rparr>"
    by (rule leaf_to_leaf [where b = b and bvals = bvals and name = name, OF a(1) Rx(2) b(1) a(2) b(2) _ len key _ limit _ _ acc near])
      (use pass a b dist find in \<open>simp_all add: um_at_def\<close>)
  then obtain R2 out2 B1 out3 R3 out4 A2 out5 where c:
    "receive E ?e2 Rx = Inr (R2, out2)" "receive E ?e3 B = Inr (B1, out3)" "SendTo (parent_addr B) ?up \<in> set out3"
    "receive E ?e4 R2 = Inr (R3, out4)" "SendTo a ?down \<in> set out4"
    "receive E ?e5 A1 = Inr (A2, out5)" "SendTo client ?down \<in> set out5"
    "client_view ?down = Some \<lparr>shown_name = Some key, shown_coords = Some (lat, lon), shown_payload = payload\<rparr>"
    using r1 by auto
  have "receive_all E [?e2] Rx = Inr (R2, out2)" using c(1) by simp
  from receive_all_append [OF Rx(1) this]
  have hear: "receive_all E (sent_as a tann out1) R1 = Inr (R2, outx @ out2)"
    by (simp add: out1 announce_def)
  have "\<forall>act \<in> set out1. out_dest act = parent_addr A" by (simp add: out1 announce_def)
  with R1(1) r1 hear c(2-7) listen_one [OF c(8)] show ?thesis by blast
qed

section \<open>The processes\<close>

text \<open>What a client sends when it sends, in either mode.\<close>

lemma main_sub:
  assumes "split_args argv = (enc, [p, ''sub'', ip, port, name, slat, slon])"
    and "client_main H G R Os fs argv s = Some (Sends dst d)" and "stof slat = Inr lat" and "stof slon = Inr lon"
  shows "if enc then \<exists>h m1 m2 s'. load_state G (read_file Os full_key_file fs) heps_default = (True, h) \<and>
      heps_blind_subscription H G R h name s = Some (Inr ((m1, m2), s')) \<and>
      d = sub_packet name lat lon False (Some (m1, m2))
    else d = sub_packet name lat lon False None"
  using assms
  by (auto simp: client_main_def client_sub_def sub_send_def Let_def
      split: if_splits sum.splits option.splits prod.splits)

lemma main_pub:
  assumes "split_args argv = (enc, [p, ''pub'', ip, port, name, plat, plon, payload])"
    and "client_main H G R Os fs argv s = Some (Sends dst d)" and "stof plat = Inr lat" and "stof plon = Inr lon"
  shows "if enc then \<exists>h bval s'. load_state G (read_file Os full_key_file fs) heps_default = (True, h) \<and>
      heps_blind_notification H G R h name s = Inr (bval, s') \<and>
      d = pub_packet name lat lon payload (Some bval)
    else d = pub_packet name lat lon payload None"
  using assms
  by (auto simp: client_main_def client_pub_def plain_send_def Let_def
      split: if_splits sum.splits option.splits prod.splits)

text \<open>A leaf that finds the key file compares with the key in it.\<close>

lemma leaf_compares:
  assumes new: "broker_new E Os R junk cfg fs s = Inr (b, fs', s', logs)" and leaf: "cfg_parent_addr cfg \<noteq> []"
    and key: "leaf_key (lib_gmp E) (read_file Os key_file fs) = Some (heps_n h, heps_mu h)"
  shows "same_key b h"
proof (rule broker_new_cases [OF new])
  fix pa logs0
  assume "init_crypto E Os R fs s ((blank_broker junk cfg)\<lparr>has_parent := (cfg_parent_addr cfg \<noteq> []),
      parent_addr := pa, my_region := config_region cfg\<rparr>) = Inr (b, fs', s', logs0)"
  then show ?thesis
    using leaf key by (auto simp: init_crypto_def init_crypto_leaf_def same_key_def split: sum.splits)
qed

theorem plain_deployment:
  assumes lib: "gmp_spec (lib_gmp E)" "rng_spec G"
    and A: "broker_new E Os G junkA cfgA fs sA = Inr (A, fsA, tA, logA)" "cfg_parent_addr cfgA \<noteq> []"
    and B: "broker_new E Os G junkB cfgB fs sB = Inr (B, fsB, tB, logB)" "cfg_parent_addr cfgB \<noteq> []"
    and R: "broker_wf R" "children R = []" and ids: "distinct_leaves cfgA cfgB" "a \<noteq> b"
    and limit: "1 \<le> sint (brake_limit cfgA)" "1 \<le> sint (brake_limit cfgB)"
    and argS: "split_args argvS = (False, [progS, ''sub'', ipS, portS, name, slatS, slonS])"
    and S: "client_main H GS RS Os fs argvS s = Some (Sends dstS sub)" "stof slatS = Inr slat" "stof slonS = Inr slon"
    and argP: "split_args argvP = (False, [progP, ''pub'', ipP, portP, name, latP, lonP, payload])"
    and P: "client_main H GS RS Os fs argvP u = Some (Sends dstP pub)" "stof latP = Inr lat" "stof lonP = Inr lon"
    and len: "length name + length payload \<le> 4000"
    and seen: "flt (child_dist E (leaf_seen cfgA a slat slon) lat lon) DBL_MAX"
    and near: "flt (geo_distance (lib_cos E) (widen lat) (widen lon) (widen slat) (widen slon)) DBL_MAX"
  shows "\<exists>R1 outH A1 out1 R2 out2 B1 out3 up R3 out4 down A2 out5.
    receive_all E (sent_as a tha (start_actions A) @ sent_as b thb (start_actions B)) R = Inr (R1, outH) \<and>
    receive E (event_at client tsub sub) A = Inr (A1, out1) \<and> (\<forall>act \<in> set out1. out_dest act = parent_addr A) \<and>
    receive_all E (sent_as a tann out1) R1 = Inr (R2, out2) \<and>
    receive E (event_at publisher tpub pub) B = Inr (B1, out3) \<and> SendTo (parent_addr B) up \<in> set out3 \<and>
    receive E (event_at b tup up) R2 = Inr (R3, out4) \<and> SendTo a down \<in> set out4 \<and>
    receive E (event_at r tdown down) A1 = Inr (A2, out5) \<and> SendTo client down \<in> set out5 \<and>
    client_listen [Some down, None] =
      [\<lparr>shown_name = Some name, shown_coords = Some (lat, lon), shown_payload = payload\<rparr>]"
proof -
  have sub: "sub = sub_packet name slat slon False None" using main_sub [OF argS S] by simp
  have pub: "pub = pub_packet name lat lon payload None" using main_pub [OF argP P] by simp
  note leafA = constructed_leaf [OF lib A(2,1)] and leafB = constructed_leaf [OF lib B(2,1)]
  note run = deployed_leaf_to_leaf [where bvals = None and bval = None and key = name and name = name,
      OF leafA(1) leafB(1) R _ ids(2)]
  show ?thesis
    unfolding sub pub
    by (rule run) (use len plain_packets_fit [OF len] ids limit seen near leafA(2) leafB(2) in
      \<open>simp_all add: short_pair_def sub_key_of_def pub_key_of_def passes_match_def recv_buffer_def split: bool.split\<close>)
qed

theorem encrypted_deployment:
  assumes lib: "gmp_spec (lib_gmp E)" "rng_spec G"
    and key: "honest_key h" "heps_n h < 2 ^ 2048"
    and files: "leaf_key (lib_gmp E) (read_file Os key_file fs) = Some (heps_n h, heps_mu h)"
      "load_state (lib_gmp E) (read_file Os full_key_file fs) heps_default = (True, h)"
    and A: "broker_new E Os G junkA cfgA fs sA = Inr (A, fsA, tA, logA)" "cfg_parent_addr cfgA \<noteq> []"
    and B: "broker_new E Os G junkB cfgB fs sB = Inr (B, fsB, tB, logB)" "cfg_parent_addr cfgB \<noteq> []"
    and R: "broker_wf R" "children R = []" and ids: "distinct_leaves cfgA cfgB" "a \<noteq> b"
    and limit: "1 \<le> sint (brake_limit cfgA)" "1 \<le> sint (brake_limit cfgB)"
    and argS: "split_args argvS = (True, [progS, ''sub'', ipS, portS, name, slatS, slonS])"
    and S: "client_main (lib_hash E) (lib_gmp E) G Os fs argvS s = Some (Sends dstS sub)"
      "stof slatS = Inr slat" "stof slonS = Inr slon" "draws_coprime G (heps_n h) s"
    and argP: "split_args argvP = (True, [progP, ''pub'', ipP, portP, name, latP, lonP, payload])"
    and P: "client_main (lib_hash E) (lib_gmp E) G Os fs argvP u = Some (Sends dstP pub)"
      "stof latP = Inr lat" "stof lonP = Inr lon"
    and len: "length name + length payload \<le> 2000"
    and seen: "flt (child_dist E (leaf_seen cfgA a slat slon) lat lon) DBL_MAX"
    and near: "flt (geo_distance (lib_cos E) (widen lat) (widen lon) (widen slat) (widen slon)) DBL_MAX"
  shows "\<exists>R1 outH A1 out1 R2 out2 B1 out3 up R3 out4 down A2 out5.
    receive_all E (sent_as a tha (start_actions A) @ sent_as b thb (start_actions B)) R = Inr (R1, outH) \<and>
    receive E (event_at client tsub sub) A = Inr (A1, out1) \<and> (\<forall>act \<in> set out1. out_dest act = parent_addr A) \<and>
    receive_all E (sent_as a tann out1) R1 = Inr (R2, out2) \<and>
    receive E (event_at publisher tpub pub) B = Inr (B1, out3) \<and> SendTo (parent_addr B) up \<in> set out3 \<and>
    receive E (event_at b tup up) R2 = Inr (R3, out4) \<and> SendTo a down \<in> set out4 \<and>
    receive E (event_at r tdown down) A1 = Inr (A2, out5) \<and> SendTo client down \<in> set out5 \<and>
    client_listen [Some down, None] =
      [\<lparr>shown_name = Some (hash_service_name E name), shown_coords = Some (lat, lon), shown_payload = payload\<rparr>]"
proof -
  obtain m1 m2 s' where sub: "heps_blind_subscription (lib_hash E) (lib_gmp E) G h name s = Some (Inr ((m1, m2), s'))"
    "sub = sub_packet name slat slon False (Some (m1, m2))"
    using main_sub [OF argS S(1-3)] files(2) by auto
  obtain bval u' where pub: "heps_blind_notification (lib_hash E) (lib_gmp E) G h name u = Inr (bval, u')"
    "pub = pub_packet name lat lon payload (Some bval)"
    using main_pub [OF argP P] files(2) by auto
  note leafA = constructed_leaf [OF lib A(2,1)] and leafB = constructed_leaf [OF lib B(2,1)]
  note keyA = leaf_compares [OF A files(1)] and keyB = leaf_compares [OF B files(1)]
  have "length name \<le> 2000" "length name + length payload \<le> 3000" using len by simp_all
  note fit = blinded_packets_fit [OF lib key sub(1) pub(1) this]
  have pass: "passes_match E A (new_client client slat slon (Some m1) (Some m2)) (Some bval)"
    using encrypted_passes [OF lib keyA key(1) sub(1) S(4) _ _ pub(1)] by (simp add: new_client_def Let_def)
  note run = deployed_leaf_to_leaf [where bvals = "Some (m1, m2)" and bval = "Some bval"
      and key = "hash_service_name E name" and name = name, OF leafA(1) leafB(1) R _ ids(2)]
  show ?thesis
    unfolding sub(2) pub(2)
    by (rule run) (use len fit pass ids limit seen near leafA(2) leafB(2) keyA keyB hash_length [of E name] in
      \<open>simp_all add: short_pair_def sub_key_of_def pub_key_of_def same_key_def recv_buffer_def\<close>)
qed

end
