(* ===== verification/Climbing.thy ===== *)
theory Climbing
  imports Routing Whole_System
begin

text \<open>
  A subscription in a tree of brokers of any depth: it is announced from broker to parent up to
  the root, while updates of the regions travel up as well, in any order. When the network is
  quiet again, every broker on the way knows the child it came from, and a publication that is
  sent then finds its way back to the subscriber.
\<close>

section \<open>What a subscription changes in a broker\<close>

text \<open>Everything else the way of a publication depends on, beside the regions, stays.\<close>

definition quads :: "broker \<Rightarrow> (string \<times> fp list) list" where
  "quads b = map (\<lambda>(i, c). (i, closest_quad c)) (children b)"

definition calm :: "broker \<Rightarrow> broker \<Rightarrow> bool" where
  "calm b' b \<longleftrightarrow> neighbours b' = neighbours b \<and> same_setup b' b \<and> quads b' = quads b \<and>
     brake_count_up b' = brake_count_up b \<and> brake_count_local b' = brake_count_local b"

definition registers :: "broker \<Rightarrow> (string, geo_client list) umap \<times> (string, string list) umap \<times> string list" where
  "registers b = (subscribers b, child_active b, ot_parent b)"

lemma calm_refl: "calm b b"
  by (simp add: calm_def same_setup_def)

lemma calm_trans: "calm c b \<Longrightarrow> calm b a \<Longrightarrow> calm c a"
  by (simp add: calm_def same_setup_def)

lemma calm_children:
  assumes "children b' = children b" and "same_setup b' b"
    and "brake_count_up b' = brake_count_up b" and "brake_count_local b' = brake_count_local b"
  shows "calm b' b"
  using assms by (simp add: calm_def neighbours_def child_table_def quads_def same_setup_def)

lemma quads_put:
  assumes "um_find (children b) i = Some c" and "closest_quad c' = closest_quad c"
    and "children b' = um_put i c' (children b)"
  shows "quads b' = quads b"
proof -
  have "map (\<lambda>(i, c). (i, closest_quad c)) (AList.update i c' m) = map (\<lambda>(i, c). (i, closest_quad c)) m"
    if "map_of m i = Some c" for m :: "(string \<times> child_broker) list"
    using that assms(2) by (induction m) (auto split: if_splits)
  then show ?thesis using assms(1,3) by (simp add: quads_def um_find_def um_put_def)
qed

text \<open>
  Regions are made of coordinates that some broker started with or that a subscriber gave: the
  bounds of every region stay in any set of numbers that contains these and that the trip over the
  wire does not leave.
\<close>

definition coords_in :: "fp set \<Rightarrow> region \<Rightarrow> bool" where
  "coords_in V r \<longleftrightarrow> min_lat r \<in> V \<and> max_lat r \<in> V \<and> min_lon r \<in> V \<and> max_lon r \<in> V"

definition surveyed :: "fp set \<Rightarrow> broker \<Rightarrow> bool" where
  "surveyed V b \<longleftrightarrow> coords_in V (config_region (config b)) \<and> coords_in V (my_region b) \<and>
     (\<forall>(i, c) \<in> set (children b). coords_in V (ch_region c))"

lemma fmin_fmax_in: "a \<in> V \<Longrightarrow> b \<in> V \<Longrightarrow> fmin a b \<in> V \<and> fmax a b \<in> V"
  by (simp add: fmin_def fmax_def)

lemma coords_merge: "coords_in V r \<Longrightarrow> coords_in V s \<Longrightarrow> coords_in V (merge r s)"
  by (simp add: coords_in_def merge_def fmin_fmax_in)

lemma coords_grow: "coords_in V r \<Longrightarrow> lat \<in> V \<Longrightarrow> lon \<in> V \<Longrightarrow> coords_in V (grow_region lat lon r)"
  by (simp add: coords_in_def grow_region_def fmin_fmax_in)

lemma coords_wire: "\<forall>x \<in> V. widen (narrow x) \<in> V \<Longrightarrow> coords_in V r \<Longrightarrow> coords_in V (wire_region r)"
  by (simp add: coords_in_def wire_region_def)

lemma coords_fold:
  "coords_in V r \<Longrightarrow> \<forall>(i, c) \<in> set cs. coords_in V (ch_region c) \<Longrightarrow>
    coords_in V (foldl (\<lambda>r (i, c). merge r (ch_region c)) r cs)"
  by (induction cs arbitrary: r) (auto simp: coords_merge)

lemma surveyed_update: "surveyed V b \<Longrightarrow> surveyed V (update_my_region b)"
  using coords_fold [of V "config_region (config b)" "children b"]
  by (simp add: surveyed_def update_my_region_def)

lemma surveyed_child:
  assumes "surveyed V b" and "coords_in V (ch_region c)"
  shows "surveyed V (b\<lparr>children := um_put i c (children b)\<rparr>)"
  using assms um_put_subset [of i c "children b"] by (fastforce simp: surveyed_def)

lemma surveyed_found: "surveyed V b \<Longrightarrow> um_find (children b) i = Some c \<Longrightarrow> coords_in V (ch_region c)"
  by (auto simp: surveyed_def dest!: um_find_in_set)

text \<open>A region update changes regions, and is passed on to the parent at most.\<close>

definition told :: "fp set \<Rightarrow> byte list \<Rightarrow> bool" where
  "told V d \<longleftrightarrow> (\<exists>x. d = region_packet x \<and> coords_in V (my_region x))"

lemma told_region: "get_region (tlv_message (region_packet b)) = Some (wire_region (my_region b))"
proof -
  note f = built_field [OF region_ok [of b], folded region_packet_def]
  show ?thesis by (simp add: getter_values f region_bytes_def wire_region_def sub_list_def)
qed

lemma region_update_calm:
  assumes wf: "broker_wf b" and run: "handle_region_update (tlv_message d) b = (b', out)"
    and d: "told V d" and V: "\<forall>x \<in> V. widen (narrow x) \<in> V" and b: "surveyed V b"
  shows "calm b' b" and "registers b' = registers b" and "surveyed V b'"
    and "\<forall>act \<in> set out. told V (out_data act)"
proof -
  let ?m = "tlv_message d"
  obtain x where x: "d = region_packet x" "coords_in V (my_region x)" using d by (auto simp: told_def)
  let ?r = "wire_region (my_region x)"
  have r: "get_region ?m = Some ?r" "coords_in V ?r"
    using x(2) by (simp_all add: x(1) told_region coords_wire [OF V])
  have "calm b' b \<and> registers b' = registers b \<and> surveyed V b' \<and> (\<forall>act \<in> set out. told V (out_data act))"
  proof (cases "\<exists>i c. get_service_name ?m = Some i \<and> um_find (children b) i = Some c")
    case False
    then have "b' = b" "out = []" using run by (auto simp: handle_region_update_def split: option.splits)
    then show ?thesis using b by (simp add: calm_refl)
  next
    case True
    then obtain i c where c: "get_service_name ?m = Some i" "um_find (children b) i = Some c" by blast
    have b': "b' = update_my_region (b\<lparr>children := um_put i (c\<lparr>ch_region := ?r\<rparr>) (children b)\<rparr>)"
      and out: "\<forall>act \<in> set out. act = SendTo (parent_addr b) (region_packet b')"
      using run c r(1)
      by (auto simp: handle_region_update_def update_my_region_def Let_def send_region_update_to_parent_def
          split: if_splits)
    have ch: "children b' = um_put i (c\<lparr>ch_region := ?r\<rparr>) (children b)" by (simp add: b' update_my_region_def)
    have "um_inv (children b)" using wf by (simp add: broker_wf_def children_wf_def)
    then have "child_table b' = child_table b" using child_table_put [OF c(2) _ _ ch] by simp
    moreover have "quads b' = quads b" using quads_put [OF c(2) _ ch] by simp
    ultimately have "calm b' b" "registers b' = registers b"
      by (simp_all add: calm_def neighbours_def same_setup_def registers_def) (simp_all add: b' update_my_region_def)
    moreover have s: "surveyed V b'" unfolding b' by (intro surveyed_update surveyed_child b) (simp add: r(2))
    moreover have "told V (region_packet b')" using s by (auto simp: told_def surveyed_def)
    ultimately show ?thesis using out by auto
  qed
  then show "calm b' b" "registers b' = registers b" "surveyed V b'" "\<forall>act \<in> set out. told V (out_data act)"
    by blast+
qed

text \<open>A client's first subscription of a key, and one that a child announces.\<close>

lemma subscribe_local_calm:
  assumes loc: "subscribe_local E now msg name lat lon 0 client b = (b', out)"
    and key: "key = sub_key_of E b name (get_blinded_value msg)" and new: "key \<notin> set (ot_parent b)"
    and b: "surveyed V b" "widen lat \<in> V" "widen lon \<in> V"
  shows "calm b' b" and "surveyed V b'"
    and "um_find (subscribers b') key = Some (um_at [] (subscribers b) key @
      [new_client client lat lon (get_blinded_value msg) (get_blinded_value_hi msg)])"
    and "\<exists>rs. out = rs @ (if has_parent b then [announce b key] else []) \<and> (\<forall>act \<in> set rs. told V (out_data act))"
proof -
  let ?r = "grow_region (widen lat) (widen lon) (my_region b)"
  have same: "config b' = config b" "children b' = children b" "my_region b' = ?r"
    "calm b' b" "has_parent b \<or> out = []"
    using loc by (auto simp: subscribe_local_def Let_def extend_region_def add_subscriber_def
        propagate_subscription_def same_setup_def split: if_splits intro!: calm_children)
  then show "calm b' b" by blast
  show "surveyed V b'" using b same coords_grow [of V "my_region b"] by (simp add: surveyed_def)
  show "um_find (subscribers b') key = Some (um_at [] (subscribers b) key @
      [new_client client lat lon (get_blinded_value msg) (get_blinded_value_hi msg)])"
    using subscribe_no_query(1) [OF loc key] by simp
  show "\<exists>rs. out = rs @ (if has_parent b then [announce b key] else []) \<and> (\<forall>act \<in> set rs. told V (out_data act))"
  proof (cases "has_parent b")
    case True
    show ?thesis
    proof (rule first_subscription [OF loc key True new])
      fix x assume x: "my_region x = ?r"
        and out: "out = (if region_changed (my_region x) (my_region b) then [SendTo (parent_addr b) (region_packet x)]
          else []) @ [announce b key]"
      have "told V (region_packet x)"
        using b x coords_grow [of V "my_region b"] by (auto simp: told_def surveyed_def)
      with out True show ?thesis by (intro exI [of _ "butlast out"]) auto
    qed
  qed (use same(5) in simp)
qed

lemma subscribe_from_child_calm:
  assumes run: "subscribe_from_child key c b = (b', out)" and known: "find_child_by_addr c b \<noteq> []"
    and new: "key \<notin> set (ot_parent b)"
  shows "calm b' b" and "subscribers b' = subscribers b" and "surveyed V b' = surveyed V b"
    and "find_child_by_addr c b' \<in> set (active_children b' key)"
    and "out = (if has_parent b then [announce b key] else [])"
proof -
  show "calm b' b"
    using run by (intro calm_children)
      (auto simp: subscribe_from_child_def Let_def propagate_subscription_def same_setup_def split: if_splits)
  show "subscribers b' = subscribers b" "out = (if has_parent b then [announce b key] else [])"
    "surveyed V b' = surveyed V b"
    using run known new
    by (auto simp: subscribe_from_child_def Let_def propagate_subscription_def announce_def surveyed_def split: if_splits)
  from subscribe_from_child_active [OF run known]
  show "find_child_by_addr c b' \<in> set (active_children b' key)" by (simp add: find_child_by_addr_def)
qed

section \<open>The way up\<close>

text \<open>From a node by its ancestors to the root.\<close>

fun climbs :: "('a \<Rightarrow> 'a option) \<Rightarrow> 'a list \<Rightarrow> bool" where
  "climbs F (x # n # xs) \<longleftrightarrow> F x = Some n \<and> climbs F (n # xs)"
| "climbs F [x] \<longleftrightarrow> F x = None"
| "climbs F [] \<longleftrightarrow> True"

lemma climbs_drop: "climbs F (xs @ ys) \<Longrightarrow> climbs F ys"
proof (induction xs)
  case (Cons x xs)
  then show ?case by (cases "xs @ ys") auto
qed simp

lemma climbs_depth:
  assumes tree: "rooted F depth"
  shows "climbs F (x # xs) \<Longrightarrow> y \<in> set xs \<Longrightarrow> depth y < depth x"
proof (induction xs arbitrary: x)
  case (Cons n xs)
  then have "depth n < depth x" using tree by (simp add: rooted_def)
  with Cons show ?case by fastforce
qed simp

lemma climbs_fresh: "rooted F depth \<Longrightarrow> climbs F (x # xs) \<Longrightarrow> x \<notin> set xs"
  using climbs_depth [of F depth x xs x] by blast

lemma climbs_father: "climbs F (x # xs) \<Longrightarrow> c \<in> set (x # xs) \<Longrightarrow> F c = Some n \<Longrightarrow> n \<in> set xs"
proof (induction xs arbitrary: x)
  case (Cons m xs)
  then show ?case by (cases "c = x") auto
qed simp

lemma climbs_one_son:
  assumes tree: "rooted F depth"
  shows "climbs F xs \<Longrightarrow> c \<in> set xs \<Longrightarrow> c' \<in> set xs \<Longrightarrow> F c = Some n \<Longrightarrow> F c' = Some n \<Longrightarrow> c = c'"
proof (induction xs)
  case (Cons x xs)
  have rest: "climbs F xs" using Cons.prems(1) climbs_drop [of F "[x]" xs] by simp
  have no: "False" if d: "d \<in> set xs" "F x = F d" "F d = Some n" for d
  proof -
    obtain m ys where xs: "xs = m # ys" using d(1) by (cases xs) auto
    then have "m = n" using Cons.prems(1) d by simp
    then have "n \<in> set ys" using climbs_father [OF rest [unfolded xs]] d xs by blast
    then show False using climbs_fresh [OF tree rest [unfolded xs]] \<open>m = n\<close> by simp
  qed
  show ?case using Cons.IH [OF rest] Cons.prems no [of c] no [of c'] by auto
qed simp

lemma climbs_above: "climbs F (x # xs) \<Longrightarrow> x \<in> below F a \<Longrightarrow> a \<in> set (x # xs)"
proof (induction xs arbitrary: x)
  case Nil
  from Nil(2,1) show ?case by (cases rule: below.cases) auto
next
  case (Cons n xs)
  from Cons.prems(2) show ?case
  proof (cases rule: below.cases)
    case (son c)
    with Cons.prems(1) have "n \<in> below F a" by simp
    with Cons.IH Cons.prems(1) show ?thesis by auto
  qed simp
qed

text \<open>What a client asks for, from where, and the key it is known by.\<close>

record interest =
  rq_client :: sockaddr
  rq_at :: sockaddr
  rq_name :: string
  rq_key :: string
  rq_lat :: f32
  rq_lon :: f32
  rq_bvals :: "(string \<times> string) option"

definition rq_packet :: "interest \<Rightarrow> byte list" where
  "rq_packet S = sub_packet (rq_name S) (rq_lat S) (rq_lon S) False (rq_bvals S)"

definition rq_entry :: "interest \<Rightarrow> geo_client" where
  "rq_entry S = new_client (rq_client S) (rq_lat S) (rq_lon S)
     (map_option fst (rq_bvals S)) (map_option snd (rq_bvals S))"

text \<open>
  The network in which it is asked: the way from the first broker to the root, on which the key is
  new, regions made of the coordinates \<open>V\<close>, and datagrams that fit the buffer of the receiver.
\<close>

definition rq_short :: "interest \<Rightarrow> bool" where
  "rq_short S \<longleftrightarrow> length (rq_name S) < 2 ^ 16 \<and> short_pair (rq_bvals S) \<and>
     length (rq_packet S) \<le> recv_buffer \<and> length (rq_key S) \<le> 4064"

definition coords_closed :: "fp set \<Rightarrow> interest \<Rightarrow> bool" where
  "coords_closed V S \<longleftrightarrow> (\<forall>x \<in> V. widen (narrow x) \<in> V) \<and> widen (rq_lat S) \<in> V \<and> widen (rq_lon S) \<in> V"

definition new_request :: "env \<Rightarrow> interest \<Rightarrow> network \<Rightarrow> sockaddr list \<Rightarrow> bool" where
  "new_request E S N zs \<longleftrightarrow> climbs (father N) (rq_at S # zs) \<and> rq_short S \<and>
     (\<forall>y \<in> set (rq_at S # zs). \<forall>b. brokers N y = Some b \<longrightarrow> rq_key S \<notin> set (ot_parent b)) \<and>
     (\<exists>b. brokers N (rq_at S) = Some b \<and> um_at [] (subscribers b) (rq_key S) = [] \<and>
        rq_key S = sub_key_of E b (rq_name S) (map_option fst (rq_bvals S)))"

section \<open>What is on its way, and what is known\<close>

text \<open>The datagram that brings the subscription to a node of the way.\<close>

definition asks :: "interest \<Rightarrow> network \<Rightarrow> sockaddr list \<Rightarrow> sockaddr \<Rightarrow> packet \<Rightarrow> bool" where
  "asks S N zs y p \<longleftrightarrow> pk_dst p = y \<and>
     (y = rq_at S \<and> pk_src p = rq_client S \<and> pk_body p = rq_packet S \<or>
      pk_src p \<in> set zs \<and> father N (pk_src p) = Some y \<and> (\<exists>cfg. pk_body p = subscribe_packet cfg (rq_key S)))"

lemma asks_at:
  assumes "new_request E S N zs" and "asks S N zs' y p"
  shows "at_broker N (pk_dst p)"
  using assms by (auto simp: asks_def new_request_def at_broker_def father_def split: option.splits if_splits)

text \<open>What a node has noted when it has been there.\<close>

definition knows :: "interest \<Rightarrow> network \<Rightarrow> sockaddr list \<Rightarrow> sockaddr \<Rightarrow> broker \<Rightarrow> bool" where
  "knows S N zs y b \<longleftrightarrow>
     (y = rq_at S \<longrightarrow> um_find (subscribers b) (rq_key S) = Some [rq_entry S]) \<and>
     (\<forall>c \<in> set zs. father N c = Some y \<longrightarrow> find_child_by_addr c b \<in> set (active_children b (rq_key S)))"

lemma knows_cong:
  assumes "registers b' = registers b" and "calm b' b" and "knows S N zs y b"
  shows "knows S N zs y b'"
proof -
  have "child_table b' = child_table b" using assms(2) by (simp add: calm_def neighbours_def)
  from find_child_table [OF this] assms(1,3) show ?thesis
    by (simp add: knows_def registers_def active_children_def)
qed

text \<open>A region update at any broker.\<close>

lemma told_received:
  assumes wf: "broker_wf b" and d: "told V (ev_bytes ev)" and run: "receive E ev b = Inr (b', out)"
    and V: "\<forall>x \<in> V. widen (narrow x) \<in> V" and b: "surveyed V b"
  shows "calm b' b" and "registers b' = registers b" and "surveyed V b'" and "\<forall>act \<in> set out. told V (out_data act)"
proof -
  have "calm b' b \<and> registers b' = registers b \<and> surveyed V b' \<and> (\<forall>act \<in> set out. told V (out_data act))"
    using run refl
  proof (cases rule: receive_cases)
    case handled
    obtain x where x: "ev_bytes ev = region_packet x" using d by (auto simp: told_def)
    have "tlv_message (take recv_buffer (ev_bytes ev)) = tlv_message (ev_bytes ev)"
      by (rule whole_cut) (use handled(1) in \<open>simp_all add: x\<close>)
    then have "handle_region_update (tlv_message (ev_bytes ev)) b = (b', out)"
      using handled(2) region_view(2) [of x] by (simp add: handle_message_def x)
    from region_update_calm [OF wf this d V b] show ?thesis by blast
  qed (use b in \<open>simp add: calm_refl\<close>)
  then show "calm b' b" "registers b' = registers b" "surveyed V b'" "\<forall>act \<in> set out. told V (out_data act)"
    by blast+
qed

lemma calm_count: "calm (b\<lparr>stat_sub_received := n\<rparr>) b"
  by (intro calm_children) (simp_all add: same_setup_def)

lemma surveyed_count [simp]: "surveyed V (b\<lparr>stat_sub_received := n\<rparr>) = surveyed V b"
  by (simp add: surveyed_def)

lemma find_child_count [simp]: "find_child_by_addr a (b\<lparr>stat_sub_received := n\<rparr>) = find_child_by_addr a b"
  by (simp add: find_child_by_addr_def)

text \<open>The subscription at a node of the way.\<close>

lemma asks_received:
  assumes rooted: "rooted (father N) depth" and tidy: "tidy N" and new: "new_request E S N zs" and V: "coords_closed V S"
    and p: "asks S N (rq_at S # zs) y p" and y: "y \<in> set (rq_at S # zs)" and b0: "brokers N y = Some b0"
    and b: "calm b b0" "registers b = registers b0" "surveyed V b"
    and ev: "ev_bytes ev = pk_body p" "ev_from ev = pk_src p" and run: "receive E ev b = Inr (b', out)"
  shows "calm b' b" and "surveyed V b'" and "knows S N (rq_at S # zs) y b'"
    and "\<exists>rs. out = rs @ (if has_parent b then [announce b (rq_key S)] else []) \<and> (\<forall>act \<in> set rs. told V (out_data act))"
proof -
  let ?zs = "rq_at S # zs" and ?b = "b\<lparr>stat_sub_received := stat_sub_received b + 1\<rparr>"
  note req = new [unfolded new_request_def] and short = conjunct1 [OF conjunct2 [OF req], unfolded rq_short_def]
  have way: "climbs (father N) ?zs" and fresh: "rq_key S \<notin> set (ot_parent ?b)"
    using req y b0 b(2) by (auto simp: registers_def)
  have "calm b' b \<and> surveyed V b' \<and> knows S N ?zs y b' \<and>
    (\<exists>rs. out = rs @ (if has_parent b then [announce b (rq_key S)] else []) \<and> (\<forall>act \<in> set rs. told V (out_data act)))"
    using p unfolding asks_def
  proof (elim conjE disjE exE)
    assume here: "y = rq_at S" "pk_src p = rq_client S" "pk_body p = rq_packet S"
    let ?m = "tlv_message (rq_packet S)"
    have bytes: "ev_bytes ev = rq_packet S" by (simp add: ev here)
    note v = sub_view [of "rq_name S" "rq_bvals S" ?m "rq_lat S" "rq_lon S" False, folded rq_packet_def]
    have run': "subscribe_local E (ev_t1 ev) ?m (rq_name S) (rq_lat S) (rq_lon S) 0 (rq_client S) ?b = (b', out)"
      using receive_sub [of "rq_name S" "rq_bvals S" ev "rq_lat S" "rq_lon S" False E b] run short
      by (simp add: bytes ev(2) here(2) flip: rq_packet_def)
    have "rq_key S = sub_key_of E b0 (rq_name S) (map_option fst (rq_bvals S))" "um_at [] (subscribers b0) (rq_key S) = []"
      using req b0 here(1) by auto
    then have key: "rq_key S = sub_key_of E ?b (rq_name S) (get_blinded_value ?m)"
      and none: "um_at [] (subscribers ?b) (rq_key S) = []"
      using b(1,2) v(4) short by (simp_all add: sub_key_of_def calm_def same_setup_def registers_def)
    have none_below: "father N c \<noteq> Some y" if "c \<in> set ?zs" for c
      using climbs_father [OF way that] climbs_fresh [OF rooted way] here(1) by blast
    note s = subscribe_local_calm [where V = V, OF run' key fresh]
    have ann: "announce ?b = announce b" by (rule announce_cong) simp_all
    have "um_find (subscribers b') (rq_key S) = Some [rq_entry S]"
      using s(3) none v(4,5) short b(3) V by (simp add: rq_entry_def coords_closed_def)
    with none_below show ?thesis
      using s(1,2,4) b(3) V calm_trans [OF _ calm_count] ann by (auto simp: knows_def coords_closed_def)
  next
    fix cfg assume sent: "pk_src p \<in> set ?zs" "father N (pk_src p) = Some y" "pk_body p = subscribe_packet cfg (rq_key S)"
    have run': "subscribe_from_child (rq_key S) (pk_src p) ?b = (b', out)"
      using receive_subscribe [of ev cfg "rq_key S" E b] run short by (simp add: ev sent(3))
    have table: "child_table b = child_table b0" using b(1) by (simp add: calm_def neighbours_def)
    have known: "find_child_by_addr (pk_src p) ?b \<noteq> []"
      using tidy_facts(3) [OF tidy b0 sent(2)] find_child_table [OF table] by simp
    note s = subscribe_from_child_calm [OF run' known fresh]
    have ann: "announce ?b = announce b" by (rule announce_cong) simp_all
    have "y \<noteq> rq_at S" using climbs_father [OF way sent(1,2)] climbs_fresh [OF rooted way] by blast
    moreover have "c = pk_src p" if "c \<in> set ?zs" "father N c = Some y" for c
      using climbs_one_son [OF rooted way that(1) sent(1) that(2) sent(2)] .
    ultimately have "knows S N ?zs y b'" using s(4) unfolding knows_def by metis
    then show ?thesis using s(1,3,5) b(3) calm_trans [OF _ calm_count] ann by (intro conjI exI [of _ "[]"]) auto
  qed
  then show "calm b' b" "surveyed V b'" "knows S N ?zs y b'"
    "\<exists>rs. out = rs @ (if has_parent b then [announce b (rq_key S)] else []) \<and> (\<forall>act \<in> set rs. told V (out_data act))"
    by blast+
qed

section \<open>The invariant\<close>

text \<open>
  The nodes of \<open>xs\<close> are still to be reached, the others of the way \<open>zs\<close> know; everything else in
  flight are region updates, or has left the brokers.
\<close>

definition aside_packet :: "fp set \<Rightarrow> network \<Rightarrow> packet \<Rightarrow> bool" where
  "aside_packet V N q \<longleftrightarrow> (at_broker N (pk_dst q) \<longrightarrow> told V (pk_body q))"

definition calm_net :: "fp set \<Rightarrow> network \<Rightarrow> network \<Rightarrow> bool" where
  "calm_net V N0 N \<longleftrightarrow> (\<forall>a. rel_option calm (brokers N a) (brokers N0 a)) \<and>
     (\<forall>a b. brokers N a = Some b \<longrightarrow> surveyed V b)"

definition informed :: "interest \<Rightarrow> network \<Rightarrow> sockaddr list \<Rightarrow> sockaddr list \<Rightarrow> network \<Rightarrow> bool" where
  "informed S N0 zs xs N \<longleftrightarrow> (\<forall>y \<in> set zs. \<forall>b b0. brokers N y = Some b \<longrightarrow> brokers N0 y = Some b0 \<longrightarrow>
     (if y \<in> set xs then registers b = registers b0 else knows S N0 zs y b))"

definition climbing :: "fp set \<Rightarrow> interest \<Rightarrow> network \<Rightarrow> sockaddr list \<Rightarrow> sockaddr list \<Rightarrow> network \<Rightarrow> bool" where
  "climbing V S N0 zs xs N \<longleftrightarrow> calm_net V N0 N \<and> informed S N0 zs xs N \<and>
     (\<exists>ps rest. in_flight N = mset ps + rest \<and> (\<forall>q \<in># rest. aside_packet V N0 q) \<and>
        (case xs of [] \<Rightarrow> ps = [] | y # ys \<Rightarrow> \<exists>p. ps = [p] \<and> asks S N0 zs y p))"

lemma calm_net_same:
  assumes "calm_net V N0 N"
  shows "same_neighbours N N0"
  unfolding same_neighbours_def
proof
  fix a
  have "rel_option calm (brokers N a) (brokers N0 a)" using assms by (simp add: calm_net_def)
  then show "map_option neighbours (brokers N a) = map_option neighbours (brokers N0 a)"
    by (cases rule: option.rel_cases) (simp_all add: calm_def)
qed

lemma calm_net_at:
  assumes "calm_net V N0 N" and "brokers N a = Some b"
  obtains b0 where "brokers N0 a = Some b0" and "calm b b0" and "surveyed V b"
proof -
  have "rel_option calm (brokers N a) (brokers N0 a)" using assms(1) unfolding calm_net_def by blast
  moreover have "surveyed V b" using assms unfolding calm_net_def by blast
  ultimately show thesis using assms(2) that by (auto simp: option_rel_Some1)
qed

lemma calm_net_update:
  assumes net: "calm_net V N0 N" and b: "brokers N a = Some b" and b': "calm b' b" "surveyed V b'"
    and N': "brokers N' = (brokers N)(a \<mapsto> b')"
  shows "calm_net V N0 N'"
proof -
  obtain b0 where "brokers N0 a = Some b0" "calm b b0" by (rule calm_net_at [OF net b])
  with calm_trans [OF b'(1)] have "rel_option calm (Some b') (brokers N0 a)" by simp
  then show ?thesis using net b'(2) by (simp add: calm_net_def N')
qed

text \<open>A broker that does not get the subscription.\<close>

lemma informed_other:
  assumes inf: "informed S N0 zs xs N" and b: "brokers N a = Some b" and b': "registers b' = registers b" "calm b' b"
    and N': "brokers N' = (brokers N)(a \<mapsto> b')"
  shows "informed S N0 zs xs N'"
  using inf b b' knows_cong [OF b'] unfolding informed_def by (auto simp: N')

text \<open>The one that gets it.\<close>

lemma informed_next:
  assumes inf: "informed S N0 zs (y # ys) N" and known: "knows S N0 zs y b'" and y: "y \<notin> set ys"
    and N': "brokers N' = (brokers N)(y \<mapsto> b')"
  shows "informed S N0 zs ys N'"
  using assms unfolding informed_def by auto

text \<open>What else is in flight changes nothing of this.\<close>

lemma aside_delivered:
  assumes tree: "broker_tree depth D N" and V: "coords_closed V S" and net: "calm_net V N0 N"
    and inf: "informed S N0 zs xs N" and q: "aside_packet V N0 q" and b: "brokers N (pk_dst q) = Some b"
    and ev: "ev_bytes ev = pk_body q" and run: "receive E ev b = Inr (b', out)"
    and N': "brokers N' = (brokers N)(pk_dst q \<mapsto> b')"
  shows "calm_net V N0 N'" and "informed S N0 zs xs N'" and "act \<in> set out \<Longrightarrow> aside_packet V N0 (emit a act)"
proof -
  have wf: "broker_wf b" using tree b by (auto simp: broker_tree_def broker_placed_def)
  obtain b0 where b0: "brokers N0 (pk_dst q) = Some b0" "surveyed V b" by (rule calm_net_at [OF net b])
  then have "told V (ev_bytes ev)" using q by (simp add: aside_packet_def at_broker_def ev)
  note r = told_received [OF wf this run conjunct1 [OF V [unfolded coords_closed_def]] b0(2)]
  show "calm_net V N0 N'" by (rule calm_net_update [OF net b r(1,3) N'])
  show "informed S N0 zs xs N'" by (rule informed_other [OF inf b r(2,1) N'])
  show "act \<in> set out \<Longrightarrow> aside_packet V N0 (emit a act)" using r(4) by (simp add: aside_packet_def)
qed

text \<open>The subscription is handed on.\<close>

lemma asks_delivered:
  assumes tree: "broker_tree depth D N" and tidy: "tidy N0" and V: "coords_closed V S"
    and new: "new_request E S N0 zs" and zs: "rq_at S # zs = ds @ y # ys"
    and net: "calm_net V N0 N" and inf: "informed S N0 (rq_at S # zs) (y # ys) N"
    and p: "asks S N0 (rq_at S # zs) y p" and b: "brokers N y = Some b"
    and ev: "ev_bytes ev = pk_body p" "ev_from ev = pk_src p" and run: "receive E ev b = Inr (b', out)"
    and N': "brokers N' = (brokers N)(y \<mapsto> b')" "in_flight N' = mset (map (emit y) out) + rest"
    and rest: "\<forall>q \<in># rest. aside_packet V N0 q"
  shows "climbing V S N0 (rq_at S # zs) ys N'"
proof -
  let ?zs = "rq_at S # zs" and ?ann = "emit y (announce b (rq_key S))"
  note eq = same_neighbours_at [OF calm_net_same [OF net]]
  have rooted: "rooted (father N0) depth" using tree_rooted [OF tree] by (simp add: eq)
  have way: "climbs (father N0) (y # ys)"
    using new zs climbs_drop [of "father N0" ds "y # ys"] by (simp add: new_request_def)
  have y: "y \<in> set ?zs" by (simp add: zs)
  obtain b0 where b0: "brokers N0 y = Some b0" "calm b b0" "surveyed V b" by (rule calm_net_at [OF net b])
  have reg: "registers b = registers b0" using inf b b0(1) y unfolding informed_def by fastforce
  note r = asks_received [OF rooted tidy new V p y b0(1,2) reg b0(3) ev run]
  obtain rs where out: "out = rs @ (if has_parent b then [announce b (rq_key S)] else [])"
    "\<forall>act \<in> set rs. told V (out_data act)" using r(4) by blast
  have inf': "informed S N0 ?zs ys N'"
    by (rule informed_next [OF inf r(3) climbs_fresh [OF rooted way] N'(1)])
  have net': "calm_net V N0 N'" by (rule calm_net_update [OF net b r(1,2) N'(1)])
  have told: "\<forall>s \<in># mset (map (emit y) rs) + rest. aside_packet V N0 s"
    using rest out(2) by (auto simp: aside_packet_def)
  have fb: "father N0 y = (if has_parent b \<and> at_broker N0 (parent_addr b) then Some (parent_addr b) else None)"
    using b by (simp add: father_def flip: eq)
  show ?thesis
  proof (cases ys)
    case Nil
    then have "\<not> (has_parent b \<and> at_broker N0 (parent_addr b))" using way fb by (auto split: if_splits)
    then have "\<forall>s \<in># in_flight N'. aside_packet V N0 s"
      using told by (auto simp: N'(2) out(1) aside_packet_def announce_def)
    then show ?thesis using net' inf' by (simp add: climbing_def Nil)
  next
    case (Cons n us)
    then have n: "father N0 y = Some n" using way by simp
    then have up: "has_parent b" "parent_addr b = n" using fb by (auto split: if_splits)
    have "asks S N0 ?zs n ?ann" using n y up by (auto simp: asks_def announce_def)
    moreover have "in_flight N' = mset [?ann] + (mset (map (emit y) rs) + rest)" using up by (simp add: N'(2) out(1))
    ultimately show ?thesis
      unfolding climbing_def using net' inf' told
      by (intro conjI exI [of _ "[?ann]"] exI [of _ "mset (map (emit y) rs) + rest"]) (simp_all add: Cons)
  qed
qed

lemma climbing_step:
  assumes tree: "broker_tree depth D N" and tidy: "tidy N0" and V: "coords_closed V S"
    and new: "new_request E S N0 zs" and zs: "rq_at S # zs = ds @ xs"
    and inv: "climbing V S N0 (rq_at S # zs) xs N" and step: "lossless_step E N N'"
  shows "climbing V S N0 (rq_at S # zs) xs N' \<or> xs \<noteq> [] \<and> climbing V S N0 (rq_at S # zs) (tl xs) N'"
proof -
  let ?zs = "rq_at S # zs"
  obtain ps rest where net: "calm_net V N0 N" and inf: "informed S N0 ?zs xs N"
    and flight: "in_flight N = mset ps + rest" and rest: "\<forall>q \<in># rest. aside_packet V N0 q"
    and ps: "case xs of [] \<Rightarrow> ps = [] | y # ys \<Rightarrow> \<exists>p. ps = [p] \<and> asks S N0 ?zs y p"
    using inv by (auto simp: climbing_def)
  have other: "climbing V S N0 ?zs xs N''" if "calm_net V N0 N''" "informed S N0 ?zs xs N''"
    "in_flight N'' = mset ps + rest'" "\<forall>q \<in># rest'. aside_packet V N0 q" for N'' rest'
    unfolding climbing_def using that ps by (intro conjI exI [of _ ps] exI [of _ rest'])
  from step show ?thesis
  proof (cases rule: lossless_step.cases)
    case (to_client q)
    have "q \<notin> set ps"
    proof
      assume "q \<in> set ps"
      then obtain y where "asks S N0 ?zs y q" using ps by (auto split: list.splits)
      from asks_at [OF new this] have "at_broker N (pk_dst q)"
        by (simp add: same_neighbours_at [OF calm_net_same [OF net]])
      then show False using to_client(3) by (simp add: at_broker_def)
    qed
    then have "q \<in># rest" using to_client(2) flight by simp
    then have "in_flight N' = mset ps + (rest - {#q#})" using to_client(1) flight by (simp add: multiset_eq_iff)
    moreover have "calm_net V N0 N'" "informed S N0 ?zs xs N'"
      using net inf to_client(1) by (simp_all add: calm_net_def informed_def)
    ultimately show ?thesis using other rest by (meson in_diffD)
  next
    case (deliver q b ev b' out)
    note N' = deliver(1) [unfolded after_delivery_to_def]
    have upd: "brokers N' = (brokers N)(pk_dst q \<mapsto> b')" by (simp add: N')
    show ?thesis
    proof (cases "q \<in># rest")
      case True
      note d = aside_delivered [OF tree V net inf bspec [OF rest True] deliver(3,4,6) upd]
      have "in_flight N' = mset ps + ((rest - {#q#}) + mset (map (emit (pk_dst q)) out))"
        using True by (simp add: N' flight multiset_eq_iff)
      moreover have "\<forall>s \<in># (rest - {#q#}) + mset (map (emit (pk_dst q)) out). aside_packet V N0 s"
        using rest d(3) by (auto dest: in_diffD)
      ultimately show ?thesis using other d(1,2) by blast
    next
      case False
      then have "q \<in> set ps" using deliver(2) flight by simp
      then obtain y ys where xs: "xs = y # ys" "ps = [q]" "asks S N0 ?zs y q" using ps by (auto split: list.splits)
      have dst: "pk_dst q = y" using xs(3) by (simp add: asks_def)
      have "climbing V S N0 ?zs ys N'"
        by (rule asks_delivered [OF tree tidy V new zs [unfolded xs] net inf [unfolded xs] xs(3) _ deliver(4-6) _ _ rest])
          (use deliver(3) in \<open>simp_all add: N' dst flight xs(2)\<close>)
      then show ?thesis by (simp add: xs)
    qed
  qed
qed

section \<open>The subscription arrives everywhere\<close>

text \<open>What holds when the network is quiet again.\<close>

definition settled :: "fp set \<Rightarrow> interest \<Rightarrow> network \<Rightarrow> sockaddr list \<Rightarrow> network \<Rightarrow> bool" where
  "settled V S N0 zs N \<longleftrightarrow> calm_net V N0 N \<and> (\<forall>y \<in> set zs. \<forall>b. brokers N y = Some b \<longrightarrow> knows S N0 zs y b)"

theorem subscription_climbs:
  assumes tree: "broker_tree depth D (f 0)" and tidy: "tidy (f 0)" and run: "maximal_run (lossless_step E) f"
    and V: "coords_closed V S" "\<And>a b. brokers (f 0) a = Some b \<Longrightarrow> surveyed V b"
    and new: "new_request E S (f 0) zs"
    and flight: "in_flight (f 0) = {#\<lparr>pk_src = rq_client S, pk_dst = rq_at S, pk_body = rq_packet S\<rparr>#}"
  shows "\<exists>i. in_flight (f i) = {#} \<and> settled V S (f 0) (rq_at S # zs) (f i)"
proof -
  let ?zs = "rq_at S # zs" and ?p = "\<lparr>pk_src = rq_client S, pk_dst = rq_at S, pk_body = rq_packet S\<rparr>"
  have "rel_option calm (brokers (f 0) a) (brokers (f 0) a)" for a
    by (cases "brokers (f 0) a") (simp_all add: calm_refl)
  then have start: "climbing V S (f 0) ?zs ?zs (f 0)"
    unfolding climbing_def using V(2) flight
    by (intro conjI exI [of _ "[?p]"] exI [of _ "{#}"]) (auto simp: calm_net_def informed_def asks_def)
  have "\<exists>ds xs. ?zs = ds @ xs \<and> climbing V S (f 0) ?zs xs (f j)" for j
  proof (induction j)
    case 0
    show ?case using start by (intro exI [of _ "[]"] exI [of _ ?zs]) simp
  next
    case (Suc j)
    then obtain ds xs where xs: "?zs = ds @ xs" "climbing V S (f 0) ?zs xs (f j)" by blast
    from run consider "lossless_step E (f j) (f (Suc j))" | "f (Suc j) = f j" by (auto simp: maximal_run_def)
    then show ?case
    proof cases
      case 1
      from climbing_step [OF maximal_run_tree [OF tree run] tidy V(1) new xs 1] show ?thesis
      proof (elim disjE conjE)
        assume "xs \<noteq> []" "climbing V S (f 0) ?zs (tl xs) (f (Suc j))"
        moreover from this have "?zs = (ds @ [hd xs]) @ tl xs" using xs(1) by simp
        ultimately show ?thesis by blast
      qed (use xs(1) in blast)
    qed (use xs in metis)
  qed
  moreover obtain i where i: "in_flight (f i) = {#}" using maximal_run_drains [OF tree run] by blast
  ultimately obtain xs where xs: "climbing V S (f 0) ?zs xs (f i)" by blast
  then have "xs = []" using i by (cases xs) (auto simp: climbing_def)
  then have net: "calm_net V (f 0) (f i)" and inf: "informed S (f 0) ?zs [] (f i)"
    using xs by (simp_all add: climbing_def)
  have "knows S (f 0) ?zs y b" if "y \<in> set ?zs" "brokers (f i) y = Some b" for y b
    using inf that calm_net_at [OF net that(2)] unfolding informed_def by (metis list.set(1) empty_iff)
  then have "settled V S (f 0) ?zs (f i)" using net by (simp add: settled_def)
  with i show ?thesis by blast
qed

end
