(* ===== verification/Round_Trip.thy ===== *)
theory Round_Trip
  imports Climbing
begin

text \<open>
  A subscription and then a publication in a tree of brokers of any depth: once the subscription
  has climbed to the root and the network is quiet, the way from any broker to the subscriber is
  open, and a publication sent there arrives.
\<close>

section \<open>The way back\<close>

text \<open>
  A broker that has seen no publication of the key in its quadrant yet, and whose children have the
  distances they start with and names that are not taken for a sender.
\<close>

definition untouched :: "journey \<Rightarrow> broker \<Rightarrow> bool" where
  "untouched J b \<longleftrightarrow> window_at (brake_count_up b) (jn_key J) (get_quadrant (jn_lat J) (jn_lon J)) = [] \<and>
     window_at (brake_count_local b) (jn_key J) (get_quadrant (jn_lat J) (jn_lon J)) = [] \<and>
     1 \<le> sint (brake_limit (config b)) \<and>
     (\<forall>(i, q) \<in> set (quads b). i \<noteq> ''parent'' \<and> i \<noteq> client_addr_str (jn_origin J) \<and> q = replicate 4 DBL_MAX)"

lemma untouched_calm: "calm b' b \<Longrightarrow> untouched J b \<Longrightarrow> untouched J b'"
  by (simp add: untouched_def calm_def same_setup_def)

text \<open>The publication answers the request.\<close>

definition answers :: "env \<Rightarrow> interest \<Rightarrow> journey \<Rightarrow> network \<Rightarrow> bool" where
  "answers E S J N \<longleftrightarrow> jn_key J = rq_key S \<and> jn_client J = rq_client S \<and>
     flt (geo_distance (lib_cos E) (widen (jn_lat J)) (widen (jn_lon J)) (widen (rq_lat S)) (widen (rq_lon S))) DBL_MAX \<and>
     (\<forall>b. brokers N (rq_at S) = Some b \<longrightarrow> passes_match E b (rq_entry S) (jn_bval J))"

definition reachable_regions :: "env \<Rightarrow> fp set \<Rightarrow> journey \<Rightarrow> bool" where
  "reachable_regions E V J \<longleftrightarrow>
     (\<forall>c. coords_in V (ch_region c) \<longrightarrow> flt (child_dist E c (jn_lat J) (jn_lon J)) DBL_MAX)"

lemma open_down_child:
  assumes reg: "reachable_regions E V J" and b: "surveyed V b" "untouched J b"
    and i: "find_child_by_addr n b \<noteq> []" "find_child_by_addr n b \<in> set (active_children b (jn_key J))"
    and wf: "broker_wf b"
  shows "open_down E J b n"
proof -
  let ?i = "find_child_by_addr n b"
  obtain c where c: "um_find (children b) ?i = Some c"
    using find_child_in_table [OF i(1)] um_in_set_find [of "children b"] wf
    by (auto simp: child_table_def broker_wf_def children_wf_def)
  then have "(?i, closest_quad c) \<in> set (quads b)" by (force simp: quads_def dest: um_find_in_set)
  then have q: "?i \<noteq> ''parent''" "?i \<noteq> client_addr_str (jn_origin J)" "closest_quad c = replicate 4 DBL_MAX"
    using b(2) by (auto simp: untouched_def)
  have "child_quad c (jn_lat J) (jn_lon J) < 4" unfolding child_quad_def by (rule quadrant_of_bound)
  moreover have "flt (child_dist E c (jn_lat J) (jn_lon J)) DBL_MAX"
    using reg surveyed_found [OF b(1) c] by (simp add: reachable_regions_def)
  ultimately show ?thesis using q i c by (simp add: open_down_def child_accepts_def Let_def)
qed

lemma open_local_entry:
  assumes ans: "answers E S J N0" and b0: "brokers N0 (rq_at S) = Some b0" and b: "calm b b0" "untouched J b"
    and known: "um_find (subscribers b) (rq_key S) = Some [rq_entry S]"
  shows "open_local E J b"
proof -
  have "passes_match E b (rq_entry S) (jn_bval J)"
    using ans b0 b(1) passes_match_setup [of b b0 E "rq_entry S" "jn_bval J"] by (simp add: answers_def calm_def)
  moreover have "closer (lib_cos E) (jn_lat J) (jn_lon J) (rq_entry S)" "gc_addr (rq_entry S) = jn_client J"
    using ans by (simp_all add: answers_def closer_def client_dist_def rq_entry_def new_client_def Let_def
        split: option.split)
  ultimately show ?thesis using b(2) known ans by (simp add: open_local_def um_at_def untouched_def answers_def)
qed

lemma father_at: "father N c = Some a \<Longrightarrow> at_broker N c \<and> at_broker N a"
  by (auto simp: father_def at_broker_def split: option.splits if_splits)

lemma settled_open:
  assumes tree: "broker_tree depth D N" and tidy: "tidy N0" and set: "settled V S N0 (rq_at S # zs) N"
    and way: "climbs (father N0) (rq_at S # zs)" and ans: "answers E S J N0" and reg: "reachable_regions E V J"
    and unt: "\<And>a b. brokers N0 a = Some b \<Longrightarrow> untouched J b"
  shows "at_broker N x \<Longrightarrow> tree_path (father N0) (x # xs) \<Longrightarrow> last (x # xs) = rq_at S \<Longrightarrow> open_path E N J (x # xs)"
proof (induction xs arbitrary: x)
  have net: "calm_net V N0 N" using set by (simp add: settled_def)
  note eq = same_neighbours_at [OF calm_net_same [OF net]]
  case Nil
  then obtain b where b: "brokers N (rq_at S) = Some b" by (auto simp: at_broker_def)
  obtain b0 where b0: "brokers N0 (rq_at S) = Some b0" "calm b b0" by (rule calm_net_at [OF net b])
  have "knows S N0 (rq_at S # zs) (rq_at S) b" using set b by (simp add: settled_def)
  then have "open_local E J b"
    using open_local_entry [OF ans b0 untouched_calm [OF b0(2) unt [OF b0(1)]]] by (simp add: knows_def)
  then show ?case using Nil b by simp
next
  have net: "calm_net V N0 N" using set by (simp add: settled_def)
  note eq = same_neighbours_at [OF calm_net_same [OF net]]
  case (Cons n xs)
  obtain b where b: "brokers N x = Some b" using Cons.prems(1) by (auto simp: at_broker_def)
  obtain b0 where b0: "brokers N0 x = Some b0" "calm b b0" "surveyed V b" by (rule calm_net_at [OF net b])
  have wf: "broker_wf b" using tree b by (auto simp: broker_tree_def broker_placed_def)
  have unt_b: "untouched J b" by (rule untouched_calm [OF b0(2) unt [OF b0(1)]])
  have "father N0 x = Some n \<or> father N0 n = Some x" using Cons.prems(2) by simp
  then have n: "at_broker N n" using father_at by (auto simp: eq)
  have "open_path E N J (n # xs)" using Cons.IH [OF n] Cons.prems(2,3) by simp
  moreover have "if father N x = Some n then open_up J b else open_down E J b n"
  proof (cases "father N0 x = Some n")
    case True
    then show ?thesis using unt_b by (simp add: eq open_up_def untouched_def)
  next
    case False
    then have nx: "father N0 n = Some x" using Cons.prems(2) by simp
    have "rq_at S \<in> set (n # xs)" using Cons.prems(3) last_in_set [of "n # xs"] by simp
    then have at_n: "rq_at S \<in> below (father N0) n" using path_down [where F = "father N0", OF nx] Cons.prems(2) by auto
    then have "rq_at S \<in> below (father N0) x" using son_below [where F = "father N0", OF nx] by blast
    note on = climbs_above [where F = "father N0", OF way at_n] climbs_above [where F = "father N0", OF way this]
    from set on(2) b have "knows S N0 (rq_at S # zs) x b" unfolding settled_def by blast
    then have "find_child_by_addr n b \<in> set (active_children b (rq_key S))" using on(1) nx unfolding knows_def by blast
    moreover have "child_table b = child_table b0" using b0(2) by (simp add: calm_def neighbours_def)
    then have "find_child_by_addr n b \<noteq> []" using tidy_facts(3) [OF tidy b0(1) nx] find_child_table by metis
    ultimately have "open_down E J b n"
      using open_down_child [OF reg b0(3) unt_b _ _ wf] ans by (simp add: answers_def)
    then show ?thesis using False by (simp add: eq)
  qed
  ultimately show ?case using b by simp
qed

section \<open>There and back\<close>

definition pub_datagram :: "journey \<Rightarrow> byte list" where
  "pub_datagram J = pub_packet (jn_name J) (jn_lat J) (jn_lon J) (jn_payload J) (jn_bval J)"

definition pub_sent :: "journey \<Rightarrow> sockaddr \<Rightarrow> network \<Rightarrow> network" where
  "pub_sent J x N = N\<lparr>in_flight := {#\<lparr>pk_src = jn_origin J, pk_dst = x, pk_body = pub_datagram J\<rparr>#}\<rparr>"

lemma pub_sent_sel [simp]:
  "brokers (pub_sent J x N) = brokers N"
  "in_flight (pub_sent J x N) = {#\<lparr>pk_src = jn_origin J, pk_dst = x, pk_body = pub_datagram J\<rparr>#}"
  "at_broker (pub_sent J x N) = at_broker N"
  by (simp_all add: pub_sent_def at_broker_def fun_eq_iff)

lemma pub_sent_father: "same_neighbours (pub_sent J x N) N"
  by (simp add: same_neighbours_def)

lemma pub_sent_tree:
  assumes tree: "broker_tree depth D N" and len: "length (pub_datagram J) \<le> recv_buffer"
  shows "broker_tree depth D (pub_sent J x N)"
proof -
  have "msg_type (tlv_message (take recv_buffer (pub_datagram J))) = PUBLISH"
    using len client_msg_type(2) by (simp add: pub_datagram_def)
  then show ?thesis using tree by (simp add: broker_tree_def packet_placed_def pk_msg_def)
qed

theorem subscribe_then_publish:
  assumes tree: "broker_tree depth D (f 0)" and tidy: "tidy (f 0)" and run: "maximal_run (lossless_step E) f"
    and V: "coords_closed V S" "\<And>a b. brokers (f 0) a = Some b \<Longrightarrow> surveyed V b \<and> untouched J b"
    and new: "new_request E S (f 0) zs"
    and flight: "in_flight (f 0) = {#\<lparr>pk_src = rq_client S, pk_dst = rq_at S, pk_body = rq_packet S\<rparr>#}"
    and ans: "answers E S J (f 0)" and reg: "reachable_regions E V J"
    and path: "tree_path (father (f 0)) (x # xs)" "last (x # xs) = rq_at S"
    and x: "brokers (f 0) x = Some b" "jn_key J = pub_key_of E b (jn_name J) (jn_bval J) 0"
    and len: "fits J" "length (jn_name J) < 2 ^ 16" "length (pub_datagram J) \<le> recv_buffer"
  shows "\<exists>i. in_flight (f i) = {#} \<and>
    (\<forall>g. g 0 = pub_sent J x (f i) \<longrightarrow> maximal_run (lossless_step E) g \<longrightarrow> (\<exists>j. arrived J (g j)))"
proof -
  obtain i where i: "in_flight (f i) = {#}" "settled V S (f 0) (rq_at S # zs) (f i)"
    using subscription_climbs [where V = V, OF tree tidy run V(1) _ new flight] V(2) by blast
  let ?N = "pub_sent J x (f i)"
  have net: "calm_net V (f 0) ?N" using i(2) by (simp add: settled_def calm_net_def)
  note same = calm_net_same [OF net] and eq = same_neighbours_at [OF calm_net_same [OF net]]
  have treeN: "broker_tree depth D ?N" by (rule pub_sent_tree [OF maximal_run_tree [OF tree run] len(3)])
  have setN: "settled V S (f 0) (rq_at S # zs) ?N" using i(2) by (simp add: settled_def calm_net_def)
  have way: "climbs (father (f 0)) (rq_at S # zs)" using new by (simp add: new_request_def)
  have at: "at_broker ?N x" unfolding eq using x(1) by (simp add: at_broker_def)
  then obtain b1 where b1: "brokers ?N x = Some b1" by (auto simp: at_broker_def)
  obtain b0 where "brokers (f 0) x = Some b0" "calm b1 b0" by (rule calm_net_at [OF net b1])
  then have key: "jn_key J = pub_key_of E b1 (jn_name J) (jn_bval J) 0"
    using x by (simp add: pub_key_of_def calm_def same_setup_def)
  have open': "open_path E ?N J (x # xs)"
    by (rule settled_open [OF treeN tidy setN way ans reg _ at path]) (use V(2) in blast)
  have "\<exists>j. arrived J (g j)" if g: "g 0 = ?N" "maximal_run (lossless_step E) g" for g
  proof (rule publication_arrives [where f = g and d = "pub_datagram J", OF _ _ g(2) _ _ len(1) _ key])
    show "broker_tree depth D (g 0)" "tidy (g 0)" "tree_path (father (g 0)) (x # xs)" "open_path E (g 0) J (x # xs)"
      using treeN same_neighbours_tidy [OF same tidy] path(1) open' by (simp_all add: g(1) eq)
  qed (use b1 len(2,3) in \<open>simp_all add: g(1) pub_datagram_def\<close>)
  with i(1) show ?thesis by blast
qed

end
