(* ===== verification/Assembly.thy ===== *)
theory Assembly
  imports Round_Trip
begin

text \<open>
  A tree of brokers from its construction: every broker says HELLO to its parent, in any order.
  When the network is quiet, the tables of parents and children agree; then a subscription climbs
  and a publication finds its way back.
\<close>

section \<open>Brokers that have just been started\<close>

definition constructed :: "env \<Rightarrow> os \<Rightarrow> 'r rng \<Rightarrow> broker \<Rightarrow> bool" where
  "constructed E Os R b \<longleftrightarrow> (\<exists>junk cfg fs s fs' s' logs. broker_new E Os R junk cfg fs s = Inr (b, fs', s', logs))"

definition fresh_broker :: "broker \<Rightarrow> bool" where
  "fresh_broker b \<longleftrightarrow> broker_wf b \<and> my_region b = config_region (config b) \<and> children b = [] \<and>
     subscribers b = [] \<and> child_active b = [] \<and> ot_parent b = [] \<and> brake_count_up b = [] \<and> brake_count_local b = []"

lemma constructed_fresh: "gmp_spec (lib_gmp E) \<Longrightarrow> rng_spec R \<Longrightarrow> constructed E Os R b \<Longrightarrow> fresh_broker b"
  by (auto simp: constructed_def fresh_broker_def broker_new_wf)

text \<open>The network in which each of them has called \<^verbatim>\<open>start\<close>.\<close>

definition started :: "(sockaddr \<times> broker) list \<Rightarrow> network" where
  "started bs = \<lparr>brokers = map_of bs,
     in_flight = mset (concat (map (\<lambda>(a, b). map (emit a) (start_actions b)) bs))\<rparr>"

text \<open>
  Addresses are different, parents are nearer to the root, and ids tell the children of a broker
  apart.
\<close>

definition proper_tree :: "(sockaddr \<Rightarrow> nat) \<Rightarrow> (sockaddr \<times> broker) list \<Rightarrow> bool" where
  "proper_tree depth bs \<longleftrightarrow> distinct (map fst bs) \<and>
     (\<forall>(a, b) \<in> set bs. length (broker_id (config b)) \<le> 4000 \<and> broker_id (config b) \<noteq> [] \<and>
        (has_parent b \<and> parent_addr b \<in> fst ` set bs \<longrightarrow> depth (parent_addr b) < depth a) \<and>
        (\<forall>(a', b') \<in> set bs. has_parent b \<and> has_parent b' \<and> parent_addr b' = parent_addr b \<and>
           broker_id (config b') = broker_id (config b) \<longrightarrow> a' = a))"

lemma started_sel [simp]: "brokers (started bs) = map_of bs"
  by (simp add: started_def)

lemma started_at: "at_broker (started bs) a \<longleftrightarrow> a \<in> fst ` set bs"
  by (simp add: at_broker_def map_of_eq_None_iff)

text \<open>The HELLO of a broker, and the answers.\<close>

definition hello_of :: "sockaddr \<Rightarrow> broker \<Rightarrow> packet" where
  "hello_of a b = \<lparr>pk_src = a, pk_dst = parent_addr b, pk_body = hello_packet (config b)\<rparr>"

definition acks :: "packet \<Rightarrow> bool" where
  "acks q \<longleftrightarrow> (\<exists>cfg. pk_body q = hello_ack_packet cfg)"

lemma started_flight: "q \<in># in_flight (started bs) \<longleftrightarrow> (\<exists>(a, b) \<in> set bs. has_parent b \<and> q = hello_of a b)"
  by (force simp: started_def start_actions_def hello_of_def emit_def)

lemma hello_whole [simp]: "whole (hello_packet cfg)"
proof -
  have "packet_ok (add_coordinates (cfg_lat cfg) (cfg_lon cfg) (add_service_name (broker_id cfg) (builder HELLO)))
     [(tlv_code SERVICE_NAME, bytes_of (wire_string (broker_id cfg))),
      (tlv_code COORDINATES, put32 (cfg_lat cfg) @ put32 (cfg_lon cfg))]"
    using holds_key_coords [of "cfg_lat cfg" "cfg_lon cfg" "broker_id cfg" HELLO] by (simp add: packet_ok_def)
  from built_whole [OF this] show ?thesis by (simp add: hello_packet_def)
qed

lemma started_tree:
  assumes ok: "proper_tree depth bs" and fresh: "\<And>a b. (a, b) \<in> set bs \<Longrightarrow> fresh_broker b"
  shows "broker_tree depth (Max (depth ` fst ` set bs)) (started bs)"
proof -
  have bs: "(a, b) \<in> set bs" if "brokers (started bs) a = Some b" for a b
    using that map_of_SomeD by fastforce
  have "broker_placed depth (at_broker (started bs)) a b" if "(a, b) \<in> set bs" for a b
    using ok fresh [OF that] that
    by (auto simp: broker_placed_def proper_tree_def fresh_broker_def started_at child_addrs_def client_addrs_def)
  moreover have "depth a \<le> Max (depth ` fst ` set bs)" if "(a, b) \<in> set bs" for a b
    using that by (intro Max_ge) force+
  moreover have "packet_placed depth (at_broker (started bs)) q" if "q \<in># in_flight (started bs)" for q
  proof -
    obtain a b where ab: "(a, b) \<in> set bs" "has_parent b" "q = hello_of a b" using \<open>q \<in># _\<close> started_flight by auto
    then have "depth (pk_dst q) < depth (pk_src q)" if "at_broker (started bs) (pk_dst q)"
      using that ok by (auto simp: proper_tree_def started_at hello_of_def)
    moreover have "valid (pk_msg q) \<Longrightarrow> msg_type (pk_msg q) = HELLO"
      using whole_cut [of "pk_body q" recv_buffer] hello_view(2) by (simp add: pk_msg_def ab(3) hello_of_def)
    ultimately show ?thesis by (simp add: packet_placed_def)
  qed
  ultimately show ?thesis using bs unfolding broker_tree_def by blast
qed

section \<open>Enrolment\<close>

text \<open>A broker that has done nothing but enrol children, all of the network \<open>N0\<close>.\<close>

definition enrolling :: "fp set \<Rightarrow> network \<Rightarrow> sockaddr \<Rightarrow> broker \<Rightarrow> broker \<Rightarrow> bool" where
  "enrolling V N0 a b b0 \<longleftrightarrow> broker_wf b \<and> same_setup b b0 \<and> subscribers b = [] \<and> ot_parent b = [] \<and>
     brake_count_up b = [] \<and> brake_count_local b = [] \<and> surveyed V b \<and>
     (\<forall>(i, q) \<in> set (quads b). q = replicate 4 DBL_MAX) \<and>
     (\<forall>(i, c) \<in> set (child_table b). \<exists>cb. brokers N0 c = Some cb \<and> has_parent cb \<and> parent_addr cb = a \<and>
        i = broker_id (config cb))"

lemma fresh_enrolling: "fresh_broker b \<Longrightarrow> coords_in V (config_region (config b)) \<Longrightarrow> enrolling V N0 a b b"
  by (simp add: enrolling_def fresh_broker_def surveyed_def quads_def child_table_def)

lemma table_finds:
  "broker_wf b \<Longrightarrow> (i, a) \<in> set (child_table b) \<longleftrightarrow> (\<exists>c. um_find (children b) i = Some c \<and> ch_addr c = a)"
  by (force simp: child_table_def broker_wf_def children_wf_def um_set_find)

text \<open>One HELLO.\<close>

lemma hello_enrols:
  assumes tree: "proper_tree depth bs" and b: "enrolling V (started bs) a b b0"
    and c: "(c, cb) \<in> set bs" "has_parent cb" "parent_addr cb = a" "coords_in V (config_region (config cb))"
    and ev: "ev_bytes ev = hello_packet (config cb)" "ev_from ev = c" and run: "receive E ev b = Inr (b', out)"
  shows "enrolling V (started bs) a b' b0" and "snd ` set (child_table b') = insert c (snd ` set (child_table b))"
    and "out = [SendTo c (hello_ack_packet (config b))]"
proof -
  let ?i = "broker_id (config cb)"
  let ?old = "um_at child_default (children b) ?i"
  let ?ch = "?old\<lparr>ch_id := ?i, ch_addr := c, ch_lat := cfg_lat (config cb), ch_lon := cfg_lon (config cb),
    ch_region := config_region (config cb)\<rparr>"
  have cb: "brokers (started bs) c = Some cb" and id: "length ?i \<le> 4000"
    using c(1) tree by (auto simp: proper_tree_def)
  have b': "b' = update_my_region (b\<lparr>children := um_put ?i ?ch (children b)\<rparr>)"
    and out: "out = [SendTo c (hello_ack_packet (config b))]"
    using hello_received [OF ev(1) id, of E b] run ev(2) by simp_all
  then have ch: "children b' = um_put ?i ?ch (children b)" by (simp add: update_my_region_def)
  have wf: "broker_wf b'" using receive_keeps [OF run] b by (simp add: enrolling_def keeps_def)
  have wf0: "broker_wf b" using b by (simp add: enrolling_def)
  have old: "closest_quad ?old = replicate 4 DBL_MAX"
  proof (cases "um_find (children b) ?i")
    case (Some d)
    then have "(?i, closest_quad d) \<in> set (quads b)" by (force simp: quads_def dest: um_find_in_set)
    then show ?thesis using b Some by (auto simp: enrolling_def um_at_def)
  qed (simp add: um_at_def child_default_def numeral_eq_Suc)
  have "set (quads b') \<subseteq> insert (?i, replicate 4 DBL_MAX) (set (quads b))"
    using um_put_subset [of ?i ?ch "children b"] old by (force simp: quads_def ch)
  then have q: "\<forall>(i, q) \<in> set (quads b'). q = replicate 4 DBL_MAX" using b by (fastforce simp: enrolling_def)
  have s: "surveyed V b'" unfolding b' using b c(4) by (intro surveyed_update surveyed_child) (simp_all add: enrolling_def)
  have table: "(i, d) \<in> set (child_table b') \<longleftrightarrow> (if i = ?i then d = c else (i, d) \<in> set (child_table b))" for i d
    using table_finds [OF wf] table_finds [OF wf0] by (auto simp: ch)
  have known: "\<exists>db. (d, db) \<in> set bs \<and> has_parent db \<and> parent_addr db = a \<and> i = broker_id (config db)"
    if "(i, d) \<in> set (child_table b)" for i d
    using b that unfolding enrolling_def by (fastforce dest: map_of_SomeD)
  have one: "d = c" if "(?i, d) \<in> set (child_table b)" for d
    using known [OF that] tree c(1-3) unfolding proper_tree_def by (elim exE conjE) (drule (1) bspec, fastforce)
  have kids: "\<exists>db. brokers (started bs) d = Some db \<and> has_parent db \<and> parent_addr db = a \<and> i = broker_id (config db)"
    if "(i, d) \<in> set (child_table b')" for i d
    using that b cb c(2,3) unfolding table enrolling_def by (cases "i = ?i") fastforce+
  have same: "same_setup b' b0"
    by (rule same_setup_trans [of b' b]) (use b in \<open>simp_all add: b' update_my_region_def same_setup_def enrolling_def\<close>)
  have rest: "subscribers b' = [] \<and> ot_parent b' = [] \<and> brake_count_up b' = [] \<and> brake_count_local b' = []"
    using b by (simp add: b' update_my_region_def enrolling_def)
  show "enrolling V (started bs) a b' b0"
    unfolding enrolling_def
  proof (intro conjI)
    show "\<forall>(i, d) \<in> set (child_table b'). \<exists>db. brokers (started bs) d = Some db \<and> has_parent db \<and>
        parent_addr db = a \<and> i = broker_id (config db)"
      using kids by blast
  qed (rule wf same s q | simp only: rest)+
  show "snd ` set (child_table b') = insert c (snd ` set (child_table b))"
  proof (rule set_eqI)
    fix d
    have ex: "d \<in> snd ` set T \<longleftrightarrow> (\<exists>i. (i, d) \<in> set T)" for T :: "(string \<times> sockaddr) list" by force
    show "d \<in> snd ` set (child_table b') \<longleftrightarrow> d \<in> insert c (snd ` set (child_table b))"
      unfolding insert_iff ex table using one [of d] by metis
  qed
  show "out = [SendTo c (hello_ack_packet (config b))]" by (rule out)
qed

section \<open>The invariant\<close>

text \<open>Each HELLO is on its way or its sender is in the table of the parent.\<close>

definition greeting :: "network \<Rightarrow> packet \<Rightarrow> bool" where
  "greeting N0 q \<longleftrightarrow> (\<exists>c cb. brokers N0 c = Some cb \<and> has_parent cb \<and> q = hello_of c cb)"

definition assembling :: "fp set \<Rightarrow> network \<Rightarrow> network \<Rightarrow> bool" where
  "assembling V N0 N \<longleftrightarrow> (\<forall>a. rel_option (enrolling V N0 a) (brokers N a) (brokers N0 a)) \<and>
     (\<forall>q \<in># in_flight N. greeting N0 q \<or> acks q) \<and>
     (\<forall>c cb b. brokers N0 c = Some cb \<longrightarrow> has_parent cb \<longrightarrow> brokers N (parent_addr cb) = Some b \<longrightarrow>
        c \<in> snd ` set (child_table b) \<or> hello_of c cb \<in># in_flight N)"

lemma assembling_at:
  assumes "assembling V N0 N" and "brokers N a = Some b"
  obtains b0 where "brokers N0 a = Some b0" and "enrolling V N0 a b b0"
proof -
  have "rel_option (enrolling V N0 a) (brokers N a) (brokers N0 a)" using assms(1) unfolding assembling_def by blast
  with assms(2) that show thesis by (auto simp: option_rel_Some1)
qed

lemma assembling_brokers:
  assumes "assembling V N0 N"
  shows "at_broker N = at_broker N0"
proof
  fix a
  have "rel_option (enrolling V N0 a) (brokers N a) (brokers N0 a)" using assms unfolding assembling_def by blast
  then show "at_broker N a = at_broker N0 a" unfolding at_broker_def by (cases rule: option.rel_cases) auto
qed

text \<open>A delivery that leaves a broker that has enrolled \<open>A\<close>, and only answers in flight.\<close>

lemma assembling_deliver:
  assumes inv: "assembling V N0 N" and q: "brokers N (pk_dst q) = Some b"
    and b: "brokers N0 (pk_dst q) = Some b0" "enrolling V N0 (pk_dst q) b' b0"
    and grows: "snd ` set (child_table b) \<subseteq> snd ` set (child_table b')"
    and new: "\<And>c cb. brokers N0 c = Some cb \<Longrightarrow> has_parent cb \<Longrightarrow> q = hello_of c cb \<Longrightarrow> c \<in> snd ` set (child_table b')"
    and out: "\<And>act. act \<in> set out \<Longrightarrow> acks (emit (pk_dst q) act)"
    and N': "N' = after_delivery_to q b' out N"
  shows "assembling V N0 N'"
  unfolding assembling_def
proof (intro conjI)
  have br: "brokers N' = (brokers N)(pk_dst q \<mapsto> b')"
    and fl: "in_flight N' = (in_flight N - {#q#}) + mset (map (emit (pk_dst q)) out)"
    by (simp_all add: N' after_delivery_to_def)
  show "\<forall>a. rel_option (enrolling V N0 a) (brokers N' a) (brokers N0 a)"
    using inv b by (simp add: assembling_def br)
  show "\<forall>r \<in># in_flight N'. greeting N0 r \<or> acks r"
    using inv out by (auto simp: assembling_def fl dest: in_diffD)
  show "\<forall>c cb d. brokers N0 c = Some cb \<longrightarrow> has_parent cb \<longrightarrow> brokers N' (parent_addr cb) = Some d \<longrightarrow>
        c \<in> snd ` set (child_table d) \<or> hello_of c cb \<in># in_flight N'"
  proof (intro allI impI)
    fix c cb d assume c: "brokers N0 c = Some cb" "has_parent cb" and d: "brokers N' (parent_addr cb) = Some d"
    obtain d0 where d0: "brokers N (parent_addr cb) = Some d0" "snd ` set (child_table d0) \<subseteq> snd ` set (child_table d)"
      using d q grows by (auto simp: br split: if_splits)
    have "c \<in> snd ` set (child_table d0) \<or> hello_of c cb \<in># in_flight N"
      using inv c d0(1) unfolding assembling_def by blast
    then show "c \<in> snd ` set (child_table d) \<or> hello_of c cb \<in># in_flight N'"
    proof
      assume h: "hello_of c cb \<in># in_flight N"
      show ?thesis
      proof (cases "q = hello_of c cb")
        case True
        then have "pk_dst q = parent_addr cb" by (simp add: hello_of_def)
        then show ?thesis using new [OF c True] d by (simp add: br)
      next
        case False
        then have "hello_of c cb \<in># in_flight N - {#q#}" using h by (simp add: in_diff_count)
        then show ?thesis by (simp add: fl)
      qed
    qed (use d0(2) in blast)
  qed
qed

lemma ack_ignored:
  assumes "ev_bytes ev = hello_ack_packet cfg" and "receive E ev b = Inr (b', out)"
  shows "b' = b \<and> out = []"
  using assms(2) refl
proof (cases rule: receive_cases)
  case handled
  have "tlv_message (take recv_buffer (ev_bytes ev)) = tlv_message (ev_bytes ev)"
    by (rule whole_cut) (use handled(1) in \<open>simp_all add: assms(1)\<close>)
  then show ?thesis using handled(2) hello_ack_view(2) by (simp add: handle_message_def assms(1))
qed simp

lemma assembling_step:
  assumes ok: "proper_tree depth bs" and V: "\<And>a b. (a, b) \<in> set bs \<Longrightarrow> coords_in V (config_region (config b))"
    and inv: "assembling V (started bs) N" and step: "lossless_step E N N'"
  shows "assembling V (started bs) N'"
  using step
proof (cases rule: lossless_step.cases)
  case (to_client q)
  have "q \<noteq> hello_of c cb" if "brokers N (parent_addr cb) = Some b" for c cb b
    using that to_client(3) by (auto simp: hello_of_def)
  then show ?thesis
    using inv to_client(1) by (auto simp: assembling_def in_diff_count dest: in_diffD)
next
  case (deliver q b ev b' out)
  let ?N0 = "started bs"
  obtain b0 where b0: "brokers ?N0 (pk_dst q) = Some b0" "enrolling V ?N0 (pk_dst q) b b0"
    by (rule assembling_at [OF inv deliver(3)])
  show ?thesis
  proof (cases "greeting ?N0 q")
    case True
    then obtain c cb where c: "map_of bs c = Some cb" "has_parent cb" "q = hello_of c cb" by (auto simp: greeting_def)
    then have cb: "(c, cb) \<in> set bs" by (simp add: map_of_SomeD)
    have "ev_bytes ev = hello_packet (config cb)" "ev_from ev = c" "parent_addr cb = pk_dst q"
      using deliver(4,5) by (simp_all add: c(3) hello_of_def)
    note e = hello_enrols [OF ok b0(2) cb c(2) this(3) V [OF cb] this(1,2) deliver(6)]
    show ?thesis
    proof (rule assembling_deliver [OF inv deliver(3) b0(1) e(1) _ _ _ deliver(1)])
      fix d db assume "q = hello_of d db"
      then show "d \<in> snd ` set (child_table b')" using e(2) by (simp add: c(3) hello_of_def)
    qed (use e(2,3) in \<open>auto simp: acks_def\<close>)
  next
    case False
    then obtain cfg where "pk_body q = hello_ack_packet cfg"
      using inv deliver(2) unfolding assembling_def acks_def by blast
    with ack_ignored deliver(4,6) have "b' = b" "out = []" by metis+
    then have N': "N' = after_delivery_to q b [] N" using deliver(1) by simp
    show ?thesis
      by (rule assembling_deliver [OF inv deliver(3) b0 _ _ _ N']) (use False in \<open>auto simp: greeting_def\<close>)
  qed
qed

section \<open>The assembled tree\<close>

lemma assembled_father: "assembling V N0 N \<Longrightarrow> father N = father N0"
proof
  fix a assume inv: "assembling V N0 N"
  have "rel_option (enrolling V N0 a) (brokers N a) (brokers N0 a)" using inv unfolding assembling_def by blast
  then show "father N a = father N0 a"
    unfolding father_def assembling_brokers [OF inv]
    by (cases rule: option.rel_cases) (auto simp: enrolling_def same_setup_def)
qed

lemma assembled_tidy:
  assumes ok: "proper_tree depth bs" and inv: "assembling V (started bs) N" and quiet: "in_flight N = {#}"
  shows "tidy N"
  unfolding tidy_def
proof (intro allI impI conjI)
  fix a b assume b: "brokers N a = Some b"
  let ?N0 = "started bs"
  obtain b0 where b0: "brokers ?N0 a = Some b0" "enrolling V ?N0 a b b0" by (rule assembling_at [OF inv b])
  have known: "\<exists>cb. (c, cb) \<in> set bs \<and> has_parent cb \<and> parent_addr cb = a \<and> i = broker_id (config cb) \<and>
      brokers ?N0 c = Some cb" if "(i, c) \<in> set (child_table b)" for i c
    using b0(2) that unfolding enrolling_def by (fastforce dest: map_of_SomeD)
  have at: "at_broker ?N0 a" using b0(1) by (simp add: at_broker_def)
  show "\<forall>(i, c) \<in> set (child_table b). at_broker N c \<longrightarrow> father N c = Some a"
    using known at unfolding assembled_father [OF inv] by (fastforce simp: father_def)
  have "um_inv (children b)" using b0(2) by (simp add: enrolling_def broker_wf_def children_wf_def)
  then have keys: "distinct (map fst (child_table b))"
    by (simp add: child_table_def um_inv_def comp_def case_prod_beta)
  have "inj_on snd (set (child_table b))"
  proof (rule inj_onI, clarsimp)
    fix i j c assume "(i, c) \<in> set (child_table b)" "(j, c) \<in> set (child_table b)"
    from known [OF this(1)] known [OF this(2)] show "i = j" by auto
  qed
  with keys show "distinct (map snd (child_table b))" by (simp add: distinct_map)
  fix c assume "father N c = Some a"
  then obtain cb where c: "brokers ?N0 c = Some cb" "has_parent cb" "parent_addr cb = a"
    unfolding assembled_father [OF inv] by (auto simp: father_def split: option.splits if_splits)
  moreover have "hello_of c cb \<notin># in_flight N" by (simp add: quiet)
  ultimately have "c \<in> snd ` set (child_table b)" using inv b unfolding assembling_def by blast
  then obtain i where "(i, c) \<in> set (child_table b)" by force
  moreover have "i \<noteq> []" if "(i, d) \<in> set (child_table b)" for i d
    using known [OF that] ok unfolding proper_tree_def by fastforce
  moreover obtain p where p: "find (\<lambda>(i, d). d = c) (child_table b) = Some p"
    using calculation(1) by (cases "find (\<lambda>(i, d). d = c) (child_table b)") (auto simp: find_None_iff)
  moreover have "p \<in> set (child_table b)" using p by (metis find_Some_iff nth_mem)
  ultimately show "find_child_by_addr c b \<noteq> []"
    unfolding find_child_by_addr_def find_child_find child_table_def [symmetric]
    by (cases p) simp
qed

section \<open>From the start to the screen\<close>

lemma tree_assembles:
  assumes ok: "proper_tree depth bs" and bs: "\<And>a b. (a, b) \<in> set bs \<Longrightarrow> fresh_broker b \<and> coords_in V (config_region (config b))"
    and run: "maximal_run (lossless_step E) f" and start: "f 0 = started bs"
  shows "\<exists>i. in_flight (f i) = {#} \<and> tidy (f i) \<and> assembling V (started bs) (f i)"
proof -
  have tree: "broker_tree depth (Max (depth ` fst ` set bs)) (f 0)" using started_tree [OF ok] bs start by simp
  have "rel_option (enrolling V (started bs) a) (map_of bs a) (map_of bs a)" for a
    using bs [of a] fresh_enrolling by (cases "map_of bs a") (auto dest: map_of_SomeD)
  moreover have "greeting (started bs) q" if "q \<in># in_flight (started bs)" for q
    using that ok by (fastforce simp: started_flight greeting_def proper_tree_def)
  moreover have "hello_of c cb \<in># in_flight (started bs)" if "map_of bs c = Some cb" "has_parent cb" for c cb
    using that map_of_SomeD by (fastforce simp: started_flight)
  ultimately have inv0: "assembling V (started bs) (f 0)" unfolding assembling_def start by simp
  have inv: "assembling V (started bs) (f j)" for j
  proof (induction j)
    case (Suc j)
    have "lossless_step E (f j) (f (Suc j)) \<or> f (Suc j) = f j" using run by (auto simp: maximal_run_def)
    then show ?case
    proof
      assume "lossless_step E (f j) (f (Suc j))"
      from assembling_step [OF ok _ Suc this] bs show ?thesis by blast
    qed (use Suc in simp)
  qed (rule inv0)
  obtain i where "in_flight (f i) = {#}" using maximal_run_drains [OF tree run] by blast
  with assembled_tidy [OF ok inv] inv show ?thesis by blast
qed

text \<open>Every node has a way to the root.\<close>

lemma climbs_exists: "rooted F depth \<Longrightarrow> \<exists>zs. climbs F (y # zs)"
proof (induction "depth y" arbitrary: y rule: less_induct)
  case less
  show ?case
  proof (cases "F y")
    case None
    then show ?thesis by (intro exI [of _ "[]"]) simp
  next
    case (Some n)
    then have "depth n < depth y" using less.prems by (simp add: rooted_def)
    with less obtain zs where "climbs F (n # zs)" by blast
    with Some show ?thesis by (intro exI [of _ "n # zs"]) simp
  qed
qed

definition sub_sent :: "interest \<Rightarrow> network \<Rightarrow> network" where
  "sub_sent S N = N\<lparr>in_flight := {#\<lparr>pk_src = rq_client S, pk_dst = rq_at S, pk_body = rq_packet S\<rparr>#}\<rparr>"

lemma sub_sent_sel [simp]:
  "brokers (sub_sent S N) = brokers N"
  "in_flight (sub_sent S N) = {#\<lparr>pk_src = rq_client S, pk_dst = rq_at S, pk_body = rq_packet S\<rparr>#}"
  by (simp_all add: sub_sent_def)

lemma sub_sent_same: "same_neighbours (sub_sent S N) N" "same_neighbours N (sub_sent S N)"
  by (simp_all add: same_neighbours_def)

lemmas sub_sent_eq [simp] = same_neighbours_at [OF sub_sent_same(1)]
lemmas sub_sent_tidy = same_neighbours_tidy [OF sub_sent_same(1)]

lemma sub_sent_tree: "broker_tree depth D N \<Longrightarrow> \<not> at_broker N (rq_client S) \<Longrightarrow> broker_tree depth D (sub_sent S N)"
  by (simp add: broker_tree_def packet_placed_def)

text \<open>What the configurations say of coordinates, limits and names.\<close>

definition configured :: "fp set \<Rightarrow> journey \<Rightarrow> broker_config \<Rightarrow> bool" where
  "configured V J cfg \<longleftrightarrow> coords_in V (config_region cfg) \<and> 1 \<le> sint (brake_limit cfg) \<and>
     broker_id cfg \<noteq> ''parent'' \<and> broker_id cfg \<noteq> client_addr_str (jn_origin J)"

lemma enrolled_untouched:
  assumes b: "enrolling V N0 a b b0" and cfg: "\<And>a b. brokers N0 a = Some b \<Longrightarrow> configured V J (config b)"
    and b0: "brokers N0 a = Some b0"
  shows "surveyed V b \<and> untouched J b"
proof -
  have "i \<noteq> ''parent'' \<and> i \<noteq> client_addr_str (jn_origin J)" if q: "(i, q) \<in> set (quads b)" for i q
  proof -
    obtain c where "(i, c) \<in> set (child_table b)" using q by (force simp: quads_def child_table_def)
    then obtain cb where "brokers N0 c = Some cb" "i = broker_id (config cb)" using b by (force simp: enrolling_def)
    with cfg show ?thesis by (simp add: configured_def)
  qed
  moreover have "config b = config b0" using b by (simp add: enrolling_def same_setup_def)
  ultimately show ?thesis
    using b cfg [OF b0] by (auto simp: enrolling_def untouched_def configured_def)
qed

theorem tree_delivers:
  assumes lib: "gmp_spec (lib_gmp E)" "rng_spec R" and ok: "proper_tree depth bs"
    and members: "\<forall>b \<in> snd ` set bs. constructed E Os R b \<and> configured V J (config b)"
    and V: "coords_closed V S" "reachable_regions E V J"
    and S: "rq_client S \<notin> fst ` set bs" "rq_short S" "(rq_at S, c) \<in> set bs"
      "rq_key S = sub_key_of E c (rq_name S) (map_option fst (rq_bvals S))"
    and ans: "answers E S J (started bs)"
    and path: "tree_path (father (started bs)) (x # xs)" "last (x # xs) = rq_at S"
    and x: "(x, b) \<in> set bs" "jn_key J = pub_key_of E b (jn_name J) (jn_bval J) 0"
    and len: "fits J" "length (jn_name J) < 2 ^ 16" "length (pub_datagram J) \<le> recv_buffer"
    and run: "f 0 = started bs" "maximal_run (lossless_step E) f"
  shows "\<exists>i. in_flight (f i) = {#} \<and>
    (\<forall>g. g 0 = sub_sent S (f i) \<longrightarrow> maximal_run (lossless_step E) g \<longrightarrow> (\<exists>j. in_flight (g j) = {#} \<and>
      (\<forall>h. h 0 = pub_sent J x (g j) \<longrightarrow> maximal_run (lossless_step E) h \<longrightarrow> (\<exists>k. arrived J (h k)))))"
proof -
  have bs: "constructed E Os R b \<and> configured V J (config b)" if "(a, b) \<in> set bs" for a b
    using members that by force
  have fresh: "fresh_broker b \<and> coords_in V (config_region (config b))" if "(a, b) \<in> set bs" for a b
    using bs [OF that] constructed_fresh [OF lib] by (auto simp: configured_def)
  obtain i where i: "in_flight (f i) = {#}" "tidy (f i)" and inv: "assembling V (started bs) (f i)"
    using tree_assembles [OF ok _ run(2,1)] fresh by blast
  let ?N = "f i"
  have find: "brokers (started bs) a = Some d \<longleftrightarrow> (a, d) \<in> set bs" for a d
    using ok by (simp add: proper_tree_def)
  note fa = assembled_father [OF inv] and at = assembling_brokers [OF inv]
  have tree0: "broker_tree depth (Max (depth ` fst ` set bs)) (f 0)" using started_tree [OF ok] fresh run(1) by simp
  then have tree: "broker_tree depth (Max (depth ` fst ` set bs)) (sub_sent S ?N)"
    using sub_sent_tree [OF maximal_run_tree [OF tree0 run(2)]] S(1) by (simp add: at started_at)
  obtain zs where zs: "climbs (father ?N) (rq_at S # zs)"
    using climbs_exists [OF tree_rooted [OF tree]] by auto
  have state: "\<exists>d0. brokers (started bs) a = Some d0 \<and> enrolling V (started bs) a d d0" if "brokers ?N a = Some d" for a d
    by (rule assembling_at [OF inv that]) blast
  have good: "surveyed V d \<and> untouched J d" if d: "brokers ?N a = Some d" for a d
  proof -
    obtain d0 where d0: "brokers (started bs) a = Some d0" "enrolling V (started bs) a d d0" using state [OF d] by blast
    show ?thesis by (rule enrolled_untouched [OF d0(2) _ d0(1)]) (use bs find in blast)
  qed
  have same: "\<exists>d'. brokers ?N a = Some d' \<and> same_setup d' d \<and> subscribers d' = []" if ad: "(a, d) \<in> set bs" for a d
  proof -
    have "at_broker ?N a" using ad by (force simp: at started_at)
    then obtain d' where d': "brokers ?N a = Some d'" by (auto simp: at_broker_def)
    then obtain d0 where d0: "map_of bs a = Some d0" "enrolling V (started bs) a d' d0" using state by auto
    moreover have "map_of bs a = Some d" using ad find by simp
    ultimately show ?thesis using d' by (auto simp: enrolling_def)
  qed
  obtain c' where c': "brokers ?N (rq_at S) = Some c'" "same_setup c' c" "subscribers c' = []" using same [OF S(3)] by blast
  obtain b' where b': "brokers ?N x = Some b'" "same_setup b' b" using same [OF x(1)] by blast
  have none: "ot_parent d = []" if "brokers ?N a = Some d" for a d
    using state [OF that] by (auto simp: enrolling_def)
  have "rq_key S = sub_key_of E c' (rq_name S) (map_option fst (rq_bvals S))"
    using S(4) c'(2) by (simp add: sub_key_of_def same_setup_def)
  then have new: "new_request E S (sub_sent S ?N) zs"
    using zs S(2) c'(1,3) none by (simp add: new_request_def um_at_def)
  have ans': "answers E S J (sub_sent S ?N)"
    using ans c' S(3) find passes_match_setup [OF c'(2)] by (simp add: answers_def)
  have key: "jn_key J = pub_key_of E b' (jn_name J) (jn_bval J) 0" using x(2) b'(2) by (simp add: pub_key_of_def same_setup_def)
  have "\<exists>j. in_flight (g j) = {#} \<and> (\<forall>h. h 0 = pub_sent J x (g j) \<longrightarrow> maximal_run (lossless_step E) h \<longrightarrow>
      (\<exists>k. arrived J (h k)))" if g: "g 0 = sub_sent S ?N" "maximal_run (lossless_step E) g" for g
    by (rule subscribe_then_publish [where f = g and V = V and S = S and zs = zs and b = b' and xs = xs, OF _ _ g(2) V(1) _ _ _ _ V(2) _ path(2) _ key len])
      (use tree sub_sent_tidy [OF i(2)] good new ans' path(1) b'(1) fa in \<open>simp_all add: g(1)\<close>)
  with i(1) show ?thesis by blast
qed

end
