(* ===== verification/Service.thy ===== *)
theory Service
  imports End_To_End
begin

text \<open>
  What a broker promises its clients, without maps, packets, hashes or ciphertexts: a service
  with a channel for each topic. A channel knows its members with the closest distance each of
  them got, everything published on it, when publications were let through in each quadrant of
  the globe, and when it was last used. The broker of the code is shown to give every client
  exactly the datagrams this service gives.
\<close>

section \<open>The service\<close>

text \<open>
  A topic is a name in the clear, or the hash of a name that clients only use blinded. The two
  never mix.
\<close>

datatype topic = Clear string | Sealed u64

record member =
  mb_addr :: sockaddr
  mb_lat :: f32
  mb_lon :: f32
  mb_best :: fp

record channel =
  members :: "member list"
  published :: "publication list"
  admissions :: "nat \<Rightarrow> time_t list"
  touched :: "time_t option"

definition empty_channel :: channel where
  "empty_channel = \<lparr>members = [], published = [], admissions = (\<lambda>_. []), touched = None\<rparr>"

type_synonym service = "topic \<Rightarrow> channel"

text \<open>How many publications may pass within a window of time, \<open>None\<close> when all may.\<close>

record policy =
  quota :: "nat option"
  quota_window :: time_t

definition admits :: "policy \<Rightarrow> time_t \<Rightarrow> time_t list \<Rightarrow> bool" where
  "admits P now adm =
     (case quota P of None \<Rightarrow> True
      | Some n \<Rightarrow> length (filter (\<lambda>a. now - a \<le> quota_window P) adm) < n)"

text \<open>The last ten publications, and the first of the closest ones among them.\<close>

definition last_ten :: "'a list \<Rightarrow> 'a list" where
  "last_ten xs = drop (length xs - 10) xs"

definition nearest :: "('a \<Rightarrow> fp) \<Rightarrow> 'a list \<Rightarrow> 'a option" where
  "nearest d ps =
     (case filter (\<lambda>p. flt (d p) DBL_MAX \<and> (\<forall>q \<in> set ps. \<not> flt (d q) (d p))) ps of
        [] \<Rightarrow> None | p # _ \<Rightarrow> Some p)"

definition distance :: "(fp \<Rightarrow> fp) \<Rightarrow> f32 \<Rightarrow> f32 \<Rightarrow> f32 \<Rightarrow> f32 \<Rightarrow> fp" where
  "distance C lat lon lat' lon' = geo_distance C (widen lat) (widen lon) (widen lat') (widen lon')"

datatype request = Subscribe topic f32 f32 bool sockaddr time_t | Publish topic f32 f32 "byte list" time_t
  | Beat topic time_t | Noise

definition subscribe_channel ::
    "(fp \<Rightarrow> fp) \<Rightarrow> f32 \<Rightarrow> f32 \<Rightarrow> bool \<Rightarrow> sockaddr \<Rightarrow> time_t \<Rightarrow> channel \<Rightarrow> channel \<times> action list" where
  "subscribe_channel C lat lon query client now ch =
     (let d = (\<lambda>p. distance C lat lon (pub_lat p) (pub_lon p));
          found = (if query then nearest d (last_ten (published ch)) else None);
          m = \<lparr>mb_addr = client, mb_lat = lat, mb_lon = lon,
               mb_best = (case found of None \<Rightarrow> DBL_MAX | Some p \<Rightarrow> d p)\<rparr>
      in (ch\<lparr>members := members ch @ [m], touched := Some now\<rparr>,
          case found of None \<Rightarrow> [] | Some p \<Rightarrow> [SendTo client (pub_raw p)]))"

definition comes_closer :: "(fp \<Rightarrow> fp) \<Rightarrow> f32 \<Rightarrow> f32 \<Rightarrow> member \<Rightarrow> bool" where
  "comes_closer C lat lon m \<longleftrightarrow> flt (distance C lat lon (mb_lat m) (mb_lon m)) (mb_best m)"

definition publish_channel ::
    "(fp \<Rightarrow> fp) \<Rightarrow> policy \<Rightarrow> f32 \<Rightarrow> f32 \<Rightarrow> byte list \<Rightarrow> time_t \<Rightarrow> channel \<Rightarrow> channel \<times> action list" where
  "publish_channel C P lat lon raw now ch =
     (let ch1 = ch\<lparr>published := published ch @ [\<lparr>pub_lat = lat, pub_lon = lon, pub_raw = raw\<rparr>]\<rparr>;
          q = get_quadrant lat lon;
          moved = (\<lambda>m. if comes_closer C lat lon m
                        then m\<lparr>mb_best := distance C lat lon (mb_lat m) (mb_lon m)\<rparr> else m)
      in if members ch = [] \<or> \<not> admits P now (admissions ch q) then (ch1, [])
         else (ch1\<lparr>admissions := (admissions ch)(q := admissions ch q @ [now]),
                   members := map moved (members ch)\<rparr>,
               map (\<lambda>m. SendTo (mb_addr m) raw) (filter (comes_closer C lat lon) (members ch))))"

definition serve ::
    "(fp \<Rightarrow> fp) \<Rightarrow> policy \<Rightarrow> request \<Rightarrow> service \<Rightarrow> service \<times> action list" where
  "serve C P req s =
     (case req of
        Subscribe t lat lon query client now \<Rightarrow>
          (let (ch, out) = subscribe_channel C lat lon query client now (s t) in (s(t := ch), out))
      | Publish t lat lon raw now \<Rightarrow>
          (let (ch, out) = publish_channel C P lat lon raw now (s t) in (s(t := ch), out))
      | Beat t now \<Rightarrow> (s(t := (s t)\<lparr>touched := Some now\<rparr>), [])
      | Noise \<Rightarrow> (s, []))"

fun serve_all ::
    "(fp \<Rightarrow> fp) \<Rightarrow> policy \<Rightarrow> request list \<Rightarrow> service \<Rightarrow> service \<times> action list" where
  "serve_all C P [] s = (s, [])"
| "serve_all C P (r # rs) s =
     (let (s1, out1) = serve C P r s; (s2, out2) = serve_all C P rs s1 in (s2, out1 @ out2))"

text \<open>A channel with members that nobody used for more than fifteen seconds is forgotten.\<close>

definition expire_channel :: "time_t \<Rightarrow> channel \<Rightarrow> channel" where
  "expire_channel now ch =
     (if members ch \<noteq> [] \<and> (case touched ch of None \<Rightarrow> False | Some u \<Rightarrow> now - u > 15)
      then empty_channel else ch)"

text \<open>
  A turn: some requests, then, when the last sweep is more than ten seconds ago, a sweep of all
  channels.
\<close>

type_synonym turn = "request list \<times> time_t \<times> time_t"

fun service_run ::
    "(fp \<Rightarrow> fp) \<Rightarrow> policy \<Rightarrow> turn list \<Rightarrow> time_t \<Rightarrow> service \<Rightarrow> action list" where
  "service_run C P [] swept s = []"
| "service_run C P ((rs, now, sweep) # turns) swept s =
     (let (s1, out) = serve_all C P rs s
      in out @ (if now - swept > 10 then service_run C P turns now (\<lambda>t. expire_channel sweep (s1 t))
                else service_run C P turns swept s1))"

section \<open>The service as the broker keeps it\<close>

definition topic_key :: "topic \<Rightarrow> string" where
  "topic_key t = (case t of Clear name \<Rightarrow> name | Sealed w \<Rightarrow> show_nat (unat w))"

text \<open>A name that is a decimal number could be taken for a hash.\<close>

definition proper_topic :: "topic \<Rightarrow> bool" where
  "proper_topic t = (case t of Clear name \<Rightarrow> \<not> (name \<noteq> [] \<and> list_all is_digit name) | Sealed w \<Rightarrow> True)"

lemma topic_key_inj:
  assumes "proper_topic t" and "proper_topic t'"
  shows "topic_key t = topic_key t' \<longleftrightarrow> t = t'"
proof -
  have "show_nat n \<noteq> [] \<and> list_all is_digit (show_nat n)" for n
    using show_nat_nonempty show_nat_is_digit by (auto simp: list_all_iff)
  with assms show ?thesis
    by (cases t; cases t') (auto simp: topic_key_def proper_topic_def show_nat_inj word_unat_eq_iff)
qed

lemma hash_topic: "hash_service_name E name = topic_key (Sealed (lib_hash E name))"
  by (simp add: hash_service_name_def topic_key_def)

text \<open>What a broker holds for one key.\<close>

record topic_view =
  tv_group :: "geo_client list"
  tv_cache :: "cached_pub list"
  tv_active :: "time_t option"
  tv_windows :: "nat \<Rightarrow> window"

definition view_of :: "broker \<Rightarrow> string \<Rightarrow> topic_view" where
  "view_of b k = \<lparr>tv_group = um_at [] (subscribers b) k, tv_cache = um_at [] (pub_cache b) k,
     tv_active = um_find (last_active b) k, tv_windows = window_at (brake_count_local b) k\<rparr>"

lemma view_of_sel [simp]:
  "tv_group (view_of b k) = um_at [] (subscribers b) k" "tv_cache (view_of b k) = um_at [] (pub_cache b) k"
  "tv_active (view_of b k) = um_find (last_active b) k" "tv_windows (view_of b k) = window_at (brake_count_local b) k"
  by (simp_all add: view_of_def)

lemma view_of_cong:
  "subscribers b' = subscribers b \<Longrightarrow> pub_cache b' = pub_cache b \<Longrightarrow> last_active b' = last_active b \<Longrightarrow>
    brake_count_local b' = brake_count_local b \<Longrightarrow> view_of b' = view_of b"
  by (simp add: view_of_def fun_eq_iff)

section \<open>The query of the cache\<close>

lemma closest_cached_first:
  assumes "closest_cached C lat lon (best, d) ps = (best', d')"
  shows "(best' = best \<and> d' = d \<and> (\<forall>p \<in> set ps. \<not> flt (pub_dist C lat lon p) d)) \<or>
    (\<exists>ys p zs. ps = ys @ p # zs \<and> best' = Some p \<and> d' = pub_dist C lat lon p \<and> flt d' d \<and>
       (\<forall>q \<in> set ps. \<not> flt (pub_dist C lat lon q) d') \<and>
       (\<forall>q \<in> set ys. flt (pub_dist C lat lon q) d \<longrightarrow> flt d' (pub_dist C lat lon q)))"
  using assms
proof (induction ps arbitrary: best d)
  case (Cons p ps)
  let ?d = "pub_dist C lat lon"
  show ?case
  proof (cases "flt (?d p) d")
    case True
    then have "closest_cached C lat lon (Some p, ?d p) ps = (best', d')"
      using Cons.prems by (simp only: closest_cached_step if_True)
    from Cons.IH [OF this] show ?thesis
    proof (elim disjE exE conjE)
      assume "best' = Some p" "d' = ?d p" "\<forall>q \<in> set ps. \<not> flt (?d q) (?d p)"
      with True show ?thesis by (intro disjI2 exI [of _ "[]"] exI [of _ p] exI [of _ ps]) simp
    next
      fix ys x zs
      assume x: "ps = ys @ x # zs" "best' = Some x" "d' = ?d x" "flt d' (?d p)"
        "\<forall>q \<in> set ps. \<not> flt (?d q) d'" "\<forall>q \<in> set ys. flt (?d q) (?d p) \<longrightarrow> flt d' (?d q)"
      have "flt d' (?d q)" if "q \<in> set ys" "flt (?d q) d" for q
      proof (cases "flt (?d q) (?d p)")
        case False
        have "?d q \<noteq> NaN" "?d p \<noteq> NaN" using that(2) True by auto
        with False have "fle (?d p) (?d q)" using not_flt_iff by blast
        with x(4) show ?thesis by (rule flt_fle_trans)
      qed (use x(6) that in blast)
      moreover have "flt d' d" using x(4) True by (rule flt_trans)
      moreover have "\<not> flt (?d p) d'" using x(4) by (rule flt_not_sym)
      ultimately show ?thesis using x
        by (intro disjI2 exI [of _ "p # ys"] exI [of _ x] exI [of _ zs]) auto
    qed
  next
    case False
    then have "closest_cached C lat lon (best, d) ps = (best', d')"
      using Cons.prems by (simp only: closest_cached_step if_False)
    from Cons.IH [OF this] show ?thesis
    proof (elim disjE exE conjE)
      assume "best' = best" "d' = d" "\<forall>q \<in> set ps. \<not> flt (?d q) d"
      with False show ?thesis by simp
    next
      fix ys x zs
      assume x: "ps = ys @ x # zs" "best' = Some x" "d' = ?d x" "flt d' d"
        "\<forall>q \<in> set ps. \<not> flt (?d q) d'" "\<forall>q \<in> set ys. flt (?d q) d \<longrightarrow> flt d' (?d q)"
      have "\<not> flt (?d p) d'" using False x(4) flt_trans by blast
      with x False show ?thesis
        by (intro disjI2 exI [of _ "p # ys"] exI [of _ x] exI [of _ zs]) auto
    qed
  qed
qed simp

lemma nearest_first:
  assumes "ps = ys @ p # zs" and "flt (d p) DBL_MAX" and "\<forall>q \<in> set ps. \<not> flt (d q) (d p)"
    and "\<forall>q \<in> set ys. flt (d q) DBL_MAX \<longrightarrow> flt (d p) (d q)"
  shows "nearest d ps = Some p"
proof -
  let ?Q = "\<lambda>x. flt (d x) DBL_MAX \<and> (\<forall>q \<in> set ps. \<not> flt (d q) (d x))"
  have "\<not> ?Q q" if "q \<in> set ys" for q
  proof
    assume Q: "?Q q"
    have "p \<in> set ps" using assms(1) by simp
    with Q that assms(4) show False by blast
  qed
  then have "filter ?Q ys = []" by (auto simp: filter_empty_conv)
  then have "filter ?Q ps = p # filter ?Q zs"
    using arg_cong [OF assms(1), of "filter ?Q"] assms(2,3) by simp
  then show ?thesis by (simp add: nearest_def)
qed

lemma closest_cached_nearest:
  "closest_cached C lat lon (None, DBL_MAX) ps =
     (case nearest (pub_dist C lat lon) ps of None \<Rightarrow> (None, DBL_MAX)
      | Some p \<Rightarrow> (Some p, pub_dist C lat lon p))"
proof -
  obtain best' d' where run: "closest_cached C lat lon (None, DBL_MAX) ps = (best', d')" by force
  from closest_cached_first [OF run] show ?thesis
  proof (elim disjE exE conjE)
    assume none: "best' = None" "d' = DBL_MAX" "\<forall>p \<in> set ps. \<not> flt (pub_dist C lat lon p) DBL_MAX"
    then have "nearest (pub_dist C lat lon) ps = None" by (simp add: nearest_def filter_empty_conv)
    with none run show ?thesis by simp
  next
    fix ys p zs
    assume p: "ps = ys @ p # zs" "best' = Some p" "d' = pub_dist C lat lon p" "flt d' DBL_MAX"
      "\<forall>q \<in> set ps. \<not> flt (pub_dist C lat lon q) d'"
      "\<forall>q \<in> set ys. flt (pub_dist C lat lon q) DBL_MAX \<longrightarrow> flt d' (pub_dist C lat lon q)"
    have "nearest (pub_dist C lat lon) ps = Some p"
      using p by (intro nearest_first [of ps ys p zs]) simp_all
    with p run show ?thesis by simp
  qed
qed

lemma nearest_map: "nearest d (map f ps) = map_option f (nearest (\<lambda>p. d (f p)) ps)"
  by (simp add: nearest_def filter_map comp_def split: list.split)

lemma nearest_Nil [simp]: "nearest d [] = None"
  by (simp add: nearest_def)

section \<open>What the handlers do to a view\<close>

lemma view_counters [simp]:
  "view_of (b\<lparr>stat_pub_received := n\<rparr>) = view_of b" "view_of (b\<lparr>stat_sub_received := n\<rparr>) = view_of b"
  by (rule view_of_cong; simp)+

definition subscribed_view ::
    "(fp \<Rightarrow> fp) \<Rightarrow> f32 \<Rightarrow> f32 \<Rightarrow> bool \<Rightarrow> sockaddr \<Rightarrow> string option \<Rightarrow> string option \<Rightarrow> time_t \<Rightarrow> topic_view
      \<Rightarrow> topic_view \<times> action list" where
  "subscribed_view C lat lon query client m1 m2 now v =
     (let gs = tv_group v @ [new_client client lat lon m1 m2];
          found = (if query then nearest (pub_dist C lat lon) (tv_cache v) else None)
      in (v\<lparr>tv_group := (case found of None \<Rightarrow> gs | Some p \<Rightarrow> set_last_dist (pub_dist C lat lon p) gs),
            tv_active := Some now\<rparr>,
          case found of None \<Rightarrow> [] | Some p \<Rightarrow> [SendTo client (raw_message p)]))"

lemma query_cache_cases:
  "query_cache E key lat lon client b =
     (case nearest (pub_dist (lib_cos E) lat lon) (um_at [] (pub_cache b) key) of
        None \<Rightarrow> (b, [])
      | Some p \<Rightarrow> (b\<lparr>subscribers := um_put key
           (set_last_dist (pub_dist (lib_cos E) lat lon p) (um_at [] (subscribers b) key)) (subscribers b)\<rparr>,
         [SendTo client (raw_message p)]))"
  by (simp add: query_cache_def um_at_def closest_cached_nearest split: option.split)

lemma subscribe_local_view:
  assumes run: "subscribe_local E now msg name lat lon flags client b = (b', out)"
    and root: "\<not> has_parent b" and key: "key = sub_key_of E b name (get_blinded_value msg)"
    and st: "subscribed_view (lib_cos E) lat lon (and flags QUERY_MODE \<noteq> 0) client
      (get_blinded_value msg) (get_blinded_value_hi msg) now (view_of b key) = (v, sent)"
  shows "view_of b' k = (if k = key then v else view_of b k) \<and> out = sent"
proof -
  let ?gc = "new_client client lat lon (get_blinded_value msg) (get_blinded_value_hi msg)"
  obtain b2 where b2: "extend_region lat lon (add_subscriber now key ?gc b) = (b2, [])"
    and fr: "subscribers b2 = subscribers (add_subscriber now key ?gc b)"
      "pub_cache b2 = pub_cache b" "last_active b2 = last_active (add_subscriber now key ?gc b)"
      "brake_count_local b2 = brake_count_local b" "\<not> has_parent b2"
    using root by (simp add: extend_region_def Let_def add_subscriber_def)
  have quiet: "propagate_subscription key x = (x, [])" if "\<not> has_parent x" for x
    using that by (simp add: propagate_subscription_def)
  show ?thesis
  proof (cases "and flags QUERY_MODE \<noteq> 0 \<and> nearest (pub_dist (lib_cos E) lat lon) (um_at [] (pub_cache b) key) \<noteq> None")
    case False
    then have "b' = b2 \<and> out = []"
      using run b2 fr quiet [of b2] by (auto simp: subscribe_local_def Let_def query_cache_cases key [symmetric] split: if_splits)
    moreover have "v = (view_of b key)\<lparr>tv_group := um_at [] (subscribers b) key @ [?gc], tv_active := Some now\<rparr> \<and> sent = []"
      using st False by (auto simp: subscribed_view_def Let_def split: if_splits)
    ultimately show ?thesis
      by (auto simp: view_of_def fr add_subscriber_def)
  next
    case True
    then obtain p where p: "nearest (pub_dist (lib_cos E) lat lon) (um_at [] (pub_cache b) key) = Some p"
      and q: "and flags QUERY_MODE \<noteq> 0" by blast
    let ?gs = "set_last_dist (pub_dist (lib_cos E) lat lon p) (um_at [] (subscribers b) key @ [?gc])"
    have "b' = b2\<lparr>subscribers := um_put key ?gs (subscribers b2)\<rparr> \<and> out = [SendTo client (raw_message p)]"
      using run b2 fr p q quiet [of "b2\<lparr>subscribers := um_put key ?gs (subscribers b2)\<rparr>"]
      by (simp add: subscribe_local_def Let_def query_cache_cases key [symmetric] add_subscriber_def)
    moreover have "v = (view_of b key)\<lparr>tv_group := ?gs, tv_active := Some now\<rparr> \<and> sent = [SendTo client (raw_message p)]"
      using st p q by (auto simp: subscribed_view_def Let_def)
    ultimately show ?thesis
      by (auto simp: view_of_def fr add_subscriber_def)
  qed
qed

definition local_step :: "broker_config \<Rightarrow> time_t \<Rightarrow> window \<Rightarrow> bool \<times> window" where
  "local_step cfg now w =
     (if brake_scope cfg = Upward then (True, w)
      else window_step (brake_limit cfg) (brake_window_sec cfg) now w)"

definition delivered_view ::
    "(fp \<Rightarrow> fp) \<Rightarrow> broker_config \<Rightarrow> f32 \<Rightarrow> f32 \<Rightarrow> byte list \<Rightarrow> time_t \<Rightarrow> topic_view \<Rightarrow> topic_view \<times> action list"
  where
  "delivered_view C cfg lat lon raw now v =
     (let q = get_quadrant lat lon;
          (ok, w) = local_step cfg now (tv_windows v q);
          v1 = v\<lparr>tv_windows := (tv_windows v)(q := w)\<rparr>
      in if tv_group v = [] then (v, [])
         else if \<not> ok then (v1, [])
         else (v1\<lparr>tv_group := map (after_delivery C lat lon) (tv_group v)\<rparr>,
               map (\<lambda>g. SendTo (gc_addr g) raw) (filter (closer C lat lon) (tv_group v))))"

lemma brake_local_view:
  assumes "(if brake_scope (config b) = Local \<or> brake_scope (config b) = Both
      then brake_allows DirLocal now key lat lon b else (True, b)) = (ok, b1)"
    and "local_step (config b) now (window_at (brake_count_local b) key (get_quadrant lat lon)) = (ok', w)"
  shows "ok = ok'" and "child_active b1 = child_active b" and "view_of b1 = (view_of b)(key := (view_of b key)
    \<lparr>tv_windows := (window_at (brake_count_local b) key)(get_quadrant lat lon := w)\<rparr>)"
proof -
  have "ok = ok' \<and> child_active b1 = child_active b \<and> view_of b1 = (view_of b)(key := (view_of b key)
    \<lparr>tv_windows := (window_at (brake_count_local b) key)(get_quadrant lat lon := w)\<rparr>)"
  proof (cases "brake_scope (config b) = Upward")
    case True
    then show ?thesis using assms by (auto simp: local_step_def view_of_def fun_eq_iff)
  next
    case False
    then have "brake_scope (config b) = Local \<or> brake_scope (config b) = Both"
      by (cases "brake_scope (config b)") simp_all
    with False assms show ?thesis
      by (auto simp: local_step_def brake_allows_eq view_of_def fun_eq_iff split: prod.splits)
  qed
  then show "ok = ok'" and "child_active b1 = child_active b" and "view_of b1 = (view_of b)(key := (view_of b key)
    \<lparr>tv_windows := (window_at (brake_count_local b) key)(get_quadrant lat lon := w)\<rparr>)" by blast+
qed

lemma view_count_match [simp]:
  "view_of (count_match c h b) = view_of b" "child_active (count_match c h b) = child_active b"
  by (rule view_of_cong; simp add: count_match_def) (simp add: count_match_def)

lemma deliver_local_view:
  assumes run: "deliver_local E now msg key lat lon bval_n b = Inr (b', out)"
    and pass: "\<And>g gs. um_at [] (subscribers b) key = g # gs \<Longrightarrow> passes_match E b g bval_n"
    and st: "delivered_view (lib_cos E) (config b) lat lon (data msg) now (view_of b key) = (v, sent)"
  shows "view_of b' = (view_of b)(key := v) \<and> out = sent \<and> child_active b' = child_active b"
proof (cases "um_at [] (subscribers b) key")
  case Nil
  then have "um_find (subscribers b) key = None \<or> um_find (subscribers b) key = Some []"
    by (auto simp: um_at_def split: option.splits)
  then have "b' = b \<and> out = []" using run by (auto simp: deliver_local_def)
  with Nil st show ?thesis by (auto simp: delivered_view_def Let_def split: prod.splits)
next
  case (Cons g gs)
  then have grp: "um_find (subscribers b) key = Some (g # gs)" by (auto simp: um_at_def split: option.splits)
  obtain ok b1 where 1: "(if brake_scope (config b) = Local \<or> brake_scope (config b) = Both
      then brake_allows DirLocal now key lat lon b else (True, b)) = (ok, b1)" by force
  obtain ok' w where w: "local_step (config b) now
      (window_at (brake_count_local b) key (get_quadrant lat lon)) = (ok', w)" by force
  note b1 = brake_local_view [OF 1 w] and sub = brake_open_cases(2) [OF 1]
  have st': "(v, sent) = (if \<not> ok
      then ((view_of b key)\<lparr>tv_windows := (window_at (brake_count_local b) key)(get_quadrant lat lon := w)\<rparr>, [])
      else ((view_of b key)\<lparr>tv_windows := (window_at (brake_count_local b) key)(get_quadrant lat lon := w),
              tv_group := map (after_delivery (lib_cos E) lat lon) (g # gs)\<rparr>,
            map (\<lambda>g. SendTo (gc_addr g) (data msg)) (filter (closer (lib_cos E) lat lon) (g # gs))))"
    using st w b1(1) Cons by (auto simp: delivered_view_def Let_def)
  have res: "if ok then \<exists>c h. (b', out) = deliver_all E key lat lon (data msg) (count_match c h b1)
    else out = [] \<and> (\<exists>c h. b' = count_match c h b1)"
    using deliver_local_passed [OF grp 1 run] pass [OF Cons] by simp
  show ?thesis
  proof (cases ok)
    case False
    with res st' b1(2,3) show ?thesis by auto
  next
    case True
    with res obtain c h where "(b', out) = deliver_all E key lat lon (data msg) (count_match c h b1)" by auto
    then have b': "b' = (count_match c h b1)\<lparr>subscribers := um_put key (map (after_delivery (lib_cos E) lat lon) (g # gs)) (subscribers b),
        stat_delivered_local := stat_delivered_local b' \<rparr>"
      and out: "out = map (\<lambda>g. SendTo (gc_addr g) (data msg)) (filter (closer (lib_cos E) lat lon) (g # gs))"
      using Cons sub by (simp_all add: deliver_all_def deliver_group_spec)
    have "view_of b' k = (if k = key then (view_of b1 key)\<lparr>tv_group := map (after_delivery (lib_cos E) lat lon) (g # gs)\<rparr>
        else view_of b1 k)" for k
      by (subst b') (use sub in \<open>simp add: view_of_def fun_eq_iff count_match_def\<close>)
    moreover have "child_active b' = child_active b"
      by (subst b') (use b1(2) in \<open>simp add: count_match_def\<close>)
    ultimately show ?thesis using True st' b1(3) out by (auto simp: fun_eq_iff)
  qed
qed

lemma cache_pub_view:
  "view_of (cache_pub key cp b) = (view_of b)(key := (view_of b key)
     \<lparr>tv_cache := (let ps = um_at [] (pub_cache b) key @ [cp] in if length ps > 10 then drop 1 ps else ps)\<rparr>)"
  by (auto simp: cache_pub_def view_of_def Let_def max_pub_cache_def fun_eq_iff)

definition published_view ::
    "(fp \<Rightarrow> fp) \<Rightarrow> broker_config \<Rightarrow> f32 \<Rightarrow> f32 \<Rightarrow> byte list \<Rightarrow> time_t \<Rightarrow> topic_view \<Rightarrow> topic_view \<times> action list"
  where
  "published_view C cfg lat lon raw now v =
     (let ps = tv_cache v @ [\<lparr>cp_lat = lat, cp_lon = lon, raw_message = raw\<rparr>]
      in delivered_view C cfg lat lon raw now
           (v\<lparr>tv_cache := (if length ps > 10 then drop 1 ps else ps)\<rparr>))"

lemma handle_publish_view:
  assumes run: "handle_publish E t_up now msg client b = Inr (b', out)"
    and root: "\<not> has_parent b" "child_active b = []" and name: "get_service_name msg = Some name"
    and key: "key = pub_key_of E b name (get_blinded_value msg) (msg_flags msg)"
    and pass: "\<And>g gs. um_at [] (subscribers b) key = g # gs \<Longrightarrow> passes_match E b g (get_blinded_value msg)"
    and st: "published_view (lib_cos E) (config b) (msg_lat msg) (msg_lon msg) (data msg) now (view_of b key)
      = (v, sent)"
  shows "view_of b' = (view_of b)(key := v) \<and> out = sent \<and> child_active b' = []"
proof -
  let ?b = "b\<lparr>stat_pub_received := stat_pub_received b + 1\<rparr>"
  let ?b1 = "cache_pub key \<lparr>cp_lat = msg_lat msg, cp_lon = msg_lon msg, raw_message = data msg\<rparr> ?b"
  have key': "key = pub_key_of E ?b name (get_blinded_value msg) (msg_flags msg)"
    using key by (simp add: pub_key_of_def)
  have b1: "\<not> has_parent ?b1" "child_active ?b1 = []" "subscribers ?b1 = subscribers b" "config ?b1 = config b"
    "same_setup ?b1 b"
    using root by (simp_all add: cache_pub_def Let_def same_setup_def)
  show ?thesis
  proof (rule handle_publish_stages [OF run name refl key'])
    fix b2 b3 out2 out3 out4
    assume 2: "forward_up t_up msg key (msg_lat msg) (msg_lon msg) (get_blinded_value msg)
        (msg_flags msg) ?b1 = (b2, out2)"
      and 3: "forward_down E msg key (msg_lat msg) (msg_lon msg) (get_blinded_value msg)
        (from_id_of (msg_flags msg) client ?b) b2 = (b3, out3)"
      and 4: "deliver_local E now msg key (msg_lat msg) (msg_lon msg) (get_blinded_value msg) b3 = Inr (b', out4)"
      and out: "out = out2 @ out3 @ out4"
    have b2: "b2 = ?b1" "out2 = []" using 2 b1(1) by (simp_all add: forward_up_def)
    have b3: "b3 = ?b1" "out3 = []" using 3 b1(2) b2(1) by (simp_all add: forward_down_def)
    have "delivered_view (lib_cos E) (config b3) (msg_lat msg) (msg_lon msg) (data msg) now (view_of b3 key) = (v, sent)"
      using st b1(4) by (simp add: published_view_def b3 cache_pub_view Let_def)
    moreover have "passes_match E b3 g (get_blinded_value msg)" if "um_at [] (subscribers b3) key = g # gs" for g gs
      using pass [of g gs] that passes_match_setup [OF b1(5)] b1(3) by (simp add: b3)
    ultimately have "view_of b' = (view_of b3)(key := v) \<and> out4 = sent \<and> child_active b' = child_active b3"
      by (intro deliver_local_view [OF 4]) simp_all
    then show ?thesis using b1(2) out b2 b3 by (auto simp: cache_pub_view fun_eq_iff)
  qed
qed

section \<open>The simulation of one channel\<close>

definition policy_of :: "broker_config \<Rightarrow> policy" where
  "policy_of cfg =
     \<lparr>quota = (if brake_scope cfg = Upward then None else Some (nat (sint (brake_limit cfg)))),
      quota_window = brake_window_sec cfg\<rparr>"

definition member_of :: "geo_client \<Rightarrow> member" where
  "member_of g = \<lparr>mb_addr = gc_addr g, mb_lat = gc_lat g, mb_lon = gc_lon g, mb_best = cached_closest_dist g\<rparr>"

definition cached_of :: "publication \<Rightarrow> cached_pub" where
  "cached_of p = \<lparr>cp_lat = pub_lat p, cp_lon = pub_lon p, raw_message = pub_raw p\<rparr>"

text \<open>
  The queue of the brake is the end of the admissions; those the broker has dropped had left the
  window by the clock \<open>c\<close>.
\<close>

definition window_rel :: "time_t \<Rightarrow> time_t \<Rightarrow> time_t list \<Rightarrow> window \<Rightarrow> bool" where
  "window_rel win c adm w \<longleftrightarrow> sorted adm \<and> (\<forall>a \<in> set adm. a \<le> c) \<and>
     (\<exists>old. adm = old @ w \<and> (\<forall>a \<in> set old. c - a > win))"

text \<open>A group of a hash holds blinded values of names with that hash.\<close>

definition blinded_for :: "env \<Rightarrow> 'r rng \<Rightarrow> heps \<Rightarrow> topic \<Rightarrow> geo_client \<Rightarrow> bool" where
  "blinded_for E R h t g \<longleftrightarrow>
     (case t of Clear name \<Rightarrow> True
      | Sealed w \<Rightarrow> \<exists>name s s'. lib_hash E name = w \<and> draws_coprime R (heps_n h) s \<and>
          heps_blind_subscription (lib_hash E) (lib_gmp E) R h name s
            = Some (Inr ((blinded_m1 g, blinded_m2 g), s')))"

definition channel_rel ::
    "env \<Rightarrow> 'r rng \<Rightarrow> heps \<Rightarrow> broker_config \<Rightarrow> time_t \<Rightarrow> topic \<Rightarrow> channel \<Rightarrow> topic_view \<Rightarrow> bool" where
  "channel_rel E R h cfg c t ch v \<longleftrightarrow>
     members ch = map member_of (tv_group v) \<and>
     tv_cache v = map cached_of (last_ten (published ch)) \<and>
     touched ch = tv_active v \<and>
     list_all (blinded_for E R h t) (tv_group v) \<and>
     (brake_scope cfg \<noteq> Upward \<longrightarrow>
        (\<forall>q. window_rel (brake_window_sec cfg) c (admissions ch q) (tv_windows v q)))"

lemma window_rel_mono: "window_rel win c adm w \<Longrightarrow> c \<le> now \<Longrightarrow> window_rel win now adm w"
  unfolding window_rel_def by (fastforce intro: order_trans)

lemma channel_rel_mono: "channel_rel E R h cfg c t ch v \<Longrightarrow> c \<le> now \<Longrightarrow> channel_rel E R h cfg now t ch v"
  by (auto simp: channel_rel_def intro: window_rel_mono)

lemma pop_expired_filter: "sorted w \<Longrightarrow> pop_expired win now w = filter (\<lambda>a. now - a \<le> win) w"
proof (induction w)
  case (Cons t w)
  then have "now - t \<le> win \<Longrightarrow> filter (\<lambda>a. now - a \<le> win) w = w"
    by (intro filter_True) (force)
  with Cons show ?case by auto
qed simp

lemma window_rel_step:
  assumes rel: "window_rel win c adm w" and now: "c \<le> now" and inv: "window_inv limit w"
    and st: "window_step limit win now w = (ok, w')"
  shows "ok \<longleftrightarrow> length (filter (\<lambda>a. now - a \<le> win) adm) < nat (sint limit)"
    and "window_rel win now (if ok then adm @ [now] else adm) w'"
proof -
  obtain old where old: "adm = old @ w" "\<forall>a \<in> set old. c - a > win" and srt: "sorted adm" "\<forall>a \<in> set adm. a \<le> c"
    using rel by (auto simp: window_rel_def)
  let ?w = "pop_expired win now w"
  have w: "sorted w" using srt old by (simp add: sorted_append)
  have "filter (\<lambda>a. now - a \<le> win) old = []" using old(2) now by (fastforce simp: filter_empty_conv)
  then have recent: "filter (\<lambda>a. now - a \<le> win) adm = ?w" using old(1) w by (simp add: pop_expired_filter)
  have "window_inv limit ?w"
    using inv length_pop_expired [of win now w] by (simp add: window_inv_def)
  from window_full_inv [OF this] have ok: "ok \<longleftrightarrow> length ?w < nat (sint limit)"
    and w': "w' = (if ok then ?w @ [now] else ?w)"
    using st by (auto simp: window_step_def Let_def split: if_splits)
  show "ok \<longleftrightarrow> length (filter (\<lambda>a. now - a \<le> win) adm) < nat (sint limit)" using ok recent by simp
  obtain k where k: "?w = drop k w" "\<forall>a \<in> set (take k w). now - a > win" using pop_expired_drop by blast
  have "adm = (old @ take k w) @ ?w" using old(1) k(1) by simp
  moreover have "\<forall>a \<in> set (old @ take k w). now - a > win" using old(2) k(2) now by fastforce
  moreover have "\<forall>a \<in> set adm. a \<le> now" using srt(2) now by fastforce
  ultimately show "window_rel win now (if ok then adm @ [now] else adm) w'"
    unfolding window_rel_def using srt(1) w'
    by (cases ok) (auto simp: sorted_append intro!: exI [of _ "old @ take k w"])
qed

lemma admits_step:
  assumes "channel_rel E R h cfg c t ch v" and "c \<le> now" and "window_inv (brake_limit cfg) (tv_windows v q)"
    and "local_step cfg now (tv_windows v q) = (ok, w)"
  shows "ok = admits (policy_of cfg) now (admissions ch q)"
    and "brake_scope cfg \<noteq> Upward \<Longrightarrow>
      window_rel (brake_window_sec cfg) now (if ok then admissions ch q @ [now] else admissions ch q) w"
  using assms window_rel_step [of "brake_window_sec cfg" c "admissions ch q" "tv_windows v q" now "brake_limit cfg" ok w]
  by (auto simp: local_step_def admits_def policy_of_def channel_rel_def split: if_splits)

lemma last_ten_snoc: "last_ten (xs @ [x]) = (let ys = last_ten xs @ [x] in if length ys > 10 then drop 1 ys else ys)"
proof (cases "10 \<le> length xs")
  case True
  then have "length xs - 9 = Suc (length xs - 10)" by simp
  with True show ?thesis by (simp add: last_ten_def Let_def)
qed (simp add: last_ten_def Let_def)

lemma member_of_new:
  "member_of (new_client client lat lon m1 m2)
    = \<lparr>mb_addr = client, mb_lat = lat, mb_lon = lon, mb_best = DBL_MAX\<rparr>"
  by (cases m1; cases m2) (simp_all add: member_of_def new_client_def)

lemma subscribe_simulated:
  assumes rel: "channel_rel E R h cfg c t ch v" and new: "blinded_for E R h t (new_client client lat lon m1 m2)"
    and st: "subscribed_view C lat lon query client m1 m2 now v = (v', out)"
  shows "\<exists>ch'. subscribe_channel C lat lon query client now ch = (ch', out) \<and> channel_rel E R h cfg c t ch' v'"
proof -
  let ?d = "\<lambda>p. distance C lat lon (pub_lat p) (pub_lon p)"
  have dist: "pub_dist C lat lon (cached_of p) = ?d p" for p
    by (simp add: pub_dist_def distance_def cached_of_def)
  let ?found = "if query then nearest ?d (last_ten (published ch)) else None"
  have found: "(if query then nearest (pub_dist C lat lon) (tv_cache v) else None) = map_option cached_of ?found"
    using rel by (simp add: channel_rel_def nearest_map dist)
  show ?thesis
  proof (cases ?found)
    case None
    with st found rel new show ?thesis
      by (auto simp: subscribed_view_def subscribe_channel_def Let_def channel_rel_def member_of_new)
  next
    case (Some p)
    have "blinded_for E R h t ((new_client client lat lon m1 m2)\<lparr>cached_closest_dist := ?d p\<rparr>)"
      using new by (simp add: blinded_for_def split: topic.splits)
    moreover have "member_of ((new_client client lat lon m1 m2)\<lparr>cached_closest_dist := ?d p\<rparr>)
        = \<lparr>mb_addr = client, mb_lat = lat, mb_lon = lon, mb_best = ?d p\<rparr>"
      using member_of_new [of client lat lon m1 m2] by (simp add: member_of_def)
    ultimately show ?thesis
      using st found rel Some
      by (auto simp: subscribed_view_def subscribe_channel_def Let_def channel_rel_def set_last_dist_def dist)
        (auto simp: cached_of_def)
  qed
qed

lemma closer_member: "comes_closer C lat lon (member_of g) = closer C lat lon g"
  by (simp add: comes_closer_def closer_def distance_def client_dist_def member_of_def)

lemma publish_simulated:
  assumes rel: "channel_rel E R h cfg c t ch v" and now: "c \<le> now"
    and inv: "window_inv (brake_limit cfg) (tv_windows v (get_quadrant lat lon))"
    and st: "published_view C cfg lat lon raw now v = (v', out)"
  shows "\<exists>ch'. publish_channel C (policy_of cfg) lat lon raw now ch = (ch', out) \<and>
    channel_rel E R h cfg now t ch' v'"
proof -
  let ?q = "get_quadrant lat lon" and ?p = "\<lparr>pub_lat = lat, pub_lon = lon, pub_raw = raw\<rparr>"
  let ?ch = "ch\<lparr>published := published ch @ [?p]\<rparr>"
  let ?ps = "tv_cache v @ [\<lparr>cp_lat = lat, cp_lon = lon, raw_message = raw\<rparr>]"
  let ?v = "v\<lparr>tv_cache := (if length ?ps > 10 then drop 1 ?ps else ?ps)\<rparr>"
  have "tv_cache ?v = map cached_of (last_ten (published ?ch))"
    using rel by (auto simp: channel_rel_def last_ten_snoc Let_def cached_of_def drop_map)
  then have rel': "channel_rel E R h cfg c t ?ch ?v" using rel by (simp add: channel_rel_def)
  obtain ok w where w: "local_step cfg now (tv_windows ?v ?q) = (ok, w)" by force
  have inv': "window_inv (brake_limit cfg) (tv_windows ?v ?q)" using inv by simp
  note ad = admits_step [OF rel' now inv' w]
  have st': "delivered_view C cfg lat lon raw now ?v = (v', out)" using st by (simp add: published_view_def Let_def)
  have mem: "members ?ch = map member_of (tv_group ?v)" using rel by (simp add: channel_rel_def)
  consider (empty) "tv_group v = []" | (braked) "tv_group v \<noteq> []" "\<not> ok" | (passed) "tv_group v \<noteq> []" "ok" by blast
  then show ?thesis
  proof cases
    case empty
    then show ?thesis
      using st' w mem channel_rel_mono [OF rel' now] by (auto simp: delivered_view_def publish_channel_def Let_def)
  next
    case braked
    then have "v' = ?v\<lparr>tv_windows := (tv_windows v)(?q := w)\<rparr>" "out = []"
      using st' w by (auto simp: delivered_view_def Let_def)
    moreover have "channel_rel E R h cfg now t ?ch (?v\<lparr>tv_windows := (tv_windows v)(?q := w)\<rparr>)"
      using channel_rel_mono [OF rel' now] ad(2) braked(2) by (auto simp: channel_rel_def)
    ultimately show ?thesis using braked ad(1) mem by (auto simp: publish_channel_def Let_def)
  next
    case passed
    then have "v' = ?v\<lparr>tv_windows := (tv_windows v)(?q := w), tv_group := map (after_delivery C lat lon) (tv_group v)\<rparr>"
      "out = map (\<lambda>g. SendTo (gc_addr g) raw) (filter (closer C lat lon) (tv_group v))"
      using st' w by (auto simp: delivered_view_def Let_def)
    moreover have "member_of (after_delivery C lat lon g) = (if comes_closer C lat lon (member_of g)
        then (member_of g)\<lparr>mb_best := distance C lat lon (mb_lat (member_of g)) (mb_lon (member_of g))\<rparr>
        else member_of g)" for g
      unfolding closer_member by (simp add: after_delivery_def distance_def client_dist_def member_of_def)
    moreover have "blinded_for E R h t (after_delivery C lat lon g) = blinded_for E R h t g" for g
      by (simp add: blinded_for_def split: topic.split)
    moreover have "brake_scope cfg \<noteq> Upward \<Longrightarrow> window_rel (brake_window_sec cfg) now (admissions ch q) (tv_windows v q)" for q
      using channel_rel_mono [OF rel' now] by (simp add: channel_rel_def)
    ultimately show ?thesis
      using rel' passed ad mem
      by (auto simp: publish_channel_def Let_def channel_rel_def filter_map comp_def closer_member list_all_iff)
        (auto simp: member_of_def)
  qed
qed

end
