(* ===== verification/Service_Refinement.thy ===== *)
theory Service_Refinement
  imports Service
begin

text \<open>
  The broker of \<^verbatim>\<open>src/broker/broker.cpp\<close>, without parent and without child subscriptions,
  implements the service: whatever its clients send, and whenever the loop sweeps, it sends
  exactly what the service sends, in that order, in plaintext and in encrypted mode.
\<close>

section \<open>The simulation of the broker\<close>

text \<open>A datagram that carries a request, as the clients of \<^verbatim>\<open>test_client.cpp\<close> make it.\<close>

definition carries :: "env \<Rightarrow> 'r rng \<Rightarrow> heps \<Rightarrow> request \<Rightarrow> event \<Rightarrow> bool" where
  "carries E R h req ev \<longleftrightarrow> length (ev_bytes ev) \<le> recv_buffer \<and>
     (case req of
        Subscribe t lat lon query client now \<Rightarrow>
          proper_topic t \<and> client = ev_from ev \<and> now = ev_t1 ev \<and>
          (\<exists>name. length name < 2 ^ 16 \<and>
             (case t of
                Clear n \<Rightarrow> n = name \<and> ev_bytes ev = sub_packet name lat lon query None
              | Sealed w \<Rightarrow> lib_hash E name = w \<and>
                  (\<exists>m1 m2 s s'. draws_coprime R (heps_n h) s \<and>
                     heps_blind_subscription (lib_hash E) (lib_gmp E) R h name s = Some (Inr ((m1, m2), s')) \<and>
                     ev_bytes ev = sub_packet name lat lon query (Some (m1, m2)))))
      | Publish t lat lon raw now \<Rightarrow>
          proper_topic t \<and> raw = ev_bytes ev \<and> now = ev_t2 ev \<and>
          (\<exists>name payload. length name < 2 ^ 16 \<and> length payload < 2 ^ 32 \<and>
             (case t of
                Clear n \<Rightarrow> n = name \<and> raw = pub_packet name lat lon payload None
              | Sealed w \<Rightarrow> lib_hash E name = w \<and>
                  (\<exists>bval s s'. heps_blind_notification (lib_hash E) (lib_gmp E) R h name s = Inr (bval, s') \<and>
                     raw = pub_packet name lat lon payload (Some bval))))
      | Beat t now \<Rightarrow> proper_topic t \<and> now = ev_t1 ev \<and>
          (\<exists>name. t = Clear name \<and> length name < 4000 \<and> ev_bytes ev = beat_packet name)
      | Noise \<Rightarrow> \<not> valid (tlv_message (ev_bytes ev)))"

definition keyed :: "env \<Rightarrow> 'r rng \<Rightarrow> heps \<Rightarrow> bool" where
  "keyed E R h \<longleftrightarrow> gmp_spec (lib_gmp E) \<and> rng_spec R \<and> honest_key h \<and> heps_n h < 2 ^ 2048"

definition simulates :: "env \<Rightarrow> 'r rng \<Rightarrow> heps \<Rightarrow> time_t \<Rightarrow> service \<Rightarrow> broker \<Rightarrow> bool" where
  "simulates E R h c s b \<longleftrightarrow> broker_wf b \<and> same_key b h \<and> \<not> has_parent b \<and> child_active b = [] \<and>
     (\<forall>t. proper_topic t \<longrightarrow> channel_rel E R h (config b) c t (s t) (view_of b (topic_key t)))"

text \<open>One channel changes, the others stay.\<close>

lemma simulates_step:
  assumes sim: "simulates E R h c s b" and now: "c \<le> c'" and t: "proper_topic t"
    and b': "broker_wf b'" "same_setup b' b" "child_active b' = []"
      "\<And>k. view_of b' k = (if k = topic_key t then v else view_of b k)"
    and rel: "channel_rel E R h (config b) c' t ch v"
  shows "simulates E R h c' (s(t := ch)) b'"
proof -
  have "channel_rel E R h (config b) c' t' ((s(t := ch)) t') (view_of b' (topic_key t'))" if "proper_topic t'" for t'
  proof (cases "t' = t")
    case True
    then show ?thesis using rel b'(4) by simp
  next
    case False
    have "view_of b' (topic_key t') = view_of b (topic_key t')"
      using False topic_key_inj [OF that t] b'(4) by simp
    moreover have "channel_rel E R h (config b) c t' (s t') (view_of b (topic_key t'))"
      using sim that by (simp add: simulates_def)
    ultimately show ?thesis using channel_rel_mono [OF _ now] False by simp
  qed
  then show ?thesis using sim b' by (simp add: simulates_def same_setup_def same_key_def)
qed

lemma receive_subscribe_simulated:
  assumes sim: "simulates E R h c s b" and key: "keyed E R h"
    and car: "carries E R h (Subscribe t lat lon query client now) ev"
    and run: "receive E ev b = Inr (b', out)"
  shows "\<exists>s'. serve (lib_cos E) (policy_of (config b)) (Subscribe t lat lon query client now) s = (s', out) \<and>
    simulates E R h c s' b'"
proof -
  have t: "proper_topic t" "client = ev_from ev" "now = ev_t1 ev" and fit: "length (ev_bytes ev) \<le> recv_buffer"
    using car by (simp_all add: carries_def)
  obtain name bvals where name: "length name < 2 ^ 16" and ev: "ev_bytes ev = sub_packet name lat lon query bvals"
    and short: "short_pair bvals" and k: "sub_key_of E b name (map_option fst bvals) = topic_key t"
    and new: "blinded_for E R h t (new_client client lat lon (map_option fst bvals) (map_option snd bvals))"
  proof (cases t)
    case (Clear n)
    then show ?thesis using car that [of n None]
      by (auto simp: carries_def short_pair_def sub_key_of_def topic_key_def blinded_for_def)
  next
    case (Sealed w)
    then obtain name m1 m2 z z' where n: "length name < 2 ^ 16" "lib_hash E name = w" "draws_coprime R (heps_n h) z"
      "heps_blind_subscription (lib_hash E) (lib_gmp E) R h name z = Some (Inr ((m1, m2), z'))"
      "ev_bytes ev = sub_packet name lat lon query (Some (m1, m2))"
      using car by (auto simp: carries_def)
    obtain p q where pq: "key_params p q (heps_paillier h)" "kn (heps_paillier h) < 2 ^ 2048"
      using key by (auto simp: keyed_def honest_key_def)
    have "gmp_spec (lib_gmp E)" using key by (simp add: keyed_def)
    from gmp_spec.subscription_length [OF this pq n(4)]
    have "short_pair (Some (m1, m2))" by (simp add: short_pair_def)
    moreover have "he_enabled b" using sim by (simp add: simulates_def same_key_def)
    ultimately show ?thesis
      using n Sealed that [of name "Some (m1, m2)"] hash_topic [of E name]
      by (auto simp: sub_key_of_def blinded_for_def new_client_def Let_def)
  qed
  let ?b = "b\<lparr>stat_sub_received := stat_sub_received b + 1\<rparr>" and ?m = "tlv_message (ev_bytes ev)"
  note v = sub_view [OF name short ev [THEN arg_cong [of _ _ tlv_message]]]
  have loc: "subscribe_local E now ?m name lat lon (if query then QUERY_MODE else 0) client ?b = (b', out)"
    using receive_sub [OF name short ev fit, of E b] run t by simp
  have key': "topic_key t = sub_key_of E ?b name (get_blinded_value ?m)" using k v(4) by (simp add: sub_key_of_def)
  have q: "and (if query then QUERY_MODE else 0) QUERY_MODE \<noteq> 0 \<longleftrightarrow> query" by (simp add: QUERY_MODE_def)
  obtain w sent where st: "subscribed_view (lib_cos E) lat lon query client (map_option fst bvals)
      (map_option snd bvals) now (view_of b (topic_key t)) = (w, sent)" by force
  have view: "view_of b' k = (if k = topic_key t then w else view_of b k) \<and> out = sent" for k
    using subscribe_local_view [OF loc _ key', of w sent k] sim st q v(4,5) by (simp add: simulates_def)
  have rel: "channel_rel E R h (config b) c t (s t) (view_of b (topic_key t))"
    using sim t(1) by (simp add: simulates_def)
  obtain ch where ch: "subscribe_channel (lib_cos E) lat lon query client now (s t) = (ch, sent)"
    "channel_rel E R h (config b) c t ch w" using subscribe_simulated [OF rel new st] by blast
  have "broker_wf b'" "same_setup b' b" using receive_keeps [OF run] sim by (simp_all add: keeps_def simulates_def)
  moreover have "child_active b' = []"
    using loc sim
    by (auto simp: subscribe_local_def Let_def extend_region_def add_subscriber_def propagate_subscription_def
        query_cache_cases simulates_def split: if_splits option.splits)
  ultimately have "simulates E R h c (s(t := ch)) b'"
    using simulates_step [OF sim order_refl t(1), of b' w ch] view ch(2) by simp
  then show ?thesis using ch(1) view by (simp add: serve_def)
qed

lemma blinded_passes:
  assumes key: "keyed E R h" "same_key b h" and g: "blinded_for E R h (Sealed (lib_hash E name)) g"
    and pub: "heps_blind_notification (lib_hash E) (lib_gmp E) R h name z = Inr (bval, z')"
  shows "passes_match E b g (Some bval)"
proof -
  obtain name' y y' where n: "lib_hash E name' = lib_hash E name" "draws_coprime R (heps_n h) y"
    "heps_blind_subscription (lib_hash E) (lib_gmp E) R h name' y = Some (Inr ((blinded_m1 g, blinded_m2 g), y'))"
    using g by (auto simp: blinded_for_def)
  from key have "gmp_spec (lib_gmp E)" "rng_spec R" "honest_key h" by (simp_all add: keyed_def)
  from encrypted_passes [OF this(1,2) key(2) this(3) n(3,2) refl refl pub] n(1) show ?thesis by simp
qed

lemma receive_publish_simulated:
  assumes sim: "simulates E R h c s b" and key: "keyed E R h" and now: "c \<le> now"
    and car: "carries E R h (Publish t lat lon raw now) ev" and run: "receive E ev b = Inr (b', out)"
  shows "\<exists>s'. serve (lib_cos E) (policy_of (config b)) (Publish t lat lon raw now) s = (s', out) \<and>
    simulates E R h now s' b'"
proof -
  have t: "proper_topic t" "raw = ev_bytes ev" "now = ev_t2 ev" and fit: "length (ev_bytes ev) \<le> recv_buffer"
    using car by (simp_all add: carries_def)
  have root: "\<not> has_parent b" "child_active b = []" "same_key b h" "broker_wf b"
    and rel: "channel_rel E R h (config b) c t (s t) (view_of b (topic_key t))"
    using sim t(1) by (simp_all add: simulates_def)
  have grp: "list_all (blinded_for E R h t) (um_at [] (subscribers b) (topic_key t))"
    using rel by (simp add: channel_rel_def)
  obtain name payload bval where len: "length name < 2 ^ 16" "length payload < 2 ^ 32" "\<And>v. bval = Some v \<Longrightarrow> length v < 2 ^ 16"
    and ev: "ev_bytes ev = pub_packet name lat lon payload bval" and k: "pub_key_of E b name bval 0 = topic_key t"
    and pass: "\<And>g gs. um_at [] (subscribers b) (topic_key t) = g # gs \<Longrightarrow> passes_match E b g bval"
  proof (cases t)
    case (Clear n)
    obtain payload where "length n < 2 ^ 16" "length payload < 2 ^ 32" "ev_bytes ev = pub_packet n lat lon payload None"
      using car t(2) Clear by (auto simp: carries_def)
    then show ?thesis
      using that [of n payload None] Clear
      by (simp add: pub_key_of_def topic_key_def passes_match_def split: bool.split)
  next
    case (Sealed w)
    then obtain name payload bval z z' where n: "length name < 2 ^ 16" "length payload < 2 ^ 32" "lib_hash E name = w"
      "heps_blind_notification (lib_hash E) (lib_gmp E) R h name z = Inr (bval, z')"
      "ev_bytes ev = pub_packet name lat lon payload (Some bval)"
      using car t(2) by (auto simp: carries_def)
    obtain p q where pq: "key_params p q (heps_paillier h)" "kn (heps_paillier h) < 2 ^ 2048" "2 \<le> kr_m (heps_paillier h)"
      using key by (auto simp: keyed_def honest_key_def scale_ok_def)
    have "gmp_spec (lib_gmp E)" "rng_spec R" using key by (simp_all add: keyed_def)
    from gmp_spec.notification_length [OF this(1) pq(1,2) this(2) pq(3) n(4)] have "length bval < 2 ^ 16" by simp
    moreover have "he_enabled b" using root(3) by (simp add: same_key_def)
    moreover have "passes_match E b g (Some bval)" if "um_at [] (subscribers b) (topic_key t) = g # gs" for g gs
      using blinded_passes [OF key root(3) _ n(4), of g] grp that Sealed n(3) by simp
    ultimately show ?thesis
      using n Sealed that [of name payload "Some bval"] hash_topic [of E name] by (simp add: pub_key_of_def)
  qed
  let ?m = "tlv_message (ev_bytes ev)"
  note v = pub_view [OF len ev [THEN arg_cong [of _ _ tlv_message]]]
  have at: "msg_lat ?m = lat" "msg_lon ?m = lon" "msg_flags ?m = 0"
    using v(2,3) by (simp_all add: msg_lat_def msg_lon_def msg_flags_def)
  have pub: "handle_publish E (ev_t1 ev) now ?m (ev_from ev) b = Inr (b', out)"
    using receive_pub [OF len ev fit, of E b] run t(3) by simp
  have key': "topic_key t = pub_key_of E b name (get_blinded_value ?m) (msg_flags ?m)"
    using k v(4) at by simp
  obtain w sent where st: "published_view (lib_cos E) (config b) lat lon raw now (view_of b (topic_key t)) = (w, sent)"
    by force
  have view: "view_of b' = (view_of b)(topic_key t := w) \<and> out = sent \<and> child_active b' = []"
    using pass v(4) st t(2) at by (intro handle_publish_view [OF pub root(1,2) v(1) key']) simp_all
  have inv: "window_inv (brake_limit (config b)) (tv_windows (view_of b (topic_key t)) (get_quadrant lat lon))"
    using root(4) by (simp add: broker_wf_def windows_wf_def)
  obtain ch where ch: "publish_channel (lib_cos E) (policy_of (config b)) lat lon raw now (s t) = (ch, sent)"
    "channel_rel E R h (config b) now t ch w" using publish_simulated [OF rel now inv st] by blast
  have "broker_wf b'" "same_setup b' b" using receive_keeps [OF run] root(4) by (simp_all add: keeps_def)
  then have "simulates E R h now (s(t := ch)) b'"
    using simulates_step [OF sim now t(1), of b' w ch] view ch(2) by simp
  then show ?thesis using ch(1) view by (simp add: serve_def)
qed

lemma receive_beat_simulated:
  assumes sim: "simulates E R h c s b" and car: "carries E R h (Beat t now) ev"
    and run: "receive E ev b = Inr (b', out)"
  shows "\<exists>s'. serve C P (Beat t now) s = (s', out) \<and> simulates E R h c s' b'"
proof -
  obtain name where n: "t = Clear name" "length name < 4000" "ev_bytes ev = beat_packet name" "now = ev_t1 ev"
    and t: "proper_topic t" using car by (auto simp: carries_def)
  have b': "b' = b\<lparr>last_active := um_put name now (last_active b)\<rparr>" "out = []"
    using receive_beat [OF n(2,3), of E b] run n(4) by simp_all
  have "broker_wf b'" "same_setup b' b" using receive_keeps [OF run] sim by (simp_all add: keeps_def simulates_def)
  moreover have "channel_rel E R h (config b) c t ((s t)\<lparr>touched := Some now\<rparr>)
      ((view_of b (topic_key t))\<lparr>tv_active := Some now\<rparr>)"
    using sim t by (simp add: simulates_def channel_rel_def)
  ultimately have "simulates E R h c (s(t := (s t)\<lparr>touched := Some now\<rparr>)) b'"
    using sim n(1) t
    by (intro simulates_step [OF sim order_refl t, where v = "(view_of b (topic_key t))\<lparr>tv_active := Some now\<rparr>"])
      (auto simp: b' view_of_def topic_key_def simulates_def)
  then show ?thesis by (simp add: serve_def b')
qed

text \<open>The clock: a publication moves it.\<close>

definition clock_after :: "time_t \<Rightarrow> request \<Rightarrow> time_t" where
  "clock_after c req = (case req of Publish t lat lon raw now \<Rightarrow> now | _ \<Rightarrow> c)"

fun in_order :: "time_t \<Rightarrow> request list \<Rightarrow> bool" where
  "in_order c [] \<longleftrightarrow> True"
| "in_order c (r # rs) \<longleftrightarrow> c \<le> clock_after c r \<and> in_order (clock_after c r) rs"

lemma receive_simulated:
  assumes sim: "simulates E R h c s b" and key: "keyed E R h" and now: "c \<le> clock_after c req"
    and car: "carries E R h req ev" and run: "receive E ev b = Inr (b', out)"
  shows "\<exists>s'. serve (lib_cos E) (policy_of (config b)) req s = (s', out) \<and>
    simulates E R h (clock_after c req) s' b'"
proof (cases req)
  case (Subscribe t lat lon query client now)
  then show ?thesis using receive_subscribe_simulated [OF sim key _ run] car by (simp add: clock_after_def)
next
  case (Publish t lat lon raw now)
  then show ?thesis
    using receive_publish_simulated [OF sim key _ _ run] car now by (simp add: clock_after_def)
next
  case (Beat t now)
  then show ?thesis using receive_beat_simulated [OF sim _ run] car by (simp add: clock_after_def)
next
  case Noise
  then have "receive E ev b = Inr (b, [])" using car by (intro receive_invalid) (simp add: carries_def)
  then show ?thesis using run sim Noise by (simp add: serve_def clock_after_def)
qed

lemma receive_all_simulated:
  assumes key: "keyed E R h"
  shows "simulates E R h c s b \<Longrightarrow> in_order c reqs \<Longrightarrow> list_all2 (carries E R h) reqs evs \<Longrightarrow>
    receive_all E evs b = Inr (b', out) \<Longrightarrow>
    \<exists>s' c'. serve_all (lib_cos E) (policy_of (config b)) reqs s = (s', out) \<and> simulates E R h c' s' b' \<and>
      c' = fold (\<lambda>r c. clock_after c r) reqs c \<and> config b' = config b"
proof (induction reqs arbitrary: c s b evs out)
  case (Cons r reqs)
  then obtain ev evs' where evs: "evs = ev # evs'" "carries E R h r ev" "list_all2 (carries E R h) reqs evs'"
    by (auto simp: list_all2_Cons1)
  obtain b1 out1 out2 where run: "receive E ev b = Inr (b1, out1)" "receive_all E evs' b1 = Inr (b', out2)"
    "out = out1 @ out2"
    using Cons.prems(4) evs(1) by (auto split: sum.splits prod.splits)
  obtain s1 where s1: "serve (lib_cos E) (policy_of (config b)) r s = (s1, out1)" "simulates E R h (clock_after c r) s1 b1"
    using receive_simulated [OF Cons.prems(1) key _ evs(2) run(1)] Cons.prems(2) by auto
  have cfg: "config b1 = config b"
    using receive_keeps [OF run(1)] Cons.prems(1) by (simp add: keeps_def same_setup_def simulates_def)
  from Cons.IH [OF s1(2) _ evs(3) run(2)] Cons.prems(2) s1(1) run(3) cfg show ?case by auto
qed simp

section \<open>The sweep\<close>

definition empty_view :: topic_view where
  "empty_view = \<lparr>tv_group = [], tv_cache = [], tv_active = None, tv_windows = (\<lambda>_. [])\<rparr>"

lemma cleanup_view:
  assumes "broker_wf b"
  shows "view_of (cleanup_expired now b) k = (if overdue now b k then empty_view else view_of b k)"
  using cleanup_expired_finds(1-3) [OF assms, of now k] cleanup_expired_finds(5) [OF assms, of now k]
  by (simp add: view_of_def empty_view_def um_at_def fun_eq_iff)

lemma empty_channel_rel: "channel_rel E R h cfg c t empty_channel empty_view"
  by (simp add: channel_rel_def empty_channel_def empty_view_def last_ten_def window_rel_def)

lemma overdue_channel:
  assumes wf: "broker_wf b" and rel: "channel_rel E R h cfg c t ch (view_of b k)"
  shows "expire_channel now ch = (if overdue now b k then empty_channel else ch)"
proof (cases "um_find (subscribers b) k")
  case None
  then have "members ch = []" using rel by (simp add: channel_rel_def um_at_def)
  with None show ?thesis by (simp add: expire_channel_def overdue_def)
next
  case (Some gs)
  then have "gs \<noteq> []" using wf by (auto simp: broker_wf_def groups_wf_def)
  then have "members ch \<noteq> []" using rel Some by (simp add: channel_rel_def um_at_def)
  moreover obtain u where "um_find (last_active b) k = Some u"
    using wf Some by (auto simp: broker_wf_def active_wf_def)
  ultimately show ?thesis
    using rel Some by (simp add: expire_channel_def overdue_def channel_rel_def um_at_def TTL_SECONDS_def)
qed

lemma cleanup_simulated:
  assumes sim: "simulates E R h c s b"
  shows "simulates E R h c (\<lambda>t. expire_channel now (s t)) (cleanup_expired now b)"
proof -
  have wf: "broker_wf b" using sim by (simp add: simulates_def)
  note keep = cleanup_expired_wf [OF wf, of now]
  have "channel_rel E R h (config b) c t (expire_channel now (s t)) (view_of (cleanup_expired now b) (topic_key t))"
    if "proper_topic t" for t
  proof -
    have rel: "channel_rel E R h (config b) c t (s t) (view_of b (topic_key t))"
      using sim that by (simp add: simulates_def)
    show ?thesis
      unfolding overdue_channel [OF wf rel] cleanup_view [OF wf]
      using rel by (simp add: empty_channel_rel)
  qed
  then show ?thesis
    using sim keep cleanup_expired_finds(6) [OF wf, of now]
    by (simp add: simulates_def same_setup_def same_key_def)
qed

section \<open>The simulation of the loop\<close>

text \<open>Turns of the loop, one after the other.\<close>

fun loop_turns :: "env \<Rightarrow> wait_result list \<Rightarrow> node \<Rightarrow> crypto_error + node \<times> action list" where
  "loop_turns E [] nd = Inr (nd, [])"
| "loop_turns E (w # ws) nd =
     (case loop_turn E w nd of Inl e \<Rightarrow> Inl e
      | Inr (nd1, out1) \<Rightarrow>
          (case loop_turns E ws nd1 of Inl e \<Rightarrow> Inl e
           | Inr (nd2, out2) \<Rightarrow> Inr (nd2, out1 @ out2)))"

definition turn_carries :: "env \<Rightarrow> 'r rng \<Rightarrow> heps \<Rightarrow> turn \<Rightarrow> wait_result \<Rightarrow> bool" where
  "turn_carries E R h turn w \<longleftrightarrow>
     (\<exists>evs. w = Ready evs (fst (snd turn)) (snd (snd turn)) \<and> list_all2 (carries E R h) (fst turn) evs)"

lemma in_order_append:
  "in_order c (rs @ rs') \<longleftrightarrow> in_order c rs \<and> in_order (fold (\<lambda>r c. clock_after c r) rs c) rs'"
  by (induction rs arbitrary: c) auto

theorem loop_simulated:
  assumes key: "keyed E R h"
  shows "simulates E R h c s (nd_broker nd) \<Longrightarrow> list_all2 (turn_carries E R h) turns ws \<Longrightarrow>
    in_order c (concat (map fst turns)) \<Longrightarrow>
    \<exists>nd'. loop_turns E ws nd = Inr (nd', service_run (lib_cos E) (policy_of (config (nd_broker nd))) turns
      (nd_last_cleanup nd) s)"
proof (induction turns arbitrary: c s nd ws)
  case (Cons turn turns)
  obtain reqs now sweep where turn: "turn = (reqs, now, sweep)" by (cases turn)
  from Cons.prems(2) obtain w ws' where w: "ws = w # ws'" "turn_carries E R h turn w"
    and rest: "list_all2 (turn_carries E R h) turns ws'" by (auto simp: list_all2_Cons1)
  from w obtain evs where ws: "ws = Ready evs now sweep # ws'" "list_all2 (carries E R h) reqs evs"
    by (auto simp: turn_carries_def turn)
  let ?b = "nd_broker nd"
  have wf: "broker_wf ?b" using Cons.prems(1) by (simp add: simulates_def)
  obtain b1 out where run: "receive_all E evs ?b = Inr (b1, out)" using receive_all_total [OF wf] by blast
  have order: "in_order c reqs" "in_order (fold (\<lambda>r c. clock_after c r) reqs c) (concat (map fst turns))"
    using Cons.prems(3) by (simp_all add: turn in_order_append)
  obtain s1 where s1: "serve_all (lib_cos E) (policy_of (config ?b)) reqs s = (s1, out)"
    "simulates E R h (fold (\<lambda>r c. clock_after c r) reqs c) s1 b1" "config b1 = config ?b"
    using receive_all_simulated [OF key Cons.prems(1) order(1) ws(2) run] by blast
  let ?sweep = "now - nd_last_cleanup nd > CLEANUP_INTERVAL_SEC"
  define nd1 where "nd1 = (if ?sweep
    then nd\<lparr>nd_broker := cleanup_expired sweep b1, nd_last_cleanup := now\<rparr> else nd\<lparr>nd_broker := b1\<rparr>)"
  have turn1: "loop_turn E (Ready evs now sweep) nd = Inr (nd1, out)"
    by (simp add: loop_turn_def run nd1_def)
  have cfg: "config (nd_broker nd1) = config ?b"
    using s1(2,3) cleanup_expired_wf [of b1 sweep] by (simp add: nd1_def simulates_def same_setup_def)
  have sim1: "simulates E R h (fold (\<lambda>r c. clock_after c r) reqs c)
      (if ?sweep then (\<lambda>t. expire_channel sweep (s1 t)) else s1) (nd_broker nd1)"
    using s1(2) cleanup_simulated [OF s1(2), of sweep] by (simp add: nd1_def)
  from Cons.IH [OF sim1 rest order(2)] obtain nd2 where
    "loop_turns E ws' nd1 = Inr (nd2, service_run (lib_cos E) (policy_of (config ?b)) turns (nd_last_cleanup nd1)
       (if ?sweep then (\<lambda>t. expire_channel sweep (s1 t)) else s1))"
    unfolding cfg by blast
  then show ?case
    using turn1 by (simp add: ws(1) turn s1(1) nd1_def CLEANUP_INTERVAL_SEC_def)
qed simp

text \<open>A broker that has just been constructed, and the start of the service.\<close>

definition unused_broker :: "broker \<Rightarrow> bool" where
  "unused_broker b \<longleftrightarrow> broker_wf b \<and> \<not> has_parent b \<and> subscribers b = [] \<and> pub_cache b = [] \<and>
     last_active b = [] \<and> brake_count_local b = [] \<and> child_active b = []"

lemma unused_simulates:
  assumes "unused_broker b" and "same_key b h"
  shows "simulates E R h c (\<lambda>t. empty_channel) b"
proof -
  have "view_of b k = empty_view" for k
    using assms(1) by (simp add: unused_broker_def view_of_def empty_view_def um_at_def fun_eq_iff)
  then show ?thesis using assms by (simp add: simulates_def unused_broker_def empty_channel_rel)
qed

theorem fresh_broker_serves:
  assumes "keyed E R h" and "unused_broker b" and "same_key b h"
    and "list_all2 (turn_carries E R h) turns ws" and "in_order c (concat (map fst turns))"
  shows "\<exists>nd. loop_turns E ws (start_node t0 b) =
    Inr (nd, service_run (lib_cos E) (policy_of (config b)) turns t0 (\<lambda>t. empty_channel))"
  using loop_simulated [OF assms(1) _ assms(4,5), of "\<lambda>t. empty_channel" "start_node t0 b"]
    by (simp add: start_node_def unused_simulates [OF assms(2,3)])

text \<open>The turns are a run of the loop.\<close>

lemma loop_turns_run:
  "nd_running nd \<Longrightarrow> list_all (\<lambda>w. \<exists>evs now sweep. w = Ready evs now sweep) ws \<Longrightarrow>
    loop_turns E ws nd = Inr (nd', out) \<Longrightarrow> loop_run E nd0 out0 nd \<Longrightarrow> loop_run E nd0 (out0 @ out) nd'"
proof (induction ws arbitrary: nd out out0)
  case (Cons w ws)
  obtain nd1 out1 out2 where 1: "loop_turn E w nd = Inr (nd1, out1)" "loop_turns E ws nd1 = Inr (nd', out2)"
    "out = out1 @ out2" using Cons.prems(3) by (auto split: sum.splits prod.splits)
  have "nd_running nd1" using 1(1) Cons.prems(1,2) by (auto simp: loop_turn_def split: sum.splits if_splits)
  moreover have "loop_run E nd0 (out0 @ out1) nd1"
    using loop_run.more [OF Cons.prems(4) loop_step.turn [OF Cons.prems(1) 1(1)]] .
  ultimately show ?case using Cons.IH [of nd1 out2 "out0 @ out1"] Cons.prems(2) 1(2,3) by simp
qed simp

end
