(* ===== verification/Sample_Deployment.thy ===== *)
theory Sample_Deployment
  imports Sample_Network Assembly Service_Refinement
begin

text \<open>
  The inputs on which the lemmas on whole deployments are applied: the key files of the sample
  key, two leaves that read them, and the command lines of two clients.
\<close>

section \<open>The key files of the sample key\<close>

definition keyed_fs :: file_system where
  "keyed_fs = Map.empty
     (key_file \<mapsto> \<lparr>f_data = write_lines [mpz_to_hex gmp_ref (kn sample_key), mpz_to_hex gmp_ref (kmu sample_key)],
        f_mode = 0x180\<rparr>,
      full_key_file \<mapsto> \<lparr>f_data = write_lines (full_key_lines gmp_ref sample_key), f_mode = 0x180\<rparr>)"

text \<open>What a client makes of them: the key without its primes.\<close>

definition loaded_heps :: heps where
  "loaded_heps = \<lparr>heps_paillier = sample_key\<lparr>kp := 0, kq := 0\<rparr>, heps_n = kn sample_key, heps_mu = kmu sample_key\<rparr>"

lemma loaded_sel:
  "heps_n loaded_heps = 1360041547073261049741313" "heps_mu loaded_heps = kmu sample_key"
  "heps_n loaded_heps = heps_n sample_heps"
  by (simp_all add: loaded_heps_def sample_heps_def sample_key_def)

lemma loaded_honest: "honest_key loaded_heps" "heps_n loaded_heps < 2 ^ 2048"
  using sample_honest sample_small key_params_cong [where k = sample_key and x = 0 and y = 0]
  by (simp_all add: honest_key_def sample_heps_def loaded_heps_def)

lemma keyed_leaf_key:
  "leaf_key (lib_gmp sample_env) (read_file sample_os key_file keyed_fs) = Some (heps_n loaded_heps, heps_mu loaded_heps)"
proof -
  have "0 < kn sample_key" "0 \<le> kmu sample_key" by (simp_all add: sample_key_def)
  from ref_gmp.leaf_key_written [OF this] show ?thesis
    by (simp add: read_file_def sample_os_def keyed_fs_def loaded_heps_def)
qed

lemma keyed_load:
  "load_state (lib_gmp sample_env) (read_file sample_os full_key_file keyed_fs) heps_default = (True, loaded_heps)"
proof -
  have "kn_sq sample_key = kn sample_key * kn sample_key" "kg sample_key = kn sample_key + 1"
    by (simp_all add: sample_key_def)
  with ref_gmp.load_full_key [OF wire_key_params [OF sample_key_params], of heps_default] show ?thesis
    by (simp add: read_file_def sample_os_def keyed_fs_def loaded_heps_def heps_default_def paillier_default_def)
qed

lemma loaded_draws: "draws_coprime rng_ref (heps_n loaded_heps) [1, 1]"
  unfolding loaded_sel(3) by (rule sample_coprime)

lemma sample_os_sel: "os_socket sample_os" "os_bind sample_os p"
  by (simp_all add: sample_os_def)

section \<open>Two leaves\<close>

definition leaf_cfg :: "string \<Rightarrow> u16 \<Rightarrow> broker_config" where
  "leaf_cfg i port = default_config\<lparr>broker_id := i, listen_port := port, cfg_parent_addr := ''127.0.0.1:5000''\<rparr>"

lemma leaf_cfg_sel [simp]:
  "broker_id (leaf_cfg i port) = i" "cfg_parent_addr (leaf_cfg i port) = ''127.0.0.1:5000''"
  "sint (brake_limit (leaf_cfg i port)) = 2"
  by (simp_all add: leaf_cfg_def default_config_def)

lemma keyed_leaf_start:
  "\<exists>b logs. broker_new sample_env sample_os rng_ref sample_addr (leaf_cfg i port) keyed_fs []
    = Inr (b, keyed_fs, [], logs)"
proof -
  have "find_char CHR '':'' ''127.0.0.1:5000'' = Some 9" "stoi ''5000'' = Inr (5000, 4)" by code_simp+
  then obtain pa where "resolve_parent (cfg_parent_addr (leaf_cfg i port)) sample_addr = Inr pa"
    by (simp add: resolve_parent_def Let_def)
  then show ?thesis
    using keyed_leaf_key by (simp add: broker_new_def init_crypto_def init_crypto_leaf_def Let_def sample_os_sel)
qed

lemma sample_leaves: "distinct_leaves (leaf_cfg ''a'' 7000) (leaf_cfg ''b'' 7001)" "sample_addr \<noteq> other_leaf_addr"
  by (simp_all add: distinct_leaves_def sample_addr_def other_leaf_addr_def)

lemma leaf_cfg_region: "config_region (leaf_cfg i port) = region_default"
  by (simp add: config_region_def leaf_cfg_def default_config_def point_region_def region_default_def)

lemma leaf_seen_dist: "flt (child_dist sample_env (leaf_seen (leaf_cfg i port) sample_addr 0 0) 0 0) DBL_MAX"
proof -
  have "ch_region (leaf_seen (leaf_cfg i port) sample_addr 0 0) = region_default"
    by (simp add: leaf_seen_def region_seen_def leaf_cfg_region region_default_def
        grow_region_def region_changed_def fmin_def fmax_def fne_def Let_def)
  from zero_region_dist(2) [OF this] show ?thesis by (simp add: flt_def DBL_MAX_def)
qed

section \<open>Two clients\<close>

definition sub_args :: "string list" where
  "sub_args = [''client'', ''sub'', ''127.0.0.1'', ''7000'', ''pizza'', ''0'', ''0'']"

definition pub_args :: "string list" where
  "pub_args = [''client'', ''pub'', ''127.0.0.1'', ''7001'', ''pizza'', ''0'', ''0'', ''hot'']"

lemma sample_args:
  "split_args sub_args = (True, [''client'', ''sub'', ''127.0.0.1'', ''7000'', ''pizza'', ''0'', ''0''])"
  "split_args pub_args = (True, [''client'', ''pub'', ''127.0.0.1'', ''7001'', ''pizza'', ''0'', ''0'', ''hot''])"
  by (simp_all add: split_args_def sub_args_def pub_args_def is_plain_flag_def)

lemma sample_numbers: "stof ''0'' = Inr 0" "stoi ''7000'' = Inr (7000, 4)" "stoi ''7001'' = Inr (7001, 4)"
  by code_simp+

lemma sample_sub_sent:
  "\<exists>dst d. client_main (lib_hash sample_env) (lib_gmp sample_env) rng_ref sample_os keyed_fs sub_args [1, 1]
    = Some (Sends dst d)"
proof -
  obtain m1 m2 t' where "heps_blind_subscription (lib_hash sample_env) (lib_gmp sample_env) rng_ref loaded_heps
      ''pizza'' [1, 1] = Some (Inr ((m1, m2), t'))"
    by (simp add: heps_blind_subscription_def blind_negated_def encrypt_def blind_subscription_def
        loaded_heps_def sample_key_def sample_draw Let_def)
  then show ?thesis
    by (simp add: client_main_def sample_args keyed_load sample_numbers client_sub_def sub_send_def sample_os_sel
        Let_def del: sample_env_sel)
qed

lemma sample_pub_sent:
  "\<exists>dst d. client_main (lib_hash sample_env) (lib_gmp sample_env) rng_ref sample_os keyed_fs pub_args []
    = Some (Sends dst d)"
proof -
  obtain bval u' where "heps_blind_notification (lib_hash sample_env) (lib_gmp sample_env) rng_ref loaded_heps
      ''pizza'' [] = Inr (bval, u')"
    by (simp add: heps_blind_notification_def blind_notification_def loaded_heps_def
      sample_key_def rng_ref_def Let_def)
  then show ?thesis
    by (simp add: client_main_def sample_args keyed_load sample_numbers client_pub_def plain_send_def sample_os_sel
        Let_def del: sample_env_sel)
qed

text \<open>What the subscriber's screen says.\<close>

lemma sample_line:
  "received_line nan \<lparr>shown_name = Some ''pizza'', shown_coords = Some (0, 0), shown_payload = ''hot''\<rparr>
    = ''RECEIVED PUB: \"pizza\" @ (0.000000,0.000000) payload=\"hot\"''"
  by (simp add: received_line_def to_string_def)

section \<open>A tree from its start\<close>

text \<open>A broker as the constructor leaves it: with the key of the files, and some parent.\<close>

definition member :: "string \<Rightarrow> u16 \<Rightarrow> string \<Rightarrow> sockaddr \<Rightarrow> broker" where
  "member i port up pa =
     (let cfg = (leaf_cfg i port)\<lparr>cfg_parent_addr := up\<rparr>
      in (blank_broker sample_addr cfg)\<lparr>has_parent := True, parent_addr := pa, my_region := config_region cfg,
           he_n := heps_n loaded_heps, he_mu := heps_mu loaded_heps,
           he_n_sq := heps_n loaded_heps * heps_n loaded_heps, he_enabled := True, he_key_source := key_file\<rparr>)"

lemma member_sel [simp]:
  "has_parent (member i port up pa)" "parent_addr (member i port up pa) = pa"
  "broker_id (config (member i port up pa)) = i" "sint (brake_limit (config (member i port up pa))) = 2"
  "config_region (config (member i port up pa)) = region_default"
  using leaf_cfg_region [of i port] by (simp_all add: member_def Let_def config_region_def)

lemma member_constructed:
  assumes "resolve_parent up sample_addr = Inr pa" and "up \<noteq> []"
  shows "constructed sample_env sample_os rng_ref (member i port up pa)"
proof -
  have "\<exists>logs. broker_new sample_env sample_os rng_ref sample_addr ((leaf_cfg i port)\<lparr>cfg_parent_addr := up\<rparr>) keyed_fs []
      = Inr (member i port up pa, keyed_fs, [], logs)"
    using assms keyed_leaf_key
    by (simp add: broker_new_def init_crypto_def init_crypto_leaf_def Let_def sample_os_sel member_def)
  then show ?thesis unfolding constructed_def by blast
qed

definition outer_addr :: sockaddr where
  "outer_addr = \<lparr>sin_addr = 0x7f000001, sin_port = 4000\<rparr>"

lemma member_parents:
  "resolve_parent ''127.0.0.1:5000'' sample_addr = Inr root_addr"
  "resolve_parent ''127.0.0.1:4000'' sample_addr = Inr outer_addr"
  by code_simp+

definition small_tree :: "(sockaddr \<times> broker) list" where
  "small_tree = [(root_addr, member ''r'' 5000 ''127.0.0.1:4000'' outer_addr),
     (sample_addr, member ''a'' 7000 ''127.0.0.1:5000'' root_addr),
     (other_leaf_addr, member ''b'' 7001 ''127.0.0.1:5000'' root_addr)]"

lemma outer_differs [simp]: "outer_addr \<noteq> root_addr" "outer_addr \<noteq> sample_addr" "outer_addr \<noteq> other_leaf_addr"
  by (simp_all add: outer_addr_def root_addr_def sample_addr_def other_leaf_addr_def)

lemma small_tree_proper: "proper_tree sample_depth small_tree"
  by (simp add: proper_tree_def small_tree_def sample_depth_def)

definition small_request :: interest where
  "small_request = \<lparr>rq_client = client_sock, rq_at = sample_addr, rq_name = ''pizza'', rq_key = ''pizza'',
     rq_lat = 0, rq_lon = 0, rq_bvals = None\<rparr>"

definition small_journey :: journey where
  "small_journey = \<lparr>jn_origin = client_sock, jn_name = ''pizza'', jn_key = ''pizza'', jn_lat = 0, jn_lon = 0,
     jn_payload = ''hot'', jn_bval = None, jn_client = client_sock\<rparr>"

lemma small_members:
  "\<forall>b \<in> snd ` set small_tree. constructed sample_env sample_os rng_ref b \<and>
     configured {Zero False} small_journey (config b)"
proof -
  have "client_addr_str client_sock \<notin> {''r'', ''a'', ''b''}" by code_simp
  then show ?thesis
    using member_constructed member_parents
    by (auto simp: small_tree_def configured_def coords_in_def region_default_def small_journey_def)
qed

lemma small_coords:
  "coords_closed {Zero False} small_request" "reachable_regions sample_env {Zero False} small_journey"
proof -
  show "coords_closed {Zero False} small_request"
    by (simp add: coords_closed_def small_request_def narrow_def)
  have "flt (child_dist sample_env c 0 0) DBL_MAX" if "coords_in {Zero False} (ch_region c)" for c
  proof -
    have "ch_region c = region_default" using that by (simp add: coords_in_def region_default_def)
    from zero_region_dist(2) [OF this] show ?thesis by (simp add: flt_def DBL_MAX_def)
  qed
  then show "reachable_regions sample_env {Zero False} small_journey"
    by (simp add: reachable_regions_def small_journey_def)
qed

lemma small_request_short: "rq_short small_request"
  using plain_packets_fit(1) [of "''pizza''" "[]" 0 0 False]
  by (simp add: rq_short_def rq_packet_def small_request_def short_pair_def)

lemma small_answers: "answers sample_env small_request small_journey (started small_tree)"
  using sample_near by (simp add: answers_def small_request_def small_journey_def passes_match_def split: bool.split)

lemma small_path: "tree_path (father (started small_tree)) sample_route"
proof -
  have "father (started small_tree) other_leaf_addr = Some root_addr" "father (started small_tree) sample_addr = Some root_addr"
    by (simp_all add: father_def started_at small_tree_def)
  then show ?thesis by (simp add: sample_route_def)
qed

end
