(* ===== verification/Lifecycle.thy ===== *)
theory Lifecycle
  imports Broker_Loop Config
begin

text \<open>
  The life of a broker process: \<^verbatim>\<open>main\<close> (\<^verbatim>\<open>src/main.cpp\<close>) after the configuration, \<^verbatim>\<open>start\<close> with its
  early returns and its loop, and the destructor (\<^verbatim>\<open>src/broker/broker.cpp\<close>), with the descriptors
  the process holds.
\<close>

section \<open>The code\<close>

datatype descriptor = ServerSocket | Epoll

text \<open>The loop over what \<^verbatim>\<open>epoll_wait\<close> returns: it is left at an error other than \<^verbatim>\<open>EINTR\<close>.\<close>

fun broker_loop :: "env \<Rightarrow> wait_result list \<Rightarrow> node \<Rightarrow> crypto_error + node \<times> action list" where
  "broker_loop E [] nd = Inr (nd, [])"
| "broker_loop E (w # ws) nd =
     (if \<not> nd_running nd then Inr (nd, [])
      else case loop_turn E w nd of Inl e \<Rightarrow> Inl e
           | Inr (nd1, out1) \<Rightarrow>
               (case broker_loop E ws nd1 of Inl e \<Rightarrow> Inl e
                | Inr (nd2, out2) \<Rightarrow> Inr (nd2, out1 @ out2)))"

text \<open>
  \<^verbatim>\<open>start\<close>, given the outcomes of \<^verbatim>\<open>epoll_create1\<close> and \<^verbatim>\<open>epoll_ctl\<close>: whether it returned, the broker,
  the open descriptors and what was sent.
\<close>

definition start_broker ::
    "env \<Rightarrow> bool \<Rightarrow> bool \<Rightarrow> time_t \<Rightarrow> wait_result list \<Rightarrow> broker \<Rightarrow> descriptor set
      \<Rightarrow> crypto_error + bool \<times> broker \<times> descriptor set \<times> action list" where
  "start_broker E epoll_created socket_added now ws b fds =
     (let fds1 = (if epoll_created then insert Epoll fds else fds)
      in case broker_start epoll_created socket_added now b of
           None \<Rightarrow> Inr (True, b, fds1, [])
         | Some (nd, out) \<Rightarrow>
             (case broker_loop E ws nd of Inl e \<Rightarrow> Inl e
              | Inr (nd1, out1) \<Rightarrow>
                  Inr (if nd_running nd1 then (False, nd_broker nd1, fds1, out @ out1)
                       else (True, nd_broker nd1, fds1 - {Epoll}, out @ out1))))"

definition broker_delete :: "descriptor set \<Rightarrow> descriptor set" where
  "broker_delete fds = fds - {ServerSocket}"

text \<open>What is left of \<^verbatim>\<open>main\<close> once the broker is constructed: it returns zero when \<^verbatim>\<open>start\<close> does.\<close>

definition main_rest ::
    "env \<Rightarrow> bool \<Rightarrow> bool \<Rightarrow> time_t \<Rightarrow> wait_result list \<Rightarrow> broker
      \<Rightarrow> crypto_error + int option \<times> broker \<times> descriptor set \<times> action list" where
  "main_rest E epoll_created socket_added now ws b =
     (case start_broker E epoll_created socket_added now ws b {ServerSocket} of Inl e \<Rightarrow> Inl e
      | Inr (returned, b', fds, out) \<Rightarrow>
          Inr (if returned then (Some 0, b', broker_delete fds, out) else (None, b', fds, out)))"

section \<open>How a process ends\<close>

lemma loop_turn_running:
  "loop_turn E w nd = Inr (nd', out) \<Longrightarrow> nd_running nd' \<longleftrightarrow> nd_running nd \<and> w \<noteq> WaitError"
  by (auto simp: loop_turn_def split: wait_result.splits sum.splits if_splits)

lemma loop_run_first: "loop_step E nd out1 nd1 \<Longrightarrow> loop_run E nd1 out2 nd2 \<Longrightarrow> loop_run E nd (out1 @ out2) nd2"
proof (rotate_tac, induction rule: loop_run.induct)
  case start
  then show ?case using loop_run.more [OF loop_run.start] by fastforce
next
  case (more out2 nd2 out3 nd3)
  then show ?case using loop_run.more [OF more.IH [OF more.prems] more.hyps(2)] by simp
qed

text \<open>The loop has a result, is a run of the step relation, and goes on until an error.\<close>

lemma broker_loop_result:
  "broker_wf (nd_broker nd) \<Longrightarrow> \<exists>nd' out. broker_loop E ws nd = Inr (nd', out) \<and> loop_run E nd out nd' \<and>
    (nd_running nd' \<longleftrightarrow> nd_running nd \<and> WaitError \<notin> set ws)"
proof (induction ws arbitrary: nd)
  case Nil
  show ?case by (simp add: loop_run.start)
next
  case (Cons w ws)
  show ?case
  proof (cases "nd_running nd")
    case True
    obtain nd1 out1 where 1: "loop_turn E w nd = Inr (nd1, out1)" using loop_turn_total [OF Cons.prems] by blast
    have "broker_wf (nd_broker nd1)" using loop_turn_keeps [OF 1] Cons.prems by (simp add: keeps_def)
    from Cons.IH [OF this] obtain nd2 out2 where 2: "broker_loop E ws nd1 = Inr (nd2, out2)" "loop_run E nd1 out2 nd2"
      "nd_running nd2 \<longleftrightarrow> nd_running nd1 \<and> WaitError \<notin> set ws" by blast
    have "loop_step E nd out1 nd1" using True 1 by (rule loop_step.turn)
    from loop_run_first [OF this 2(2)] 1 2 loop_turn_running [OF 1] True show ?thesis by auto
  qed (simp add: loop_run.start)
qed

theorem main_ends:
  assumes wf: "broker_wf b"
  shows "\<exists>status b' fds out. main_rest E epoll_created socket_added t ws b = Inr (status, b', fds, out) \<and>
    (status = (if epoll_created \<and> socket_added \<and> WaitError \<notin> set ws then None else Some 0)) \<and>
    (status = Some 0 \<longrightarrow> fds = (if epoll_created \<and> \<not> socket_added then {Epoll} else {})) \<and>
    (epoll_created \<and> socket_added \<longrightarrow> (\<exists>nd out'. loop_run E (start_node t b) out' nd \<and> b' = nd_broker nd \<and>
       out = start_actions b @ out')) \<and>
    (\<not> (epoll_created \<and> socket_added) \<longrightarrow> b' = b \<and> out = [])"
proof (cases "epoll_created \<and> socket_added")
  case False
  then show ?thesis by (auto simp: main_rest_def start_broker_def broker_start_def broker_delete_def)
next
  case True
  have "broker_wf (nd_broker (start_node t b))" using wf by (simp add: start_node_def)
  from broker_loop_result [OF this, of E ws] obtain nd out where
    "broker_loop E ws (start_node t b) = Inr (nd, out)" "loop_run E (start_node t b) out nd"
    "nd_running nd \<longleftrightarrow> WaitError \<notin> set ws" by (auto simp: start_node_def)
  with True show ?thesis
    by (auto simp: main_rest_def start_broker_def broker_start_def broker_delete_def Let_def)
qed

text \<open>From every successful start.\<close>

lemma main_start_constructs:
  assumes "main_start E Os R junk argv fs s = Inr (b, fs', s', lines)"
  obtains cfg where "broker_new E Os R junk cfg fs s = Inr (b, fs', s', lines)"
  using assms by (auto simp: main_start_def split: if_splits sum.splits)

theorem turns_never_fault:
  assumes "gmp_spec (lib_gmp E)" and "rng_spec R"
    and "broker_new E Os R junk cfg fs s = Inr (b, fs', s', lines)" and "loop_run E (start_node t b) out nd"
  shows "\<exists>nd' out'. loop_turn E w nd = Inr (nd', out')"
proof -
  have "keeps b (nd_broker nd)" using loop_run_keeps [OF assms(4)] by (simp add: start_node_def)
  then have "broker_wf (nd_broker nd)" using broker_new_wf(1) [OF assms(1-3)] by (simp add: keeps_def)
  then show ?thesis by (rule loop_turn_total)
qed

end
