(* ===== verification/Spec2Isabelle.thy ===== *)
theory Spec2Isabelle
  imports Observations Logger Sample_Deployment Lifecycle
begin

text \<open>
  A verification development for DNS++: a tree of UDP brokers that carry publications of named,
  located services to the subscribers they come closer to, optionally under hashes and blinded values
  beyond the broker that a client talks to.

  \<^bold>\<open>The program.\<close> A broker process (\<^verbatim>\<open>src/main.cpp\<close>, \<^verbatim>\<open>src/broker/\<close>) reads a configuration file,
  takes part in a tree through the address of its parent, and handles datagrams one at a time in
  an \<^verbatim>\<open>epoll\<close> loop. Clients (\<^verbatim>\<open>clients/test_client.cpp\<close>) send SUBSCRIBE, PUBLISH and HEARTBEAT;
  brokers tell their parent HELLO, REGION_UPDATE, aggregated SUBSCRIBEs and PUBLISHes, and their
  children PUBLISHes. Messages are in a TLV format (\<^verbatim>\<open>src/protocol/\<close>). A publication goes to the
  parent under a rate limiter (the brake), to the children whose best distance in a quadrant of
  their region it improves, and to the local subscribers it comes closer to than any publication
  before (\<^verbatim>\<open>src/utils/geo.h\<close>). In encrypted mode a client adds blinded values of a modified Paillier
  scheme (\<^verbatim>\<open>src/crypto/\<close>) to the name; its broker replaces the name by a hash and compares with the
  blinded values. The root generates the key, leaves read the half they compare with, clients the
  whole key.

  \<^bold>\<open>Theories and code.\<close>
  \<^item> \<^theory_text>\<open>Prelude\<close>, \<^theory_text>\<open>Umap\<close>, \<^theory_text>\<open>Stdlib\<close>: machine integers as words, byte order, strings, \<^verbatim>\<open>unordered_map\<close> as an
    association list with its contract (locale \<^verbatim>\<open>unordered_map\<close>), \<^verbatim>\<open>getline\<close>, \<^verbatim>\<open>stoi\<close>, \<^verbatim>\<open>stof\<close>, \<^verbatim>\<open>inet_pton\<close>.
  \<^item> \<^theory_text>\<open>Fp\<close>, \<^theory_text>\<open>Geo\<close>: \<^verbatim>\<open>float\<close> and \<^verbatim>\<open>double\<close> with rounding, infinities, signed zeros and not-a-number;
    \<^verbatim>\<open>geo.h\<close>: \<^verbatim>\<open>geoDistance\<close>, \<^verbatim>\<open>Region\<close> and how it is printed (\<^verbatim>\<open>std::to_string\<close>).
  \<^item> \<^theory_text>\<open>TlvMessage\<close>, \<^theory_text>\<open>TlvBuilder\<close>: \<^verbatim>\<open>TlvMessage.h/.cpp\<close>. A message is its byte list; the parser's loop, the
    lookup of a field and the getters; the builder as a record. The contract between the two is the
    locale \<^verbatim>\<open>wire_codec\<close>, interpreted on them (\<^verbatim>\<open>tlv\<close>). The parser exists a second time with checked
    accesses, for its memory safety.
  \<^item> \<^theory_text>\<open>Gmp\<close>, \<^theory_text>\<open>Paillier\<close>, \<^theory_text>\<open>KeyGen\<close>, \<^theory_text>\<open>Heps\<close>, \<^theory_text>\<open>Matching\<close>: \<^verbatim>\<open>Paillier.cpp\<close>, \<^verbatim>\<open>Heps.cpp\<close> and \<^verbatim>\<open>executeMatch\<close>. The
    locales \<^verbatim>\<open>gmp_spec\<close>, \<^verbatim>\<open>rng_spec\<close> and \<^verbatim>\<open>crypto_lib\<close> state what the GMP manual documents, and are
    interpreted on executable functions.
  \<^item> \<^theory_text>\<open>Brake\<close>: \<^verbatim>\<open>getQuadrant\<close> and the sliding window of \<^verbatim>\<open>brakeAllows\<close>; the locale \<^verbatim>\<open>rate_limiter\<close> derives
    the bound over any sequence of calls from two laws of one call.
  \<^item> \<^theory_text>\<open>Broker_State\<close>: the members of \<^verbatim>\<open>DnsMulticastBroker\<close> as the record \<^verbatim>\<open>broker\<close>, its invariant
    \<^verbatim>\<open>broker_wf\<close>, and the helpers. \<^theory_text>\<open>Subscribe\<close>, \<^theory_text>\<open>Publish\<close>, \<^theory_text>\<open>Control\<close>: the handlers, one definition per
    block of the source; each takes the broker and returns the broker and the datagrams it sends
    (\<^verbatim>\<open>SendTo\<close>), in order. Errors (a division by zero inside GMP, a failed assertion) are \<^verbatim>\<open>Inl\<close>.
  \<^item> \<^theory_text>\<open>Startup\<close>, \<^theory_text>\<open>Config\<close>: the constructor, \<^verbatim>\<open>initCrypto\<close> with the key files and their modes, and
    \<^verbatim>\<open>main.cpp\<close>. \<^theory_text>\<open>Broker_Loop\<close>: \<^verbatim>\<open>start\<close>, the dispatch and the loop, as a function of one turn and a step
    relation for runs. \<^theory_text>\<open>Lifecycle\<close>: the rest of \<^verbatim>\<open>main\<close>, from \<^verbatim>\<open>start\<close> to the destructor.
  \<^item> \<^theory_text>\<open>Client\<close>: \<^verbatim>\<open>test_client.cpp\<close>: the command line, the key file, its packets, the outcome of its
    sockets, its receive loop and the line it prints for a datagram. \<^theory_text>\<open>Client_Run\<close>: what a run of it
    sends and shows of the name, and what brokers make of that. \<^theory_text>\<open>Logger\<close>: the queue, the worker
    thread and the destructor of \<^verbatim>\<open>src/logger/\<close> as interleaved steps, and executions of them.
  \<^item> \<^theory_text>\<open>Delivery\<close>, \<^theory_text>\<open>End_To_End\<close>, \<^theory_text>\<open>Outgoing\<close>, \<^theory_text>\<open>Network\<close>, \<^theory_text>\<open>Cross_Broker\<close>, \<^theory_text>\<open>Deployment\<close>: the parts together. Delivery
    as records of closeness; one broker between two clients; every datagram a broker can send and
    where to; several brokers with the datagrams in flight as a multiset and any interleaving of
    their deliveries and losses; the way from leaf to leaf; the key from root to client.
    \<^theory_text>\<open>Whole_System\<close>: all processes, from the constructors and command lines to the screen.
  \<^item> \<^theory_text>\<open>Routing\<close>, \<^theory_text>\<open>Climbing\<close>, \<^theory_text>\<open>Round_Trip\<close>, \<^theory_text>\<open>Assembly\<close>: trees of brokers of any depth, in any order of
    deliveries. A publication on its way, a subscription on its way to the root, the one after the
    other, and the HELLOs that make a tree of freshly constructed brokers.
  \<^item> \<^theory_text>\<open>Service\<close>, \<^theory_text>\<open>Service_Refinement\<close>: the abstract specification of a broker, a service with a channel
    for each topic, and the simulation of it by the receive loop.
  \<^item> \<^theory_text>\<open>Observations\<close>: behaviour that differs from what comments or documents say. \<^theory_text>\<open>Samples\<close>,
    \<^theory_text>\<open>Sample_Network\<close>, \<^theory_text>\<open>Sample_Deployment\<close>: the concrete inputs of the witnesses (a key of two Proth
    primes, three brokers, key files, command lines).

  \<^bold>\<open>What is shown\<close> (C1 to C40 below). Delivery: from the start of the processes a publication
  reaches the screen of a subscriber at another leaf, encrypted; in a tree of any shape, from the
  constructors on and in every order of deliveries, it reaches a subscriber at any broker. The service: a
  broker sends its clients exactly what the abstract service does, turn by turn, over whole runs;
  over time a subscriber gets exactly the publications that set a record of closeness. The
  network: with parents in a tree no datagram circulates for ever, without losses everything in
  flight is handed over, and a publication arrives along an open path of any length in every order
  of deliveries. Secrecy: which names leave a broker, and that a client that is to
  encrypt never sends without a blinded value. Every run from every successful start: the
  invariant, no fault and how \<^verbatim>\<open>main\<close> ends, only well-formed messages, one announcement per key. The wire format: round
  trip, cut packets are dropped, memory safety. The brake: its bound. Each branch of forwarding and
  local delivery, the counters, the expiry, the regions, the queries, the configuration parser.
  Cryptography: key generation, decryption, the comparison is equality of hashes and agrees with
  the library's. Start-up: the keys of all parties agree, the files are private, a leaf without a
  key fails or warns. The logger: everything is printed in the end, in order, and the join ends.

  \<^bold>\<open>Parameters.\<close> The cosine of the C library (any function), \<^verbatim>\<open>std::hash\<close> (any function to 64 bits), GMP
  and its random numbers (under the three locales), the state a seed gives the generator, the
  operating system's answers (\<^verbatim>\<open>os\<close>), the file system, the clock (every reading is an argument), how a
  not-a-number is printed, and the order of \<^verbatim>\<open>unordered_map\<close> iteration (the association list's, which
  no property fixes).

  \<^bold>\<open>Loops and bounds.\<close> The parser's loop runs on the number of fields, the key search on its own
  attempt counters (32 and 8, the code's), and the redraw of \<^verbatim>\<open>encrypt\<close> until a non-zero number is
  \<^verbatim>\<open>partial_function\<close> (\<^verbatim>\<open>None\<close>: it never ends). Logger steps are counted by a rank that decreases.
  No fuel is chosen by the model. The receive buffer is the code's 4096 bytes.

  \<^bold>\<open>Not modelled.\<close> The text printed on the console beside what the constructor logs and what a
  subscriber prints for a publication; sockets beyond the outcome of their calls (a failed \<^verbatim>\<open>sendto\<close>
  is ignored by the code as well); datagrams duplicated by the network; the
  benchmarks, tests, scripts and documents, which are not part of the program.
\<close>

section \<open>Delivery across the tree\<close>








text \<open>
  C4. No datagram travels for ever. In any network of brokers whose parents form a tree of finite
  depth, with any datagrams in flight, from whomever and however many, every run of deliveries
  (in any order, at any clock, with any losses) comes to an end.
\<close>

theorem network_quiesces:
  assumes "broker_tree depth D N"
  shows "\<not> (\<exists>f. f 0 = N \<and> (\<forall>i. net_step E (f i) (f (Suc i))))"
  using no_endless_run [where depth = depth and D = D and E = E] assms by blast

theorem network_quiesces_witness:
  "(\<exists>N. net_step sample_env sample_net N) \<and>
   \<not> (\<exists>f. f 0 = sample_net \<and> (\<forall>i. net_step sample_env (f i) (f (Suc i))))"
proof
  show "\<exists>N. net_step sample_env sample_net N"
    by (intro exI, rule net_step.gone) (simp add: sample_net_def)
  show "\<not> (\<exists>f. f 0 = sample_net \<and> (\<forall>i. net_step sample_env (f i) (f (Suc i))))"
    by (rule network_quiesces [OF sample_tree])
qed

text \<open>
  C5. The network drains: when no datagram is lost, every run that goes on as long as it can
  reaches a state with nothing in flight, whatever the order of the deliveries. No broker stops
  at a datagram, and none waits for another.
\<close>

theorem network_drains:
  assumes "broker_tree depth D (f 0)" and "maximal_run (lossless_step E) f"
  shows "\<exists>i. in_flight (f i) = {#}"
  using assms by (rule maximal_run_drains)

theorem network_drains_witness:
  "\<exists>f i. f 0 = sample_net \<and> maximal_run (lossless_step sample_env) f \<and> in_flight (f i) = {#}"
proof -
  obtain f where f: "f 0 = sample_net" "maximal_run (lossless_step sample_env) f" by (rule maximal_run_exists)
  from network_drains [of _ _ f, OF _ f(2)] f sample_tree show ?thesis by metis
qed



section \<open>What the brokers and the clients keep to themselves\<close>

text \<open>
  C7. Names stay with the first broker: when a client's blinded SUBSCRIBE or PUBLISH reaches a
  broker with a key, every datagram the broker sends because of it elsewhere than back to the
  client or to its own subscribers names the service by its hash, except the REGION_UPDATE to the
  parent, which carries the id of the broker.
\<close>

theorem names_hidden_between_brokers:
  assumes "broker_wf b" and "he_enabled b" and "receive E ev b = Inr (b', out)" and "act \<in> set out"
    and "m = tlv_message (take recv_buffer (ev_bytes ev))" and "msg_type m = SUBSCRIBE \<or> msg_type m = PUBLISH"
    and "and (msg_flags m) FROM_CHILD = 0" and "and (msg_flags m) FROM_PARENT = 0"
    and "get_service_name m = Some name" and "get_blinded_value m \<noteq> None"
    and "out_dest act \<noteq> ev_from ev" and "out_dest act \<notin> client_addrs b"
  shows "get_service_name (tlv_message (out_data act)) = Some (hash_service_name E name) \<or>
    (msg_type (tlv_message (out_data act)) = REGION_UPDATE \<and>
     get_service_name (tlv_message (out_data act)) = Some (wire_string (broker_id (config b))))"
  using assms by (rule names_stay_local)

theorem names_hidden_between_brokers_witness:
  "\<exists>b' out act. receive sample_env (event_from client_sock (pub_packet ''pizza'' 0 0 ''hot'' (Some ''7'')))
      (leaf_of sample_he_broker) = Inr (b', out) \<and> act \<in> set out \<and> out_dest act = root_addr \<and>
    get_service_name (tlv_message (out_data act)) = Some (hash_service_name sample_env ''pizza'')"
proof -
  let ?leaf = "leaf_of sample_he_broker" and ?d = "pub_packet ''pizza'' 0 0 ''hot'' (Some ''7'')"
  let ?ev = "event_from client_sock ?d" and ?key = "hash_service_name sample_env ''pizza''"
  have wf: "broker_wf ?leaf" and leaf_he: "he_enabled ?leaf" using sample_broker_wf(2) by simp_all
  let ?m = "tlv_message ?d"
  note len = length_pub_packet [of "''pizza''" "''hot''" "Some ''7''" 0 0]
  note v = pub_view [of "''pizza''" "''hot''" "Some ''7''", OF _ _ _ refl, of 0 0]
  have view: "get_service_name ?m = Some ''pizza''" "msg_flags ?m = 0" "get_blinded_value ?m = Some ''7''"
    and fit: "length ?d \<le> recv_buffer"
    using len v by (simp_all add: msg_flags_def recv_buffer_def)
  obtain b' out where run: "receive sample_env ?ev ?leaf = Inr (b', out)" using receive_total [OF wf] by blast
  have pub: "handle_publish sample_env 100 100 ?m client_sock ?leaf = Inr (b', out)"
    using receive_pub [of "''pizza''" "''hot''" "Some ''7''" ?ev 0 0 sample_env ?leaf] run fit by (simp add: event_from_def)
  have key: "?key = pub_key_of sample_env ?leaf ''pizza'' (get_blinded_value ?m) (msg_flags ?m)"
    using view by (simp add: pub_key_of_def)
  have limit: "1 \<le> sint (brake_limit (config ?leaf))"
    by (simp add: sample_he_broker_def sample_broker_def sample_cfg_def default_config_def)
  let ?up = "forward_packet ?m ?key (msg_lat ?m) (msg_lon ?m) (get_blinded_value ?m) FROM_CHILD"
  have up: "SendTo root_addr ?up \<in> set out"
    using publish_goes_up [OF pub view(1) key _ _ _ limit] view(2) by (simp add: window_at_def um_at_def)
  have here: "m = tlv_message (take recv_buffer (ev_bytes ?ev))" if "m = ?m" for m using fit that by simp
  have no: "client_addrs ?leaf = {}" "root_addr \<noteq> client_sock"
    by (simp_all add: client_addrs_def um_find_def sample_he_broker_def sample_broker_def blank_broker_def leaf_of_def
        root_addr_def client_sock_def)
  from names_hidden_between_brokers [OF wf leaf_he run up here [OF refl], of "''pizza''"] view no
  have "get_service_name (tlv_message ?up) = Some ?key"
    using client_msg_type(2) forward_view(2) [OF refl] by simp
  then show ?thesis using run up by force
qed

text \<open>
  C8. An encrypting client never falls back: without \<^verbatim>\<open>--plaintext\<close> and with no key to load the
  process ends without a datagram, and any datagram it sends carries a blinded value. It also
  carries the name of the service in the clear: the first broker is trusted with it.
\<close>

theorem no_silent_plaintext:
  assumes "\<not> list_ex is_plain_flag (tl argv)" and "argv ! 1 = ''sub'' \<or> argv ! 1 = ''pub''"
    and "length (argv ! 7) < 2 ^ 32"
  shows "case client_main H G R Os fs argv s of
      Some (Sends dst d) \<Rightarrow> fst (load_state G (read_file Os full_key_file fs) heps_default) \<and>
        get_blinded_value (tlv_message d) \<noteq> None \<and>
        get_service_name (tlv_message d) = Some (wire_string (argv ! 4))
    | Some _ \<Rightarrow> True
    | None \<Rightarrow> fst (load_state G (read_file Os full_key_file fs) heps_default)"
proof (cases "client_main H G R Os fs argv s")
  case None
  then show ?thesis using no_key_no_packet [OF assms(1,2), of G Os fs H R s] by auto
next
  case (Some r)
  then show ?thesis
    using no_key_no_packet [OF assms(1,2), of G Os fs H R s] blinded_request_view [OF assms(1,2) _ assms(3)]
    by (cases r) auto
qed

theorem no_silent_plaintext_witness:
  "(\<exists>dst d. client_main fnv1a gmp_ref rng_ref sample_os keyed_fs pub_args [] = Some (Sends dst d) \<and>
     get_blinded_value (tlv_message d) \<noteq> None) \<and>
   (\<nexists>dst d. client_main fnv1a gmp_ref rng_ref sample_os Map.empty pub_args [] = Some (Sends dst d))"
proof -
  have args: "\<not> list_ex is_plain_flag (tl pub_args)" "pub_args ! 1 = ''pub''" "length (pub_args ! 7) < 2 ^ 32"
    by (simp_all add: pub_args_def is_plain_flag_def)
  note here = no_silent_plaintext [OF args(1) disjI2 [OF args(2)] args(3), where H = fnv1a and G = gmp_ref and R = rng_ref and Os = sample_os]
  obtain dst d where "client_main fnv1a gmp_ref rng_ref sample_os keyed_fs pub_args [] = Some (Sends dst d)"
    using sample_pub_sent by auto
  moreover have "\<not> fst (load_state gmp_ref (read_file sample_os full_key_file Map.empty) heps_default)"
    by (simp add: read_file_def load_state_def)
  ultimately show ?thesis using here [where fs = keyed_fs and s = "[]"] here [where fs = Map.empty and s = "[]"]
    by (auto split: option.splits client_result.splits)
qed

section \<open>The comparison, and delivery over time\<close>





text \<open>
  C11. The delivery rule refines its abstract specification: over any sequence of publications of
  one key, the \<open>j\<close>-th reaches exactly the subscribers for which it sets a new record of
  closeness, in the order of the group.
\<close>

theorem deliveries_are_records:
  assumes "list_all client_wf gs" and "j < length ps"
  shows "snd (deliver_sequence C ps gs) ! j
       = map (\<lambda>g. SendTo (gc_addr g) (pub_raw (ps ! j))) (filter (sets_record C ps j) gs)"
  using assms by (rule deliver_sequence_records)

theorem deliveries_are_records_witness:
  "snd (deliver_sequence (\<lambda>_. Fin 1) [\<lparr>pub_lat = 0, pub_lon = 0, pub_raw = [1]\<rparr>]
      [new_client sample_addr 0 0 None None]) ! 0
   = map (\<lambda>g. SendTo (gc_addr g) [1])
       (filter (sets_record (\<lambda>_. Fin 1) [\<lparr>pub_lat = 0, pub_lon = 0, pub_raw = [1]\<rparr>] 0)
         [new_client sample_addr 0 0 None None])"
  using deliveries_are_records [of "[new_client sample_addr 0 0 None None]" 0
      "[\<lparr>pub_lat = 0, pub_lon = 0, pub_raw = [1]\<rparr>]" "\<lambda>_. Fin 1"] by simp

section \<open>Every run\<close>

text \<open>
  C12. Every state the program can reach is well-formed: whatever the arguments, the configuration
  file, the file system, the random numbers, the datagrams and the clock, a state the receive
  loop reaches after a successful start has non-empty groups, bounded caches and windows, a
  usable modulus, distinct keys, and the configuration, parent and key the constructor set.
\<close>

theorem reachable_states_well_formed:
  assumes "gmp_spec (lib_gmp E)" and "rng_spec R"
    and "main_start E Os R junk argv fs s = Inr (b, fs', s', lines)"
    and "loop_run E (start_node t b) out nd"
  shows "broker_wf (nd_broker nd) \<and> same_setup (nd_broker nd) b \<and> config_wf (config (nd_broker nd))"
proof -
  obtain cfg where cfg: "parse_config (read_file Os (argv ! 1) fs) = Inr cfg"
    and new: "broker_new E Os R junk cfg fs s = Inr (b, fs', s', lines)"
    using assms(3) by (auto simp: main_start_def split: if_splits sum.splits)
  note b = broker_new_wf [OF assms(1,2) new]
  have "keeps b (nd_broker nd)" using loop_run_keeps [OF assms(4)] by (simp add: start_node_def)
  then have "broker_wf (nd_broker nd) \<and> same_setup (nd_broker nd) b" using b(1) by (simp add: keeps_def)
  moreover have "config_wf (config b)" using parse_config_wf [OF cfg] b(2) by simp
  ultimately show ?thesis by (simp add: same_setup_def)
qed

theorem reachable_states_well_formed_witness:
  "\<exists>b out nd. out \<noteq> [] \<and> loop_run sample_env (start_node 0 b) out nd \<and> broker_wf (nd_broker nd)"
proof -
  have gmp: "gmp_spec (lib_gmp sample_env)" by (simp add: ref_gmp.gmp_spec_axioms)
  obtain b lines out nd where main: "main_start sample_env sample_os rng_ref sample_addr
      [''broker'', ''leaf.cfg''] sample_fs [] = Inr (b, sample_fs, [], lines)"
    and run: "loop_run sample_env (start_node 0 b) out nd" and "announce b ''pizza'' \<in> set out"
    using sample_run by blast
  then have "out \<noteq> []" by auto
  with reachable_states_well_formed [OF gmp ref_rng.rng_spec_axioms main run] run show ?thesis by blast
qed



text \<open>
  C14. Every datagram of every run is a message: before the loop the program says at most HELLO, to
  its parent; then, whatever is received from whomever, each datagram it sends passes its own
  parser and is a SUBSCRIBE, PUBLISH, REGION_UPDATE, HELLO_ACK or STATS_RESPONSE.
\<close>

theorem datagrams_well_typed:
  assumes "gmp_spec (lib_gmp E)" and "rng_spec R"
    and "main_start E Os R junk argv fs s = Inr (b, fs', s', lines)"
    and "broker_start epoll_created socket_added t b = Some (nd0, out0)" and "loop_run E nd0 out nd"
  shows "(\<forall>act \<in> set out0. out_dest act = parent_addr b \<and> valid (tlv_message (out_data act)) \<and>
      msg_type (tlv_message (out_data act)) = HELLO) \<and>
    (\<forall>act \<in> set out. valid (tlv_message (out_data act)) \<and> msg_type (tlv_message (out_data act))
      \<in> {SUBSCRIBE, PUBLISH, REGION_UPDATE, HELLO_ACK, STATS_RESPONSE})"
proof -
  have "nd0 = start_node t b" "out0 = start_actions b"
    using assms(4) by (auto simp: broker_start_def split: if_splits)
  then show ?thesis
    using started_speaks(2) [OF assms(1-3), of t out nd] assms(5) hello_view
    by (auto simp: broker_speaks_def start_actions_def)
qed

theorem datagrams_well_typed_witness:
  "\<exists>b nd0 out0 out nd. broker_start True True 0 b = Some (nd0, out0) \<and> loop_run sample_env nd0 out nd \<and>
     announce b ''pizza'' \<in> set out \<and> (\<forall>act \<in> set out. valid (tlv_message (out_data act)))"
proof -
  have gmp: "gmp_spec (lib_gmp sample_env)" by (simp add: ref_gmp.gmp_spec_axioms)
  obtain b lines out nd where main: "main_start sample_env sample_os rng_ref sample_addr
      [''broker'', ''leaf.cfg''] sample_fs [] = Inr (b, sample_fs, [], lines)"
    and run: "loop_run sample_env (start_node 0 b) out nd" and ann: "announce b ''pizza'' \<in> set out"
    using sample_run by blast
  have start: "broker_start True True 0 b = Some (start_node 0 b, start_actions b)" by (simp add: broker_start_def)
  from datagrams_well_typed [OF gmp ref_rng.rng_spec_axioms main start run] run start ann show ?thesis by blast
qed

text \<open>
  C15. Subscriptions are aggregated: over a whole run the SUBSCRIBEs a broker sends are
  announcements to its parent, one for each key, in the order in which the keys became known,
  and never two for one key, however many clients and children subscribe.
\<close>

theorem announced_once:
  assumes "gmp_spec (lib_gmp E)" and "rng_spec R"
    and "main_start E Os R junk argv fs s = Inr (b, fs', s', lines)"
    and "loop_run E (start_node t b) out nd"
  shows "\<exists>keys. filter (\<lambda>act. msg_type (tlv_message (out_data act)) = SUBSCRIBE) out
      = map (\<lambda>key. SendTo (parent_addr b) (subscribe_packet (config b) key)) keys \<and>
    distinct keys \<and> rev keys = ot_parent (nd_broker nd)"
  using started_speaks(1) [OF assms] by (simp add: announcements_def announce_def [abs_def])

theorem announced_once_witness:
  "\<exists>b out nd keys. loop_run sample_env (start_node 0 b) out nd \<and>
     SendTo (parent_addr b) (subscribe_packet (config b) ''pizza'') \<in> set out \<and>
     filter (\<lambda>act. msg_type (tlv_message (out_data act)) = SUBSCRIBE) out
       = map (\<lambda>key. SendTo (parent_addr b) (subscribe_packet (config b) key)) keys \<and> distinct keys"
proof -
  have gmp: "gmp_spec (lib_gmp sample_env)" by (simp add: ref_gmp.gmp_spec_axioms)
  obtain b lines out nd where main: "main_start sample_env sample_os rng_ref sample_addr
      [''broker'', ''leaf.cfg''] sample_fs [] = Inr (b, sample_fs, [], lines)"
    and run: "loop_run sample_env (start_node 0 b) out nd" and ann: "announce b ''pizza'' \<in> set out"
    using sample_run by blast
  from announced_once [OF gmp ref_rng.rng_spec_axioms main run] run ann show ?thesis
    unfolding announce_def by blast
qed

section \<open>The wire format\<close>

text \<open>
  C16. Round trip of the wire format: a packet built from fields of less than 64 KiB is accepted
  by the parser, which finds each field with its first value, the message type, and the payload
  (none for an empty one).
\<close>

theorem wire_round_trip:
  assumes "packet_ok p fs" and "named_msg (b_type p)"
  shows "valid (tlv_message (build p)) \<and> msg_type (tlv_message (build p)) = b_type p \<and>
    (\<forall>t. field_value (tlv_message (build p)) t = map_of fs (tlv_code t)) \<and>
    get_payload (tlv_message (build p)) = (if b_payload p = [] then None else Some (b_payload p))"
  using tlv.accepts [OF assms(1)] tlv.keeps_fields [OF assms(1)] tlv.keeps_body [OF assms(1)]
    parse_build_type [of p] assms(2)
  by (simp add: field_value_def)

theorem wire_round_trip_witness:
  "field_value (tlv_message (build (sub_builder ''pizza'' 1 2 True None))) FLAGS = Some (put32 QUERY_MODE)"
  using wire_round_trip [OF sub_builder_ok [of "''pizza''" None 1 2 True]]
  by (simp add: client_types short_pair_def sub_fields_def)

text \<open>
  C17. A datagram cut by a buffer is dropped: the parser accepts the first \<open>n\<close> bytes of a built
  packet exactly when they are the whole packet, so a truncated packet is never half read.
\<close>

theorem truncated_packets_rejected:
  assumes "packet_ok p fs"
  shows "valid (tlv_message (take n (build p))) \<longleftrightarrow> length (build p) \<le> n"
  using assms by (rule tlv.recv_all_or_nothing)

theorem truncated_packets_rejected_witness:
  "\<not> valid (tlv_message (take 20 (build (sub_builder ''pizza'' 1 2 True None))))"
  using truncated_packets_rejected [OF sub_builder_ok [of "''pizza''" None 1 2 True], of 20]
    length_sub_packet [of "''pizza''" None 1 2 True]
  by (simp add: short_pair_def sub_packet_def)

text \<open>
  C18. Memory safety of the parser: on every datagram the validation loop, a lookup of any field
  with a read of its whole value, and a read of the payload stay inside the buffer; run with
  checked accesses they give what the unchecked code gives.
\<close>

theorem parser_memory_safe:
  "tlv_scan_chk d k cursor = Some (tlv_scan d k cursor) \<and>
   find_value_chk (tlv_message d) t = Some (field_value (tlv_message d) t) \<and>
   get_payload_chk (tlv_message d) = Some (get_payload (tlv_message d))"
  using tlv_scan_chk find_value_chk get_payload_chk by blast

section \<open>The brake\<close>

text \<open>
  C19. The brake bounds the rate: over any sequence of calls in one direction, for any services
  and places, at times that do not go back, two admissions of one service and quadrant that are
  \<open>brake_limit\<close> places apart are more than \<open>brake_window_sec\<close> seconds apart.
\<close>

theorem brake_limits_every_window:
  assumes "broker_wf b" and "window_at (dir_windows dir b) s q = []" and "sorted (map bc_now cs)"
    and "ts = map bc_now (filter (in_window s q) (brake_run dir cs b))"
    and "i + nat (sint (brake_limit (config b))) < length ts"
  shows "ts ! (i + nat (sint (brake_limit (config b)))) - ts ! i > brake_window_sec (config b)"
  using assms by (rule brake_run_limit)

definition sample_calls :: "brake_call list" where
  "sample_calls = map (\<lambda>t. \<lparr>bc_now = t, bc_service = ''a'', bc_lat = 0, bc_lon = 0\<rparr>) [0, 1, 5, 20, 21]"

theorem brake_limits_every_window_witness:
  "map bc_now (filter (in_window ''a'' 0) (brake_run DirLocal sample_calls sample_broker)) = [0, 1, 20, 21] \<and>
   ([0, 1, 20, 21] :: time_t list) ! (0 + nat (sint (brake_limit (config sample_broker)))) - [0, 1, 20, 21] ! 0
     > brake_window_sec (config sample_broker)"
proof -
  have run: "map bc_now (filter (in_window ''a'' 0) (brake_run DirLocal sample_calls sample_broker)) = [0, 1, 20, 21]"
    by code_simp
  have "sorted (map bc_now sample_calls)" by (simp add: sample_calls_def)
  from brake_limits_every_window [OF sample_broker_wf(1) _ this run [symmetric], of 0] run show ?thesis
    by (simp add: dir_windows_def)
qed


section \<open>Forwarding and local delivery\<close>

text \<open>
  C20. What goes down the tree: the children with subscribers of the key that get the publication
  are exactly those it improves on in its quadrant of their region, the sender excluded; each
  gets one datagram at its address, and the others none.
\<close>

theorem children_forwarding:
  assumes "broker_wf b" and "forward_down E msg key lat lon bval_n from_id b = (b', out)"
  shows "out = map (child_sends msg key lat lon bval_n b)
      (filter (child_accepts E lat lon from_id b) (active_children b key)) \<and>
    \<not> child_accepts E lat lon from_id b from_id \<and>
    stat_forward_down b' = stat_forward_down b + word_of_nat (length out) \<and>
    subscribers b' = subscribers b"
  using forward_down_result [OF assms] by (simp add: child_accepts_def)

theorem children_forwarding_witness:
  "\<exists>b' out. forward_down sample_env (tlv_message (pub_packet ''a'' 0 0 ''x'' None)) ''a'' 0 0 None ''p''
      sample_parent_broker = (b', out) \<and>
    out = map (child_sends (tlv_message (pub_packet ''a'' 0 0 ''x'' None)) ''a'' 0 0 None sample_parent_broker)
      (filter (child_accepts sample_env 0 0 ''p'' sample_parent_broker) [''c''])"
proof -
  obtain b' out where run: "forward_down sample_env (tlv_message (pub_packet ''a'' 0 0 ''x'' None)) ''a'' 0 0
      None ''p'' sample_parent_broker = (b', out)" by force
  have "active_children sample_parent_broker ''a'' = [''c'']"
    by (simp add: active_children_def sample_parent_broker_def um_find_def)
  with children_forwarding [OF sample_parent_wf run] run show ?thesis by simp
qed

text \<open>
  C21. Local delivery, every branch: nothing without a group; nothing when the local brake
  refuses or the group's comparison fails; otherwise the publication goes, as received, to the
  subscribers that get closer, whose recorded distances are then the new ones. No other group
  changes, and the counter counts the datagrams.
\<close>

theorem local_delivery:
  assumes "deliver_local E now msg key lat lon bval_n b = Inr (b', out)"
  shows "out = local_deliveries E now msg key lat lon bval_n b \<and>
    um_at [] (subscribers b') key = delivered_group E now key lat lon bval_n b \<and>
    (\<forall>k. k = key \<or> um_find (subscribers b') k = um_find (subscribers b) k) \<and>
    stat_delivered_local b' = stat_delivered_local b + word_of_nat (length out)"
  using deliver_local_result [OF assms] by blast

theorem local_delivery_witness:
  "\<exists>b' out. deliver_local sample_env 100 (tlv_message (pub_packet ''a'' 0 0 ''x'' None)) ''a'' 0 0 None
      sample_sub_broker = Inr (b', out) \<and>
    out = local_deliveries sample_env 100 (tlv_message (pub_packet ''a'' 0 0 ''x'' None)) ''a'' 0 0 None
      sample_sub_broker"
proof -
  obtain r where run: "deliver_local sample_env 100 (tlv_message (pub_packet ''a'' 0 0 ''x'' None)) ''a'' 0 0
      None sample_sub_broker = Inr r" using deliver_local_total [OF sample_sub_wf] by blast
  obtain b' out where "r = (b', out)" by force
  with run local_delivery [of sample_env 100 _ "''a''" 0 0 None sample_sub_broker b' out] show ?thesis by blast
qed

text \<open>
  C22. The counters count the datagrams: handling a publication adds to the three forwarding
  counters together exactly the number of datagrams sent, modulo \<open>2\<^sup>6\<^sup>4\<close>.
\<close>

theorem counters_count_datagrams:
  assumes "broker_wf b" and "handle_publish E t_up t_local msg client b = Inr (b', out)"
  shows "stat_forward_up b' + stat_forward_down b' + stat_delivered_local b'
       = stat_forward_up b + stat_forward_down b + stat_delivered_local b + word_of_nat (length out)"
  using assms by (rule handle_publish_counts)

theorem counters_count_datagrams_witness:
  "\<exists>b' out. handle_publish sample_env 100 100 (tlv_message (pub_packet ''a'' 0 0 ''x'' None)) sample_addr
      sample_sub_broker = Inr (b', out) \<and>
    stat_forward_up b' + stat_forward_down b' + stat_delivered_local b' = word_of_nat (length out)"
proof -
  obtain b' out where run: "handle_publish sample_env 100 100 (tlv_message (pub_packet ''a'' 0 0 ''x'' None))
      sample_addr sample_sub_broker = Inr (b', out)" using handle_publish_total [OF sample_sub_wf] by blast
  have "stat_forward_up sample_sub_broker + stat_forward_down sample_sub_broker
      + stat_delivered_local sample_sub_broker = 0"
    by (simp add: sample_sub_broker_def sample_broker_def blank_broker_def)
  with counters_count_datagrams [OF sample_sub_wf run] run show ?thesis by simp
qed

text \<open>
  C23. Recorded distances never grow: a message of any kind leaves every group with its members
  in their order, each at most as far from its closest publication as before; new members come
  after them.
\<close>

theorem distances_never_grow:
  assumes "broker_wf b" and "handle_message E t1 t2 msg addr b = Inr (b', out)"
  shows "groups_advance b b'"
  using assms by (rule handle_message_advance)

theorem distances_never_grow_witness:
  "\<exists>b' out. handle_message sample_env 100 100 (tlv_message (pub_packet ''a'' 0 0 ''x'' None)) sample_addr
      sample_sub_broker = Inr (b', out) \<and> groups_advance sample_sub_broker b'"
  using handle_message_total [OF sample_sub_wf] distances_never_grow [OF sample_sub_wf] by blast

section \<open>Cryptography\<close>

text \<open>
  C24. Key generation: for every even length of at least four bits (the root uses 2048) the
  outcome is the exhaustion of a prime search, or a key whose modulus has exactly that many bits
  and is the product of two primes, with every equation of the scheme when the primes differ. No
  other error is possible: the first modulus already has the length, the assertion of \<^verbatim>\<open>L\<close> holds
  and the inverse exists.
\<close>

theorem key_generation:
  assumes "gmp_spec G" and "rng_spec R" and "2 \<le> h"
  shows "key_gen G R (2 * h) s = Inl GenPrimeExhausted \<or>
    (\<exists>k s'. key_gen G R (2 * h) s = Inr (k, s') \<and> kn k = kp k * kq k \<and>
       is_prime (kp k) \<and> is_prime (kq k) \<and> 2 ^ (2 * h - 1) \<le> kn k \<and> kn k < 2 ^ (2 * h) \<and>
       1 \<le> kr_m k \<and> kr_m k < 2 ^ 992 \<and> (kp k = kq k \<or> key_params (kp k) (kq k) k))"
  using crypto_lib.key_gen_cases [OF crypto_lib.intro [OF assms(1,2)] assms(3), of s] by blast

theorem key_generation_witness:
  "\<exists>k s'. key_gen gmp_ref rng_ref 10 [24, 29, 5, 7] = Inr (k, s') \<and> kp k = 29 \<and> kq k = 31 \<and> key_params 29 31 k"
proof -
  have "key_gen gmp_ref rng_ref (2 * 5) [24, 29, 5, 7] \<noteq> Inl GenPrimeExhausted"
    using small_key_started(1) by auto
  with key_generation [OF ref_gmp.gmp_spec_axioms ref_rng.rng_spec_axioms, of 5 "[24, 29, 5, 7]"]
  obtain k s' where k: "key_gen gmp_ref rng_ref (2 * 5) [24, 29, 5, 7] = Inr (k, s')"
    "kp k = kq k \<or> key_params (kp k) (kq k) k" by auto
  from small_key_started(2) [OF k(1)] k show ?thesis by auto
qed

text \<open>
  C25. Decryption inverts encryption: a message below the modulus, encrypted with the nonce the
  generator draws, is decrypted to itself, when the nonce has no factor in common with the
  modulus (the code only tests that it is not zero).
\<close>

theorem decrypt_inverts_encrypt:
  assumes "gmp_spec G" and "rng_spec R" and "key_params p q k" and "0 \<le> m" and "m < kn k"
    and "pick_nonzero R (kn k) s = Some (r, s')" and "coprime r (kn k)"
  shows "\<exists>c. encrypt G R k m s = Some (Inr (c, s')) \<and> decrypt G k c = Inr m"
proof -
  note pos = key_params_pos [OF assms(3)]
  have "0 \<le> r" using pick_nonzero_range [OF assms(2) _ assms(6)] pos(3) by simp
  then have "decrypt G k (encrypt_with G k m r) = Inr m"
    using gmp_spec.decrypt_encrypt_with [OF assms(1,3,4,7)] assms(4,5) by simp
  then show ?thesis using pos assms(6) by (simp add: encrypt_def)
qed

theorem decrypt_inverts_encrypt_witness:
  "\<exists>c. encrypt gmp_ref rng_ref sample_key 42 [1] = Some (Inr (c, [])) \<and> decrypt gmp_ref sample_key c = Inr 42"
proof -
  have "pick_nonzero rng_ref (kn sample_key) [1] = Some (1, [])"
    using sample_draw [of "[]"] by (simp add: sample_key_def)
  from decrypt_inverts_encrypt [OF ref_gmp.gmp_spec_axioms ref_rng.rng_spec_axioms sample_key_params _ _ this]
  show ?thesis by (simp add: sample_key_def)
qed


section \<open>Starting up\<close>





text \<open>
  C28. How a leaf starts: with a readable key file it runs encrypted with that key; without one it
  exits if \<^verbatim>\<open>require_he\<close> is set and otherwise runs in plaintext with a warning. It never writes
  a file and never falls back silently.
\<close>

theorem leaf_fails_fast:
  assumes "cfg_parent_addr cfg \<noteq> []" and "os_socket Os" and "os_bind Os (listen_port cfg)"
    and "resolve_parent (cfg_parent_addr cfg) junk = Inr pa"
  shows "case leaf_key (lib_gmp E) (read_file Os key_file fs) of
      Some (n, mu) \<Rightarrow> \<exists>b lines. broker_new E Os R junk cfg fs s = Inr (b, fs, s, lines) \<and>
        he_enabled b \<and> he_n b = n \<and> he_mu b = mu
    | None \<Rightarrow>
        if require_he cfg then broker_new E Os R junk cfg fs s = Inl RequireHeFailed
        else \<exists>b lines. broker_new E Os R junk cfg fs s = Inr (b, fs, s, lines) \<and>
          \<not> he_enabled b \<and> plaintext_warning b \<in> set lines"
  using assms
  by (auto simp: broker_new_def init_crypto_def init_crypto_leaf_def plaintext_warning_def Let_def
      split: option.split)

theorem leaf_fails_fast_witness:
  "broker_new sample_env sample_os rng_ref sample_addr
     (sample_cfg\<lparr>cfg_parent_addr := ''127.0.0.1:5000'', require_he := True\<rparr>) sample_fs []
   = Inl RequireHeFailed"
proof -
  let ?cfg = "sample_cfg\<lparr>cfg_parent_addr := ''127.0.0.1:5000'', require_he := True\<rparr>"
  have "find_char CHR '':'' ''127.0.0.1:5000'' = Some 9" "stoi ''5000'' = Inr (5000, 4)" by code_simp+
  then obtain pa where pa: "resolve_parent (cfg_parent_addr ?cfg) sample_addr = Inr pa"
    by (simp add: resolve_parent_def Let_def)
  have "leaf_key gmp_ref (read_file sample_os key_file sample_fs) = None"
    by (simp add: read_file_def sample_fs_def key_file_def leaf_key_def)
  with leaf_fails_fast [where Os = sample_os and E = sample_env and fs = sample_fs and R = rng_ref and s = "[]",
      OF _ _ _ pa] show ?thesis
    by (simp add: sample_os_def)
qed

text \<open>
  C29. Loading a key never leaves a half-loaded object: \<^verbatim>\<open>loadState\<close> either fails and leaves the
  proxy as it was, or succeeds with a non-zero modulus and consistent parameters.
\<close>

theorem load_state_all_or_nothing:
  "case load_state G file h of (ok, h') \<Rightarrow>
     if ok then heps_n h' \<noteq> 0 \<and> kn (heps_paillier h') = heps_n h' \<and> kmu (heps_paillier h') = heps_mu h' \<and>
       kn_sq (heps_paillier h') = heps_n h' * heps_n h' \<and> kg (heps_paillier h') = heps_n h' + 1
     else h' = h"
  using load_state_ok [of G "file" h] load_state_failed [of G "file" h] by (cases "load_state G file h") auto

section \<open>Expiry, regions, queries\<close>



text \<open>
  C31. Heartbeats do not reach encrypted groups: whatever number of \<^verbatim>\<open>test_client beat\<close> datagrams
  arrive for a service, the clock of the group its blinded subscriptions joined (stored under the
  hash of the name) stands still, and the group expires with all its subscribers.
\<close>

theorem heartbeats_miss_encrypted_groups:
  assumes "broker_wf b" and "\<forall>ev \<in> set evs. ev_bytes ev = beat_packet name"
    and "length name < 4000" and "hash_service_name E name \<noteq> name"
    and "overdue now b (hash_service_name E name)"
  shows "\<exists>b'. receive_all E evs b = Inr (b', []) \<and>
    um_find (subscribers b') (hash_service_name E name) \<noteq> None \<and>
    um_find (subscribers (cleanup_expired now b')) (hash_service_name E name) = None"
  using assms by (rule beats_cannot_keep_encrypted_group)

definition sample_hash_group :: broker where
  "sample_hash_group = sample_he_broker
     \<lparr>subscribers := [(hash_service_name sample_env ''pizza'', [new_client sample_addr 0 0 (Some ''1'') (Some ''2'')])],
      last_active := [(hash_service_name sample_env ''pizza'', 100)]\<rparr>"

lemma sample_hash_group_wf: "broker_wf sample_hash_group"
  using sample_broker_wf(2)
  by (auto simp: sample_hash_group_def broker_wf_def crypto_wf_def sets_wf_def active_wf_def
      groups_wf_def um_inv_def um_find_def split: if_splits)

theorem heartbeats_miss_encrypted_groups_witness:
  "\<exists>b'. receive_all sample_env [sample_event (beat_packet ''pizza''), sample_event (beat_packet ''pizza'')]
      sample_hash_group = Inr (b', []) \<and>
    um_find (subscribers (cleanup_expired 116 b')) (hash_service_name sample_env ''pizza'') = None"
proof -
  have "hash_service_name sample_env ''pizza'' \<noteq> ''pizza''"
    using show_nat_digits [of "CHR ''p''" "unat (fnv1a ''pizza'')"]
    by (auto simp: hash_service_name_def)
  moreover have "overdue 116 sample_hash_group (hash_service_name sample_env ''pizza'')"
    by (simp add: overdue_def sample_hash_group_def um_find_def um_at_def TTL_SECONDS_def)
  ultimately show ?thesis
    using heartbeats_miss_encrypted_groups [OF sample_hash_group_wf,
        of "[sample_event (beat_packet ''pizza''), sample_event (beat_packet ''pizza'')]" "''pizza''" sample_env 116]
    by auto
qed

text \<open>
  C32. The region \<^verbatim>\<open>updateMyRegion\<close> computes is the least one that covers the broker's own point
  and the regions of its children.
\<close>

theorem region_is_least_upper_bound:
  assumes "region_num (config_region (config b))"
    and "\<forall>(i, c) \<in> set (children b). region_num (ch_region c)"
  shows "region_le (my_region (update_my_region b)) u \<longleftrightarrow>
    region_le (config_region (config b)) u \<and> (\<forall>(i, c) \<in> set (children b). region_le (ch_region c) u)"
proof -
  let ?r = "foldl (\<lambda>r (i, c). merge r (ch_region c)) (config_region (config b)) (children b)"
  have "region_le (config_region (config b)) ?r" by (rule foldl_merge_acc [OF assms(1)])
  moreover have "region_le (ch_region c) ?r" if "(i, c) \<in> set (children b)" for i c
    using foldl_merge_child [OF assms(1) that] assms(2) that by blast
  ultimately show ?thesis
    using foldl_merge_least [of "config_region (config b)" u "children b"]
    by (auto simp: update_my_region_def intro: region_le_trans)
qed

theorem region_is_least_upper_bound_witness:
  "region_le (my_region (update_my_region sample_parent_broker)) region_default"
  using region_is_least_upper_bound [of sample_parent_broker region_default]
  by (simp add: sample_parent_broker_def sample_defs blank_broker_def config_region_def point_region_def
      region_num_def child_default_def region_default_def region_le_def)



text \<open>
  C34. A query is answered from the cache with a closest publication: when some cached
  publication of the key is at a measurable distance, exactly one datagram goes to the client,
  the raw bytes of one that no other is closer than; otherwise nothing happens.
\<close>

theorem query_returns_closest:
  assumes "query_cache E key lat lon client b = (b', out)"
    and "ps = um_at [] (pub_cache b) key" and "d = pub_dist (lib_cos E) lat lon"
  shows "if \<exists>p \<in> set ps. flt (d p) DBL_MAX
    then \<exists>p \<in> set ps. out = [SendTo client (raw_message p)] \<and> \<not> (\<exists>q \<in> set ps. flt (d q) (d p))
    else out = [] \<and> b' = b"
proof (cases "um_find (pub_cache b) key")
  case None
  then show ?thesis using assms by (simp add: query_cache_def um_at_def)
next
  case (Some pubs)
  obtain best dist where c: "closest_cached (lib_cos E) lat lon (None, DBL_MAX) pubs = (best, dist)" by force
  have ps: "ps = pubs" using assms(2) Some by (simp add: um_at_def)
  from closest_cached_result [OF c] show ?thesis
  proof (elim disjE conjE bexE)
    assume "best = None" "\<forall>p \<in> set pubs. \<not> flt (pub_dist (lib_cos E) lat lon p) DBL_MAX"
    then show ?thesis using assms(1,3) Some c ps by (auto simp: query_cache_def split: if_splits)
  next
    fix p assume p: "p \<in> set pubs" "best = Some p" "dist = pub_dist (lib_cos E) lat lon p" "flt dist DBL_MAX"
      "\<forall>q \<in> set pubs. \<not> flt (pub_dist (lib_cos E) lat lon q) dist"
    then have "out = [SendTo client (raw_message p)]"
      using assms(1) Some c by (auto simp: query_cache_def split: if_splits)
    with p show ?thesis unfolding ps assms(3) by auto
  qed
qed

theorem query_returns_closest_witness:
  "\<exists>b'. query_cache sample_env ''a'' 0 0 sample_addr
      (sample_sub_broker\<lparr>pub_cache := [(''a'', [\<lparr>cp_lat = 0, cp_lon = 0, raw_message = [7]\<rparr>])]\<rparr>)
    = (b', [SendTo sample_addr [7]])"
proof -
  let ?p = "\<lparr>cp_lat = 0, cp_lon = 0, raw_message = [7]\<rparr>"
  let ?b = "sample_sub_broker\<lparr>pub_cache := [(''a'', [?p])]\<rparr>"
  obtain b' out where run: "query_cache sample_env ''a'' 0 0 sample_addr ?b = (b', out)" by force
  have "flt (pub_dist (lib_cos sample_env) 0 0 ?p) DBL_MAX" using sample_near by (simp add: pub_dist_def)
  with query_returns_closest [OF run refl refl] run show ?thesis by (simp add: um_at_def um_find_def)
qed

section \<open>Configuration\<close>

text \<open>
  C35. An accepted configuration is usable: a broker id, a port between 1 and 65535, a positive
  brake limit and window, a parent address with a colon if there is one, and coordinates in
  range or not numbers.
\<close>

theorem accepted_config_usable:
  assumes "parse_config txt_file = Inr cfg"
  shows "config_wf cfg \<and> broker_id cfg \<noteq> [] \<and> listen_port cfg \<noteq> 0"
  using assms by (rule parse_config_wf)

theorem accepted_config_usable_witness:
  "\<exists>cfg. parse_config (Some sample_file) = Inr cfg \<and> config_wf cfg \<and> broker_id cfg \<noteq> [] \<and> listen_port cfg \<noteq> 0"
  using sample_parse accepted_config_usable by blast



section \<open>Statistics and distances\<close>

text \<open>
  C37. The statistics can be read back: the response to a STATS_REQUEST is one datagram whose two
  fields hold, in network order, the four and the twelve counters of the broker.
\<close>

theorem stats_round_trip:
  "case handle_stats_request client b of (b', out) \<Rightarrow>
     \<exists>d bs bs'. out = [SendTo client d] \<and> valid (tlv_message d) \<and> msg_type (tlv_message d) = STATS_RESPONSE \<and>
       field_value (tlv_message d) STATS_DATA = Some bs \<and> map (stat_slot bs) [0..<4] = stats_values b' \<and>
       field_value (tlv_message d) STATS_DATA_EXT = Some bs' \<and> length bs' = 96 \<and>
       map (stat_slot bs') [0..<12] = ext_values b'"
proof -
  let ?b = "snapshot_stats b"
  have slots: "map (stat_slot (stats_bytes vs)) [0..<length vs] = vs" for vs
    by (rule nth_equalityI) (simp_all add: stat_slot_bytes)
  have len: "length (stats_values ?b) = 4" "length (ext_values ?b) = 12"
    by (simp_all add: stats_values_def ext_values_def)
  note fields = stats_packet_fields [of ?b]
  from slots [of "stats_values ?b"] slots [of "ext_values ?b"] tlv.accepts [OF fields] built_field [OF fields]
  show ?thesis
    by (simp add: handle_stats_request_def Let_def stats_packet_def parse_build_type msg_cast_def len
        del: upt_rec_numeral)
qed

section \<open>Shared quadrants\<close>



section \<open>The logger\<close>




end
